(* ===== verification/Prelude.thy ===== *)
theory Prelude
  imports Main "HOL-Library.Word"
begin

text \<open>
  Shared vocabulary of the development: the machine integer types of the C++ sources as
  words of their width, strings of bytes, the exceptions the code can throw as values, and
  the generic lemmas on words, lists and results that the component theories rewrite with.
\<close>

section \<open>Machine types\<close>

type_synonym u8 = "8 word"
type_synonym u16 = "16 word"
type_synonym u32 = "32 word"
type_synonym u64 = "64 word"
type_synonym size_t = "64 word"
type_synonym bytes = "u8 list"

section \<open>Exceptions as values\<close>

text \<open>
  A C++ exception is a value of type \<open>exn\<close>; a method that may throw returns a
  \<open>result\<close>, \<open>Inl\<close> for the exception and \<open>Inr\<close> for the normal return.
  \<open>Undefined\<close> marks an operation that C++ leaves undefined, such as the front of an
  empty queue; the theorems show where it cannot happen. \<open>UnixError\<close> is a
  \<^verbatim>\<open>unix_error\<close>: the system call attempted and the value of \<^verbatim>\<open>errno\<close>.
\<close>

datatype exn =
    OutOfRange string
  | RuntimeError string
  | UnixError string int
  | InvalidArgument string
  | Undefined string

type_synonym 'a result = "exn + 'a"

definition bindE :: "'a result \<Rightarrow> ('a \<Rightarrow> 'b result) \<Rightarrow> 'b result" where
  "bindE m f = (case m of Inl e \<Rightarrow> Inl e | Inr x \<Rightarrow> f x)"

lemma bindE_simps [simp]:
  "bindE (Inl e) f = Inl e"
  "bindE (Inr x) f = f x"
  by (simp_all add: bindE_def)

lemma bindE_cong [fundef_cong]:
  "m = m' \<Longrightarrow> (\<And>x. m' = Inr x \<Longrightarrow> f x = g x) \<Longrightarrow> bindE m f = bindE m' g"
  by (cases m') (simp_all add: bindE_def)

lemma bindE_Inr_iff: "bindE m f = Inr y \<longleftrightarrow> (\<exists>x. m = Inr x \<and> f x = Inr y)"
  by (cases m) auto

text \<open>A result is good if it is an expected exception or a state with the invariant.\<close>

definition good :: "(exn \<Rightarrow> bool) \<Rightarrow> ('a \<Rightarrow> bool) \<Rightarrow> 'a result \<Rightarrow> bool" where
  "good err P m \<longleftrightarrow> (case m of Inl e \<Rightarrow> err e | Inr x \<Rightarrow> P x)"

lemma good_simps [simp]: "good err P (Inl e) = err e" "good err P (Inr x) = P x"
  by (simp_all add: good_def)

lemma good_bindE: "good err P m \<Longrightarrow> (\<And>x. P x \<Longrightarrow> good err Q (f x)) \<Longrightarrow> good err Q (bindE m f)"
  by (cases m) auto

section \<open>Collections of rewrite rules\<close>

named_theorems nowrap \<open>unsigned readings of word arithmetic that does not wrap around\<close>
named_theorems opdefs \<open>definitions of the operations that proofs unfold together\<close>

section \<open>Sizes of strings and lists as machine words\<close>

text \<open>\<open>sz s\<close> is \<open>s.size()\<close>: the length as a \<open>size_t\<close>.\<close>

definition sz :: "'a list \<Rightarrow> size_t" where
  "sz xs = of_nat (length xs)"

text \<open>Every string that exists in memory has a length that a \<open>size_t\<close> can hold.\<close>

definition fits :: "'a list \<Rightarrow> bool" where
  "fits xs \<longleftrightarrow> length xs < 2 ^ 64"

lemma unat_sz [nowrap]: "length xs < 2 ^ 64 \<Longrightarrow> unat (sz xs) = length xs"
  by (simp add: sz_def unat_of_nat)

lemma unat_sz_fits [simp]: "fits xs \<Longrightarrow> unat (sz xs) = length xs"
  by (simp add: fits_def unat_sz)

lemma unat_sz_le: "unat (sz xs) \<le> length xs"
  by (simp add: sz_def unat_of_nat)

lemma sz_Nil [simp]: "sz [] = 0"
  by (simp add: sz_def)

lemma sz_append: "sz (xs @ ys) = sz xs + sz ys"
  by (simp add: sz_def)

lemma sz_eq_0_iff: "fits xs \<Longrightarrow> sz xs = 0 \<longleftrightarrow> xs = []"
  by (metis length_0_conv sz_Nil unat_0 unat_sz_fits)

lemma fits_take [simp]: "fits xs \<Longrightarrow> fits (take n xs)"
  by (simp add: fits_def)

lemma fits_drop [simp]: "fits xs \<Longrightarrow> fits (drop n xs)"
  by (simp add: fits_def)

lemma fits_Nil [simp]: "fits []"
  by (simp add: fits_def)

lemma unat_size_t_bound [simp]: "unat (x :: size_t) < 18446744073709551616"
  using unsigned_less [of x, where 'a = nat] by simp

lemma fits_le_unat: "length xs \<le> unat (m :: size_t) \<Longrightarrow> fits xs"
  unfolding fits_def using le_less_trans [OF _ unat_size_t_bound [of m]] by simp

section \<open>Word arithmetic without wrap-around\<close>

lemma unat_add_nowrap [nowrap]:
  fixes a b :: size_t
  assumes "unat a + unat b < 2 ^ 64"
  shows "unat (a + b) = unat a + unat b"
  using assms by (simp add: unat_word_ariths)

lemma unat_sub_nowrap [nowrap]:
  fixes a b :: "'a::len word"
  assumes "unat b \<le> unat a"
  shows "unat (a - b) = unat a - unat b"
  using assms by (simp add: unat_sub word_le_nat_alt)

lemma unat_ucast_up:
  fixes x :: "'a::len word"
  assumes "LENGTH('a) \<le> LENGTH('b)"
  shows "unat (ucast x :: 'b::len word) = unat x"
proof -
  have "unat x < 2 ^ LENGTH('a)" by (rule unsigned_less)
  also have "\<dots> \<le> 2 ^ LENGTH('b)" using assms by simp
  finally show ?thesis by (simp add: unsigned_ucast_eq take_bit_nat_eq_self)
qed

lemma word_eq_unatI: "unat a = unat b \<Longrightarrow> a = b"
  by (simp add: word_unat_eq_iff)

lemmas word_order = word_less_nat_alt word_le_nat_alt

section \<open>Substrings\<close>

text \<open>
  \<open>std::string::substr(pos, n)\<close> throws \<open>std::out_of_range\<close> when \<open>pos\<close> is past the
  end, and otherwise takes at most \<open>n\<close> characters from \<open>pos\<close>.
\<close>

definition substr :: "bytes \<Rightarrow> size_t \<Rightarrow> size_t \<Rightarrow> bytes result" where
  "substr s pos n =
     (if sz s < pos then Inl (OutOfRange ''basic_string::substr'')
      else Inr (take (unat n) (drop (unat pos) s)))"

text \<open>\<open>substr(pos)\<close> with the default length \<open>npos\<close>: everything from \<open>pos\<close> on.\<close>

definition substr_from :: "bytes \<Rightarrow> size_t \<Rightarrow> bytes result" where
  "substr_from s pos =
     (if sz s < pos then Inl (OutOfRange ''basic_string::substr'')
      else Inr (drop (unat pos) s))"

lemma substr_0 [simp]: "substr s 0 n = Inr (take (unat n) s)"
  by (simp add: substr_def word_less_nat_alt)

lemma substr_from_ok:
  "fits s \<Longrightarrow> unat pos \<le> length s \<Longrightarrow> substr_from s pos = Inr (drop (unat pos) s)"
  by (simp add: substr_from_def word_less_nat_alt)

lemma substr_from_throws:
  "fits s \<Longrightarrow> length s < unat pos \<Longrightarrow> substr_from s pos = Inl (OutOfRange ''basic_string::substr'')"
  by (simp add: substr_from_def word_less_nat_alt)

section \<open>Logical streams\<close>

text \<open>
  The logical stream is a function from indices to bytes; \<open>stretch S i n\<close> are the
  \<open>n\<close> bytes from index \<open>i\<close> on.
\<close>

definition stretch :: "(nat \<Rightarrow> u8) \<Rightarrow> nat \<Rightarrow> nat \<Rightarrow> bytes" where
  "stretch S i n = map S [i..<i + n]"

lemma stretch_length [simp]: "length (stretch S i n) = n"
  by (simp add: stretch_def)

lemma stretch_take: "take k (stretch S i n) = stretch S i (min k n)"
  by (simp add: stretch_def take_map min_def)

lemma stretch_drop: "drop k (stretch S i n) = stretch S (i + k) (n - k)"
  by (cases "k \<le> n") (simp_all add: stretch_def drop_map)

lemma stretch_append: "j = i + m \<Longrightarrow> stretch S i m @ stretch S j n = stretch S i (m + n)"
  unfolding stretch_def
  by (metis add.assoc le_add1 map_append upt_add_eq_append)

lemma stretch_0 [simp]: "stretch S i 0 = []"
  by (simp add: stretch_def)

section \<open>Bit fields\<close>

unbundle bit_operations_syntax

text \<open>A value below \<open>2 ^ k\<close> has no bit from \<open>k\<close> on; packing and unpacking of the fields of header bytes.\<close>

lemma small_bit:
  fixes a :: "'a::len word"
  assumes "unat a < 2 ^ k" and "bit a n"
  shows "n < k"
proof -
  have "take_bit k a = a"
    using assms(1) by (intro word_eq_unatI) (simp add: unsigned_take_bit_eq take_bit_nat_eq_self)
  then have "bit (take_bit k a) n" using assms(2) by simp
  then show ?thesis by (simp add: bit_take_bit_iff)
qed

lemma nibbles:
  fixes a b :: u8
  assumes "unat a < 16" and "unat b < 16"
  shows "drop_bit 4 (push_bit 4 a OR b) = a \<and> (push_bit 4 a OR b) AND 0x0f = b"
proof -
  have a: "n < 4" if "bit a n" for n using small_bit [of a 4 n] assms that by simp
  have b: "n < 4" if "bit b n" for n using small_bit [of b 4 n] assms that by simp
  have low: "(0x0f :: u8) = mask 4" by (simp add: mask_eq_exp_minus_1)
  have "drop_bit 4 (push_bit 4 a OR b) = a"
    by (rule bit_word_eqI) (auto simp: bit_drop_bit_eq bit_or_iff bit_push_bit_iff possible_bit_def dest: a b)
  moreover have "(push_bit 4 a OR b) AND mask 4 = b"
    by (rule bit_word_eqI) (auto simp: bit_and_iff bit_or_iff bit_push_bit_iff bit_mask_iff dest: b)
  ultimately show ?thesis by (simp add: low)
qed

lemma fragment_word:
  fixes f :: u16
  assumes "unat f < 0x2000"
  shows "let fo = (if df then 0x4000 else 0) OR (if mf then 0x2000 else 0) OR (f AND 0x1fff)
    in (fo AND 0x4000 \<noteq> 0) = df \<and> (fo AND 0x2000 \<noteq> 0) = mf \<and> fo AND 0x1fff = f"
proof -
  have f: "n < 13" if "bit f n" for n using small_bit [of f 13 n] assms that by simp
  have k: "(0x1fff :: u16) = mask 13" "(0x4000 :: u16) = 2 ^ 14" "(0x2000 :: u16) = 2 ^ 13"
    by (simp_all add: mask_eq_exp_minus_1)
  have no: "\<not> bit f 13" "\<not> bit f 14" using f [of 13] f [of 14] by auto
  have "(if mf then 2 ^ 13 else 0) AND mask 13 = (0 :: u16)" "(if df then 2 ^ 14 else 0) AND mask 13 = (0 :: u16)"
    by (simp_all add: mask_eq_exp_minus_1)
  moreover have "f AND mask 13 = f"
    by (rule bit_word_eqI) (auto simp: bit_and_iff bit_mask_iff dest: f bit_imp_le_length)
  ultimately show ?thesis
    unfolding Let_def k and_exp_eq_0_iff_not_bit
    using no by (simp add: bit_or_iff bit_exp_iff bit.conj_disj_distrib2)
qed

lemma flag_byte:
  fixes fl :: u8
  assumes "fl = (if urg then 0x20 else 0) OR (if ack then 0x10 else 0) OR (if psh then 0x08 else 0)
      OR (if rst then 0x04 else 0) OR (if syn then 0x02 else 0) OR (if fin then 0x01 else 0)"
  shows "(fl AND 0x20 \<noteq> 0) = urg \<and> (fl AND 0x10 \<noteq> 0) = ack \<and> (fl AND 0x08 \<noteq> 0) = psh
    \<and> (fl AND 0x04 \<noteq> 0) = rst \<and> (fl AND 0x02 \<noteq> 0) = syn \<and> (fl AND 0x01 \<noteq> 0) = fin"
  unfolding assms by (cases urg; cases ack; cases psh; cases rst; cases syn; cases fin) simp_all

end
