(* ===== verification/Byte_Stream.thy ===== *)
theory Byte_Stream
  imports Prelude
begin

text \<open>
  The flow-controlled in-memory byte stream of \<^verbatim>\<open>src/libsponge/byte_stream.hh\<close> and
  \<^verbatim>\<open>byte_stream.cc\<close>: its state, its writer and reader operations, the interface they
  offer to the reassembler and the sender as a locale of bounded first-in first-out
  buffers, and the proof that the code implements it.
\<close>

section \<open>State and operations\<close>

record ByteStream =
  bs_error :: bool
  bs_end :: bool
  bs_content :: bytes
  bs_alread :: size_t
  bs_alwritten :: size_t
  bs_max :: size_t

definition ByteStream_new :: "size_t \<Rightarrow> ByteStream" where
  "ByteStream_new capacity =
     \<lparr>bs_error = False, bs_end = False, bs_content = [], bs_alread = 0, bs_alwritten = 0,
      bs_max = capacity\<rparr>"

definition ByteStream_buffer_size :: "ByteStream \<Rightarrow> size_t" where
  "ByteStream_buffer_size s = sz (bs_content s)"

definition ByteStream_remaining_capacity :: "ByteStream \<Rightarrow> size_t" where
  "ByteStream_remaining_capacity s = bs_max s - sz (bs_content s)"

definition ByteStream_write :: "bytes \<Rightarrow> ByteStream \<Rightarrow> size_t \<times> ByteStream" where
  "ByteStream_write data s =
     (let size = (if ByteStream_remaining_capacity s \<ge> sz data then sz data
                  else ByteStream_remaining_capacity s)
      in (size, s\<lparr>bs_content := bs_content s @ take (unat size) data,
                  bs_alwritten := bs_alwritten s + size\<rparr>))"

definition ByteStream_peek_output :: "size_t \<Rightarrow> ByteStream \<Rightarrow> bytes" where
  "ByteStream_peek_output len s =
     (let size = (if ByteStream_buffer_size s \<ge> len then len else ByteStream_buffer_size s)
      in take (unat size) (bs_content s))"

definition ByteStream_pop_output :: "size_t \<Rightarrow> ByteStream \<Rightarrow> ByteStream" where
  "ByteStream_pop_output len s =
     (let size = (if ByteStream_buffer_size s \<ge> len then len else ByteStream_buffer_size s)
      in s\<lparr>bs_content := drop (unat size) (bs_content s), bs_alread := bs_alread s + size\<rparr>)"

definition ByteStream_read :: "size_t \<Rightarrow> ByteStream \<Rightarrow> bytes \<times> ByteStream" where
  "ByteStream_read len s =
     (let size = (if ByteStream_buffer_size s \<ge> len then len else ByteStream_buffer_size s);
          buffercopy = ByteStream_peek_output size s
      in (buffercopy, ByteStream_pop_output size s))"

definition ByteStream_end_input :: "ByteStream \<Rightarrow> ByteStream" where
  "ByteStream_end_input s = s\<lparr>bs_end := True\<rparr>"

definition ByteStream_set_error :: "ByteStream \<Rightarrow> ByteStream" where
  "ByteStream_set_error s = s\<lparr>bs_error := True\<rparr>"

definition ByteStream_error :: "ByteStream \<Rightarrow> bool" where
  "ByteStream_error s = bs_error s"

definition ByteStream_input_ended :: "ByteStream \<Rightarrow> bool" where
  "ByteStream_input_ended s = bs_end s"

definition ByteStream_buffer_empty :: "ByteStream \<Rightarrow> bool" where
  "ByteStream_buffer_empty s \<longleftrightarrow> bs_content s = []"

definition ByteStream_eof :: "ByteStream \<Rightarrow> bool" where
  "ByteStream_eof s \<longleftrightarrow> bs_end s \<and> ByteStream_buffer_empty s"

definition ByteStream_bytes_written :: "ByteStream \<Rightarrow> size_t" where
  "ByteStream_bytes_written s = bs_alwritten s"

definition ByteStream_bytes_read :: "ByteStream \<Rightarrow> size_t" where
  "ByteStream_bytes_read s = bs_alread s"

lemmas ByteStream_accessors =
  ByteStream_buffer_size_def ByteStream_error_def ByteStream_input_ended_def
  ByteStream_buffer_empty_def ByteStream_eof_def ByteStream_bytes_written_def
  ByteStream_bytes_read_def ByteStream_end_input_def ByteStream_set_error_def

section \<open>Invariant\<close>

definition bs_inv :: "ByteStream \<Rightarrow> bool" where
  "bs_inv s \<longleftrightarrow> length (bs_content s) \<le> unat (bs_max s) \<and>
     bs_alwritten s = bs_alread s + sz (bs_content s)"

definition bs_room :: "ByteStream \<Rightarrow> nat" where
  "bs_room s = unat (bs_max s) - length (bs_content s)"

lemma bs_inv_fits [simp]: "bs_inv s \<Longrightarrow> fits (bs_content s)"
  by (auto simp: bs_inv_def intro: fits_le_unat)

lemma bs_inv_length: "bs_inv s \<Longrightarrow> length (bs_content s) \<le> unat (bs_max s)"
  by (simp add: bs_inv_def)

lemma bs_inv_new [simp]: "bs_inv (ByteStream_new c)"
  by (simp add: bs_inv_def ByteStream_new_def)

lemma unat_remaining_capacity [simp]:
  "bs_inv s \<Longrightarrow> unat (ByteStream_remaining_capacity s) = bs_room s"
  by (simp add: ByteStream_remaining_capacity_def bs_room_def nowrap bs_inv_length)

lemma unat_buffer_size [simp]:
  "bs_inv s \<Longrightarrow> unat (ByteStream_buffer_size s) = length (bs_content s)"
  by (simp add: ByteStream_buffer_size_def)

section \<open>What each operation does\<close>

definition bs_accepted :: "bytes \<Rightarrow> ByteStream \<Rightarrow> nat" where
  "bs_accepted data s = min (bs_room s) (length data)"

lemma write_size:
  assumes "bs_inv s" and "fits data"
  shows "unat (fst (ByteStream_write data s)) = bs_accepted data s"
  using assms by (auto simp: ByteStream_write_def Let_def bs_accepted_def word_le_nat_alt)

lemma write_eq:
  assumes "bs_inv s" and "fits data"
  shows "snd (ByteStream_write data s) =
     s\<lparr>bs_content := bs_content s @ take (bs_room s) data,
       bs_alwritten := bs_alwritten s + of_nat (bs_accepted data s)\<rparr>"
proof -
  let ?n = "fst (ByteStream_write data s)"
  have n: "?n = of_nat (bs_accepted data s)"
    using write_size [OF assms] by (metis of_nat_unat ucast_id)
  have "snd (ByteStream_write data s) =
     s\<lparr>bs_content := bs_content s @ take (unat ?n) data, bs_alwritten := bs_alwritten s + ?n\<rparr>"
    by (simp add: ByteStream_write_def Let_def)
  with n show ?thesis
    using write_size [OF assms] by (simp add: bs_accepted_def min_def)
qed

lemma peek_eq:
  "bs_inv s \<Longrightarrow> ByteStream_peek_output n s = take (unat n) (bs_content s)"
  by (auto simp: ByteStream_peek_output_def Let_def word_le_nat_alt)

lemma pop_eq:
  assumes "bs_inv s"
  shows "ByteStream_pop_output n s =
     s\<lparr>bs_content := drop (unat n) (bs_content s),
       bs_alread := bs_alread s + sz (take (unat n) (bs_content s))\<rparr>"
proof (cases "n \<le> ByteStream_buffer_size s")
  case True
  with assms have "unat n \<le> length (bs_content s)" by (simp add: word_le_nat_alt)
  with True assms show ?thesis
    by (simp add: ByteStream_pop_output_def sz_def min_def)
next
  case False
  with assms have "length (bs_content s) < unat n" by (simp add: word_le_nat_alt)
  with False assms show ?thesis
    by (simp add: ByteStream_pop_output_def ByteStream_buffer_size_def)
qed

lemma read_eq:
  assumes "bs_inv s"
  shows "ByteStream_read n s =
    (take (unat n) (bs_content s), ByteStream_pop_output n s)"
  using assms
  by (auto simp: ByteStream_read_def Let_def peek_eq word_le_nat_alt ByteStream_pop_output_def)

lemma write_fields [simp]:
  "bs_error (snd (ByteStream_write d s)) = bs_error s"
  "bs_end (snd (ByteStream_write d s)) = bs_end s"
  "bs_alread (snd (ByteStream_write d s)) = bs_alread s"
  "bs_max (snd (ByteStream_write d s)) = bs_max s"
  by (simp_all add: ByteStream_write_def Let_def)

lemma pop_fields [simp]:
  "bs_error (ByteStream_pop_output n s) = bs_error s"
  "bs_end (ByteStream_pop_output n s) = bs_end s"
  "bs_alwritten (ByteStream_pop_output n s) = bs_alwritten s"
  "bs_max (ByteStream_pop_output n s) = bs_max s"
  by (simp_all add: ByteStream_pop_output_def Let_def)

lemma end_input_fields [simp]:
  "bs_content (ByteStream_end_input s) = bs_content s"
  "bs_alread (ByteStream_end_input s) = bs_alread s"
  "bs_alwritten (ByteStream_end_input s) = bs_alwritten s"
  "bs_max (ByteStream_end_input s) = bs_max s"
  "bs_error (ByteStream_end_input s) = bs_error s"
  "bs_end (ByteStream_end_input s)"
  by (simp_all add: ByteStream_end_input_def)

lemma set_error_fields [simp]:
  "bs_content (ByteStream_set_error s) = bs_content s"
  "bs_alread (ByteStream_set_error s) = bs_alread s"
  "bs_alwritten (ByteStream_set_error s) = bs_alwritten s"
  "bs_max (ByteStream_set_error s) = bs_max s"
  "bs_end (ByteStream_set_error s) = bs_end s"
  "bs_error (ByteStream_set_error s)"
  by (simp_all add: ByteStream_set_error_def)

section \<open>Every operation keeps the invariant\<close>

lemma write_content:
  "bs_inv s \<Longrightarrow> fits d \<Longrightarrow>
    bs_content (snd (ByteStream_write d s)) = bs_content s @ take (bs_room s) d"
  by (simp add: write_eq)

lemma pop_content:
  "bs_inv s \<Longrightarrow> bs_content (ByteStream_pop_output n s) = drop (unat n) (bs_content s)"
  by (simp add: pop_eq)

lemma pop_alread:
  "bs_inv s \<Longrightarrow>
    bs_alread (ByteStream_pop_output n s) = bs_alread s + sz (take (unat n) (bs_content s))"
  by (simp add: pop_eq)

lemma bs_inv_write [simp]:
  assumes "bs_inv s" and "fits d"
  shows "bs_inv (snd (ByteStream_write d s))"
proof -
  have "sz (bs_content s @ take (bs_room s) d) = sz (bs_content s) + of_nat (bs_accepted d s)"
    by (simp add: sz_append bs_accepted_def sz_def min.commute)
  moreover have "length (bs_content s @ take (bs_room s) d) \<le> unat (bs_max s)"
    using bs_inv_length [OF assms(1)] by (auto simp: bs_room_def)
  ultimately show ?thesis
    using assms by (simp add: bs_inv_def write_eq add.assoc)
qed

lemma bs_inv_pop [simp]:
  assumes "bs_inv s"
  shows "bs_inv (ByteStream_pop_output n s)"
proof -
  let ?c = "bs_content s"
  have "sz ?c = sz (take (unat n) ?c) + sz (drop (unat n) ?c)"
    by (metis append_take_drop_id sz_append)
  moreover have "length (drop (unat n) ?c) \<le> unat (bs_max s)"
    using bs_inv_length [OF assms] by simp
  moreover have "bs_alwritten s = bs_alread s + sz ?c"
    using assms by (simp add: bs_inv_def)
  ultimately show ?thesis
    by (simp add: bs_inv_def pop_eq [OF assms] add.assoc)
qed

lemma bs_inv_end_input [simp]: "bs_inv (ByteStream_end_input s) = bs_inv s"
  by (simp add: bs_inv_def)

lemma bs_inv_set_error [simp]: "bs_inv (ByteStream_set_error s) = bs_inv s"
  by (simp add: bs_inv_def)

section \<open>The interface: a bounded first-in first-out buffer\<close>

text \<open>
  What the users of a stream rely on. \<open>cont\<close> is the abstract content, \<open>cap\<close> the bound
  on its length, \<open>put\<close> appends as much as fits, \<open>peek\<close> shows and \<open>pop\<close> removes a
  prefix. The clients' facts are proved once, from these laws.
\<close>

locale bounded_fifo =
  fixes inv :: "'s \<Rightarrow> bool"
    and cont :: "'s \<Rightarrow> 'b list"
    and cap :: "'s \<Rightarrow> nat"
    and put :: "'b list \<Rightarrow> 's \<Rightarrow> 's"
    and peek :: "size_t \<Rightarrow> 's \<Rightarrow> 'b list"
    and pop :: "size_t \<Rightarrow> 's \<Rightarrow> 's"
  assumes cont_bounded: "inv s \<Longrightarrow> length (cont s) \<le> cap s"
    and cont_put: "inv s \<Longrightarrow> fits d \<Longrightarrow> cont (put d s) = cont s @ take (cap s - length (cont s)) d"
    and cont_peek: "inv s \<Longrightarrow> peek n s = take (unat n) (cont s)"
    and cont_pop: "inv s \<Longrightarrow> cont (pop n s) = drop (unat n) (cont s)"
    and cap_put: "cap (put d s) = cap s"
    and cap_pop: "cap (pop n s) = cap s"
    and inv_put: "inv s \<Longrightarrow> fits d \<Longrightarrow> inv (put d s)"
    and inv_pop: "inv s \<Longrightarrow> inv (pop n s)"
begin

text \<open>
  Conservation of bytes: if everything accepted so far is what has been delivered followed
  by the content, the same holds after accepting more and after delivering more.
\<close>

lemma put_ledger:
  assumes "inv s" and "fits d" and "a = o' @ cont s"
  shows "a @ take (cap s - length (cont s)) d = o' @ cont (put d s)"
  using assms by (simp add: cont_put)

lemma pop_ledger:
  assumes "inv s" and "a = o' @ cont s"
  shows "a = (o' @ peek n s) @ cont (pop n s)"
  using assms by (simp add: cont_peek cont_pop)

lemma put_within_cap: "inv s \<Longrightarrow> fits d \<Longrightarrow> length (cont (put d s)) \<le> cap s"
  using cont_bounded [OF inv_put] by (simp add: cap_put)

lemma pop_put_roundtrip:
  assumes "inv s" and "cont s = []" and "fits d" and "length d \<le> cap s"
  shows "peek (sz d) (put d s) = d \<and> cont (pop (sz d) (put d s)) = []"
  using assms by (simp add: cont_peek cont_pop cont_put inv_put)

end

interpretation stream: bounded_fifo bs_inv bs_content "\<lambda>s. unat (bs_max s)"
  "\<lambda>d s. snd (ByteStream_write d s)" ByteStream_peek_output ByteStream_pop_output
  by unfold_locales
    (simp_all add: bs_inv_length write_content bs_room_def peek_eq pop_content)

section \<open>Histories of a stream\<close>

text \<open>
  Everything the owner of a stream can call, and the stream together with the bytes it has
  accepted and the bytes it has given out.
\<close>

datatype stream_op = Write bytes | Pop_Output size_t | Read size_t | End_Input | Set_Error

fun stream_op_fits :: "stream_op \<Rightarrow> bool" where
  "stream_op_fits (Write d) = fits d"
| "stream_op_fits _ = True"

fun stream_step :: "stream_op \<Rightarrow> ByteStream \<times> bytes \<times> bytes \<Rightarrow> ByteStream \<times> bytes \<times> bytes" where
  "stream_step (Write d) (s, acc, out) =
     (let (n, s') = ByteStream_write d s in (s', acc @ take (unat n) d, out))"
| "stream_step (Pop_Output n) (s, acc, out) =
     (ByteStream_pop_output n s, acc, out @ ByteStream_peek_output n s)"
| "stream_step (Read n) (s, acc, out) =
     (let (d, s') = ByteStream_read n s in (s', acc, out @ d))"
| "stream_step End_Input (s, acc, out) = (ByteStream_end_input s, acc, out)"
| "stream_step Set_Error (s, acc, out) = (ByteStream_set_error s, acc, out)"

definition stream_run :: "size_t \<Rightarrow> stream_op list \<Rightarrow> ByteStream \<times> bytes \<times> bytes" where
  "stream_run capacity ops = fold stream_step ops (ByteStream_new capacity, [], [])"

definition stream_hist_inv :: "size_t \<Rightarrow> ByteStream \<times> bytes \<times> bytes \<Rightarrow> bool" where
  "stream_hist_inv c st \<longleftrightarrow> (case st of (s, acc, out) \<Rightarrow>
     bs_inv s \<and> acc = out @ bs_content s \<and> bs_max s = c \<and>
     bs_alwritten s = sz acc \<and> bs_alread s = sz out)"

lemma write_ledger:
  assumes "bs_inv s" and "fits d"
  shows "take (unat (fst (ByteStream_write d s))) d = take (bs_room s) d"
  using write_size [OF assms] by (simp add: bs_accepted_def min_def)

lemma pop_hist_inv:
  assumes "stream_hist_inv c (s, acc, out)"
  shows "stream_hist_inv c (ByteStream_pop_output n s, acc, out @ ByteStream_peek_output n s)"
proof -
  have inv: "bs_inv s" and acc: "acc = out @ bs_content s"
    using assms by (simp_all add: stream_hist_inv_def)
  have "acc = (out @ ByteStream_peek_output n s) @ bs_content (ByteStream_pop_output n s)"
    by (rule stream.pop_ledger [OF inv acc])
  moreover have "bs_alread (ByteStream_pop_output n s) = sz (out @ ByteStream_peek_output n s)"
    using assms inv by (simp add: stream_hist_inv_def pop_alread peek_eq sz_append)
  ultimately show ?thesis
    using assms by (simp add: stream_hist_inv_def)
qed

lemma stream_step_inv:
  assumes "stream_hist_inv c (s, acc, out)" and "stream_op_fits op"
  shows "stream_hist_inv c (stream_step op (s, acc, out))"
proof (cases op)
  case (Write d)
  have inv: "bs_inv s" and fd: "fits d" and acc: "acc = out @ bs_content s"
    and w: "bs_alwritten s = sz acc"
    using assms Write by (simp_all add: stream_hist_inv_def)
  have "acc @ take (bs_room s) d = out @ bs_content (snd (ByteStream_write d s))"
    using stream.put_ledger [OF inv fd acc] by (simp add: bs_room_def)
  moreover have "bs_alwritten (snd (ByteStream_write d s)) = sz (acc @ take (bs_room s) d)"
    using w by (simp add: write_eq [OF inv fd] sz_append bs_accepted_def)
      (simp add: sz_def min.commute)
  ultimately show ?thesis
    using assms Write inv fd write_ledger [OF inv fd]
    by (simp add: stream_hist_inv_def split_beta)
next
  case (Pop_Output n)
  then show ?thesis using pop_hist_inv [OF assms(1)] by simp
next
  case (Read n)
  have "bs_inv s" using assms by (simp add: stream_hist_inv_def)
  with Read show ?thesis using pop_hist_inv [OF assms(1), of n] by (simp add: read_eq peek_eq)
qed (use assms in \<open>simp_all add: stream_hist_inv_def\<close>)

lemma stream_fold_inv:
  "stream_hist_inv c st \<Longrightarrow> list_all stream_op_fits ops \<Longrightarrow>
    stream_hist_inv c (fold stream_step ops st)"
proof (induction ops arbitrary: st)
  case Nil
  then show ?case by simp
next
  case (Cons op ops)
  obtain s acc out where st: "st = (s, acc, out)" by (cases st)
  have "stream_hist_inv c (stream_step op st)"
    using Cons.prems unfolding st by (intro stream_step_inv) simp_all
  then show ?case using Cons.IH Cons.prems(2) by simp
qed

text \<open>
  C5. In every history of a stream, started empty with a capacity, the bytes accepted from
  the writer are exactly the bytes given to the reader followed by the bytes still
  buffered: nothing is lost, duplicated or reordered. The buffer never holds more than the
  capacity, and the two counters are the lengths of what was accepted and given out.
\<close>

theorem stream_history:
  assumes "list_all stream_op_fits ops"
    and "stream_run capacity ops = (s, accepted, delivered)"
  shows "accepted = delivered @ bs_content s
    \<and> length (bs_content s) \<le> unat capacity
    \<and> ByteStream_bytes_written s = sz accepted
    \<and> ByteStream_bytes_read s = sz delivered"
proof -
  have "stream_hist_inv capacity (ByteStream_new capacity, [], [])"
    by (simp add: stream_hist_inv_def) (simp add: ByteStream_new_def)
  from stream_fold_inv [OF this assms(1)] have "stream_hist_inv capacity (s, accepted, delivered)"
    using assms(2) by (simp add: stream_run_def)
  then show ?thesis
    by (auto simp: stream_hist_inv_def ByteStream_accessors dest: bs_inv_length)
qed

theorem stream_history_witness:
  "\<exists>s acc out. stream_run 4 [Write [1, 2, 3], Read 2, Write [4, 5, 6, 7], Pop_Output 9] = (s, acc, out)
    \<and> acc = [1, 2, 3, 4, 5, 6] \<and> acc = out @ bs_content s"
proof -
  let ?ops = "[Write [1, 2, 3], Read 2, Write [4, 5, 6, 7], Pop_Output 9]"
  obtain s acc out where r: "stream_run 4 ?ops = (s, acc, out)" by (metis prod.collapse)
  have "list_all stream_op_fits ?ops" by (simp add: fits_def)
  from stream_history [OF this r] have "acc = out @ bs_content s" by blast
  moreover have "fst (snd (stream_run 4 ?ops)) = [1, 2, 3, 4, 5, 6]" by code_simp
  ultimately show ?thesis using r by simp
qed

end
