(* ===== verification/Net_Parser.thy ===== *)
theory Net_Parser
  imports Prelude
begin

text \<open>
  Reading and writing integers in network byte order, from
  \<^verbatim>\<open>src/libsponge/util/parser.hh\<close> and \<^verbatim>\<open>parser.cc\<close>. A \<open>NetParser\<close> is a buffer and a
  sticky error; the buffer is represented by its contents (the theory \<open>Buffers\<close> shows that
  discarding a prefix acts on the contents alone). The locale \<open>wire_int\<close> is the contract
  between \<open>NetParser\<close> and \<open>NetUnparser\<close>, one interpretation per width.
\<close>

unbundle bit_operations_syntax

section \<open>Definitions\<close>

datatype ParseResult =
    NoError
  | BadChecksum
  | PacketTooShort
  | WrongIPVersion
  | HeaderTooShort
  | TruncatedPacket
  | Unsupported

definition ParseResult_index :: "ParseResult \<Rightarrow> nat" where
  "ParseResult_index r = (case r of NoError \<Rightarrow> 0 | BadChecksum \<Rightarrow> 1 | PacketTooShort \<Rightarrow> 2
     | WrongIPVersion \<Rightarrow> 3 | HeaderTooShort \<Rightarrow> 4 | TruncatedPacket \<Rightarrow> 5 | Unsupported \<Rightarrow> 6)"

text \<open>
  The names are looked up in an array by the enumerator's value, with no bound check:
  \<open>None\<close> stands for a read past the end of the array.
\<close>

definition as_string :: "ParseResult \<Rightarrow> string option" where
  "as_string r =
     (let names = [''NoError'', ''BadChecksum'', ''PacketTooShort'', ''WrongIPVersion'',
                   ''HeaderTooShort'', ''TruncatedPacket'']
      in if ParseResult_index r < length names then Some (names ! ParseResult_index r) else None)"

record NetParser =
  np_buffer :: bytes
  np_error :: ParseResult

definition NetParser_new :: "bytes \<Rightarrow> NetParser" where
  "NetParser_new b = \<lparr>np_buffer = b, np_error = NoError\<rparr>"

definition NetParser_set_error :: "ParseResult \<Rightarrow> NetParser \<Rightarrow> NetParser" where
  "NetParser_set_error res p = p\<lparr>np_error := res\<rparr>"

definition NetParser_error :: "NetParser \<Rightarrow> bool" where
  "NetParser_error p \<longleftrightarrow> np_error p \<noteq> NoError"

definition NetParser_check_size :: "size_t \<Rightarrow> NetParser \<Rightarrow> NetParser" where
  "NetParser_check_size n p =
     (if n > sz (np_buffer p) then NetParser_set_error PacketTooShort p else p)"

text \<open>
  \<open>_parse_int<T>\<close>: the template parameter is the word type of the result and its size in
  bytes. The reads \<open>_buffer.at(i)\<close> and the final \<open>remove_prefix\<close> are within bounds by
  the size check just before them.
\<close>

definition NetParser_parse_int :: "nat \<Rightarrow> NetParser \<Rightarrow> 'a::len word \<times> NetParser" where
  "NetParser_parse_int len p =
     (let p = NetParser_check_size (of_nat len) p
      in if NetParser_error p then (0, p)
         else (fold (\<lambda>i ret. push_bit 8 ret + ucast (np_buffer p ! i)) [0..<len] 0,
               p\<lparr>np_buffer := drop len (np_buffer p)\<rparr>))"

definition NetParser_u32 :: "NetParser \<Rightarrow> u32 \<times> NetParser" where
  "NetParser_u32 p = NetParser_parse_int 4 p"

definition NetParser_u16 :: "NetParser \<Rightarrow> u16 \<times> NetParser" where
  "NetParser_u16 p = NetParser_parse_int 2 p"

definition NetParser_u8 :: "NetParser \<Rightarrow> u8 \<times> NetParser" where
  "NetParser_u8 p = NetParser_parse_int 1 p"

definition NetParser_remove_prefix :: "size_t \<Rightarrow> NetParser \<Rightarrow> NetParser" where
  "NetParser_remove_prefix n p =
     (let p = NetParser_check_size n p
      in if NetParser_error p then p
         else p\<lparr>np_buffer := drop (unat n) (np_buffer p)\<rparr>)"

definition NetUnparser_unparse_int :: "nat \<Rightarrow> bytes \<Rightarrow> 'a::len word \<Rightarrow> bytes" where
  "NetUnparser_unparse_int len s val =
     fold (\<lambda>i s. s @ [ucast (drop_bit ((len - i - 1) * 8) val AND 0xff)]) [0..<len] s"

definition NetUnparser_u32 :: "bytes \<Rightarrow> u32 \<Rightarrow> bytes" where
  "NetUnparser_u32 s val = NetUnparser_unparse_int 4 s val"

definition NetUnparser_u16 :: "bytes \<Rightarrow> u16 \<Rightarrow> bytes" where
  "NetUnparser_u16 s val = NetUnparser_unparse_int 2 s val"

definition NetUnparser_u8 :: "bytes \<Rightarrow> u8 \<Rightarrow> bytes" where
  "NetUnparser_u8 s val = NetUnparser_unparse_int 1 s val"

section \<open>Network byte order\<close>

text \<open>The big-endian value of a string, and the string of a value: the reference.\<close>

definition be_nat :: "bytes \<Rightarrow> nat" where
  "be_nat bs = fold (\<lambda>b n. n * 256 + unat b) bs 0"

fun be_bytes :: "nat \<Rightarrow> nat \<Rightarrow> bytes" where
  "be_bytes 0 n = []"
| "be_bytes (Suc k) n = of_nat (n div 256 ^ k) # be_bytes k n"

lemma length_be_bytes [simp]: "length (be_bytes k n) = k"
  by (induction k) auto

lemma be_nat_Nil [simp]: "be_nat [] = 0"
  by (simp add: be_nat_def)

lemma be_nat_snoc [simp]: "be_nat (bs @ [b]) = be_nat bs * 256 + unat b"
  by (simp add: be_nat_def)

lemma unat_u8_bound: "unat (b :: u8) < 256"
  using unsigned_less [of b, where 'a = nat] by simp

lemma be_nat_bound: "be_nat bs < 256 ^ length bs"
proof (induction bs rule: rev_induct)
  case (snoc b bs)
  have "be_nat bs * 256 + unat b < (be_nat bs + 1) * 256" using unat_u8_bound [of b] by simp
  also have "\<dots> \<le> 256 ^ length bs * 256" using snoc by (intro mult_right_mono) simp_all
  finally show ?case by simp
qed simp

lemma be_bytes_snoc: "be_bytes (Suc k) n = be_bytes k (n div 256) @ [of_nat n]"
proof (induction k)
  case (Suc k)
  have "n div 256 ^ Suc k = n div 256 div 256 ^ k" by (simp add: div_mult2_eq)
  with Suc show ?case by simp
qed simp

lemma be_nat_be_bytes: "be_nat (be_bytes k n) = n mod 256 ^ k"
proof (induction k arbitrary: n)
  case (Suc k)
  have "be_nat (be_bytes (Suc k) n) = (n div 256) mod 256 ^ k * 256 + n mod 256"
    unfolding be_bytes_snoc by (simp add: Suc unat_of_nat)
  also have "\<dots> = n mod (256 * 256 ^ k)" by (simp add: mod_mult2_eq mult.commute)
  finally show ?case by simp
qed (simp add: be_nat_def)

lemma be_bytes_be_nat: "length bs = k \<Longrightarrow> be_bytes k (be_nat bs) = bs"
proof (induction bs arbitrary: k rule: rev_induct)
  case (snoc b bs)
  have "(of_nat (be_nat bs * 256 + unat b) :: u8) = b"
    using unat_u8_bound [of b] by (intro word_eq_unatI) (simp only: unat_of_nat, simp)
  moreover have "(be_nat bs * 256 + unat b) div 256 = be_nat bs"
    using unat_u8_bound [of b] by simp
  moreover have "k = Suc (length bs)" using snoc(2) by simp
  ultimately show ?case using snoc(1) [OF refl] by (simp only: be_bytes_snoc be_nat_snoc)
qed simp

text \<open>The loop of \<open>_parse_int\<close> computes the big-endian value of the bytes it reads.\<close>

lemma parse_loop:
  "n \<le> length bs \<Longrightarrow>
    fold (\<lambda>i ret. push_bit 8 ret + ucast (bs ! i)) [0..<n] (0 :: 'a::len word)
      = of_nat (be_nat (take n bs))"
proof (induction n)
  case (Suc n)
  have "push_bit 8 (of_nat m :: 'a word) = of_nat (m * 256)" for m
    by (simp add: push_bit_eq_mult mult.commute)
  moreover have "(ucast (bs ! n) :: 'a word) = of_nat (unat (bs ! n))"
    by simp
  ultimately show ?case using Suc by (simp add: take_Suc_conv_app_nth)
qed simp

lemma unparse_byte:
  "ucast (drop_bit (m * 8) (v :: 'a::len word) AND 0xff) = (of_nat (unat v div 256 ^ m) :: u8)"
proof -
  have low: "(0xff :: 'a word) = mask 8" by (simp add: mask_eq_exp_minus_1)
  have "(256 :: nat) ^ m = 2 ^ (m * 8)" by (simp add: power_mult mult.commute [of m])
  then have "unat v div 256 ^ m = unat (drop_bit (m * 8) v)"
    by (simp only: unat_drop_bit_eq) (rule drop_bit_eq_div [symmetric])
  then have "(of_nat (unat v div 256 ^ m) :: u8) = of_nat (unat (drop_bit (m * 8) v))"
    by (rule arg_cong)
  also have "\<dots> = ucast (drop_bit (m * 8) v)" by simp
  also have "\<dots> = ucast (drop_bit (m * 8) v AND 0xff)"
    by (rule bit_word_eqI)
      (auto simp: low bit_and_iff bit_ucast_iff bit_drop_bit_eq bit_mask_iff dest: bit_imp_le_length)
  finally show ?thesis by simp
qed

lemma be_bytes_map: "be_bytes k n = map (\<lambda>i. of_nat (n div 256 ^ (k - i - 1))) [0..<k]"
proof (induction k)
  case (Suc k)
  have "[0..<Suc k] = 0 # map Suc [0..<k]" by (simp only: map_Suc_upt upt_conv_Cons [OF zero_less_Suc])
  with Suc show ?case by simp
qed simp

lemma unparse_int_eq: "NetUnparser_unparse_int len s v = s @ be_bytes len (unat v)"
proof -
  have "fold (\<lambda>i s. s @ [f i]) xs s = s @ map f xs" for f :: "nat \<Rightarrow> u8" and xs
    by (induction xs arbitrary: s) auto
  then show ?thesis by (simp add: NetUnparser_unparse_int_def unparse_byte be_bytes_map)
qed

section \<open>The contract between parser and unparser\<close>

text \<open>
  What a read or a skip of \<open>n\<close> bytes does to a parser that cannot serve it: the error is
  set when the buffer is too short, and nothing is consumed.
\<close>

definition short_error :: "nat \<Rightarrow> NetParser \<Rightarrow> NetParser" where
  "short_error n p = (if length (np_buffer p) < n then p\<lparr>np_error := PacketTooShort\<rparr> else p)"

text \<open>
  \<open>consumes n p p'\<close>: from \<open>p\<close> to \<open>p'\<close> the parser has either read \<open>n\<close> bytes
  without an error, or is in an error state: the one it was in or \<open>PacketTooShort\<close>.
\<close>

definition consumes :: "nat \<Rightarrow> NetParser \<Rightarrow> NetParser \<Rightarrow> bool" where
  "consumes n p p' \<longleftrightarrow> fits (np_buffer p')
     \<and> (np_error p' = NoError \<longrightarrow> np_error p = NoError \<and> length (np_buffer p) = n + length (np_buffer p'))
     \<and> (np_error p' = np_error p \<or> np_error p' = PacketTooShort)"

lemma consumes_trans:
  assumes "consumes m p p'" and "consumes n p' p''"
  shows "consumes (m + n) p p''"
  using assms unfolding consumes_def by auto

lemma consumesD_fits: "consumes n p p' \<Longrightarrow> fits (np_buffer p')"
  by (simp add: consumes_def)

locale wire_int =
  fixes get :: "NetParser \<Rightarrow> 'a::len word \<times> NetParser" and put :: "bytes \<Rightarrow> 'a word \<Rightarrow> bytes"
    and width :: nat
  assumes width: "LENGTH('a) = 8 * width"
    and get_ok: "fits (np_buffer p) \<Longrightarrow> np_error p = NoError \<Longrightarrow> width \<le> length (np_buffer p) \<Longrightarrow>
      get p = (of_nat (be_nat (take width (np_buffer p))), p\<lparr>np_buffer := drop width (np_buffer p)\<rparr>)"
    and get_err: "fits (np_buffer p) \<Longrightarrow> np_error p \<noteq> NoError \<or> length (np_buffer p) < width \<Longrightarrow>
      get p = (0, short_error width p)"
    and put_eq: "put s v = s @ be_bytes width (unat v)"
begin

lemma size_word: "(256 :: nat) ^ width = 2 ^ LENGTH('a)"
  by (simp add: width power_mult)

lemma get_put:
  assumes "fits (put [] v @ rest)"
  shows "get \<lparr>np_buffer = put [] v @ rest, np_error = NoError\<rparr> = (v, \<lparr>np_buffer = rest, np_error = NoError\<rparr>)"
  using assms by (simp add: get_ok put_eq be_nat_be_bytes size_word word_unat_eq_iff unat_of_nat)

lemma get_bytes:
  assumes "fits (be_bytes width (unat v) @ rest)"
  shows "get \<lparr>np_buffer = be_bytes width (unat v) @ rest, np_error = NoError\<rparr>
    = (v, \<lparr>np_buffer = rest, np_error = NoError\<rparr>)"
  using get_put [of v rest] assms by (simp add: put_eq)

lemma put_get:
  assumes "fits (np_buffer p)" and "get p = (v, p')" and "np_error p' = NoError"
  shows "np_buffer p = put [] v @ np_buffer p' \<and> np_error p = NoError"
proof -
  have ok: "np_error p = NoError \<and> width \<le> length (np_buffer p)"
  proof (rule ccontr)
    assume bad: "\<not> ?thesis"
    then have "p' = short_error width p" using assms get_err [of p] by auto
    with bad assms(3) show False by (auto simp: short_error_def split: if_splits)
  qed
  then have v: "v = of_nat (be_nat (take width (np_buffer p)))"
      and p': "np_buffer p' = drop width (np_buffer p)"
    using assms get_ok [of p] by auto
  have "be_nat (take width (np_buffer p)) < 2 ^ LENGTH('a)"
    using be_nat_bound [of "take width (np_buffer p)"] ok by (simp add: size_word)
  then have "unat v = be_nat (take width (np_buffer p))" by (simp add: v unat_of_nat)
  then have "put [] v = take width (np_buffer p)" using ok by (simp add: put_eq be_bytes_be_nat)
  with p' ok show ?thesis by simp
qed

lemma get_consumes:
  assumes "fits (np_buffer p)" and "get p = (v, p')"
  shows "consumes width p p'"
proof (cases "np_error p = NoError \<and> width \<le> length (np_buffer p)")
  case True
  with assms get_ok [of p] show ?thesis by (auto simp: consumes_def)
next
  case False
  then have "p' = short_error width p" using assms get_err [of p] by auto
  with False assms(1) show ?thesis by (auto simp: consumes_def short_error_def)
qed

lemma length_put: "length (put s v) = length s + width"
  by (simp add: put_eq)

end

lemma parse_int_ok:
  assumes "fits (np_buffer p)" and "np_error p = NoError" and "len \<le> length (np_buffer p)"
  shows "NetParser_parse_int len p
    = (of_nat (be_nat (take len (np_buffer p))), p\<lparr>np_buffer := drop len (np_buffer p)\<rparr>)"
proof -
  have "len < 2 ^ 64" using assms by (simp add: fits_def)
  with assms have "NetParser_check_size (of_nat len) p = p"
    by (simp add: NetParser_check_size_def word_less_nat_alt unat_of_nat)
  with assms show ?thesis by (simp add: NetParser_parse_int_def NetParser_error_def parse_loop)
qed

lemma parse_int_err:
  assumes "fits (np_buffer p)" and "np_error p \<noteq> NoError \<or> length (np_buffer p) < len" and "len < 2 ^ 64"
  shows "NetParser_parse_int len p = (0, short_error len p)"
  using assms
  by (auto simp: NetParser_parse_int_def NetParser_error_def NetParser_check_size_def
      NetParser_set_error_def short_error_def word_less_nat_alt unat_of_nat Let_def)

interpretation u8: wire_int NetParser_u8 NetUnparser_u8 1
  by unfold_locales (simp_all add: NetParser_u8_def NetUnparser_u8_def parse_int_ok parse_int_err unparse_int_eq)

interpretation u16: wire_int NetParser_u16 NetUnparser_u16 2
  by unfold_locales (simp_all add: NetParser_u16_def NetUnparser_u16_def parse_int_ok parse_int_err unparse_int_eq)

interpretation u32: wire_int NetParser_u32 NetUnparser_u32 4
  by unfold_locales (simp_all add: NetParser_u32_def NetUnparser_u32_def parse_int_ok parse_int_err unparse_int_eq)

lemmas unparse_eqs = u8.put_eq u16.put_eq u32.put_eq

lemma remove_prefix_ok:
  assumes "fits (np_buffer p)" and "np_error p = NoError" and "unat n \<le> length (np_buffer p)"
  shows "NetParser_remove_prefix n p = p\<lparr>np_buffer := drop (unat n) (np_buffer p)\<rparr>"
  using assms
  by (simp add: NetParser_remove_prefix_def NetParser_check_size_def NetParser_error_def word_less_nat_alt)

lemma remove_prefix_err:
  assumes "fits (np_buffer p)" and "np_error p \<noteq> NoError \<or> length (np_buffer p) < unat n"
  shows "NetParser_remove_prefix n p = short_error (unat n) p"
  using assms
  by (auto simp: NetParser_remove_prefix_def NetParser_check_size_def NetParser_error_def
      NetParser_set_error_def short_error_def word_less_nat_alt Let_def)

lemma remove_prefix_error_iff:
  assumes "fits (np_buffer p)" and "np_error p = NoError"
  shows "np_error (NetParser_remove_prefix n p) = NoError \<longleftrightarrow> unat n \<le> length (np_buffer p)"
  using remove_prefix_ok [OF assms, of n] remove_prefix_err [OF assms(1), of n] assms(2)
  by (cases "unat n \<le> length (np_buffer p)") (simp_all add: short_error_def)

section \<open>Byte arrays and fixed-size headers\<close>

text \<open>
  \<open>for (auto &byte : a) { byte = p.u8(); }\<close> over an array \<open>a\<close>, and
  \<open>for (auto &byte : a) { NetUnparser::u8(ret, byte); }\<close>.
\<close>

fun read_bytes :: "bytes \<Rightarrow> NetParser \<Rightarrow> bytes \<times> NetParser" where
  "read_bytes [] p = ([], p)"
| "read_bytes (byte # bs) p =
     (let (byte, p) = NetParser_u8 p; (bs, p) = read_bytes bs p in (byte # bs, p))"

definition write_bytes :: "bytes \<Rightarrow> bytes \<Rightarrow> bytes" where
  "write_bytes ret a = fold (\<lambda>byte ret. NetUnparser_u8 ret byte) a ret"

text \<open>\<open>std::string::resize(n)\<close>: cut to \<open>n\<close> characters or pad with NUL characters.\<close>

definition resize :: "bytes \<Rightarrow> nat \<Rightarrow> bytes" where
  "resize s n = take n s @ replicate (n - length s) 0"

lemma length_resize [simp]: "length (resize s n) = n"
  by (simp add: resize_def)

lemma resize_longer: "length s \<le> n \<Longrightarrow> resize s n = s @ replicate (n - length s) 0"
  by (simp add: resize_def)

lemma be_bytes_u8 [simp]: "be_bytes (Suc 0) (unat (b :: u8)) = [b]"
  by simp

lemma write_bytes_eq: "write_bytes ret a = ret @ a"
  unfolding write_bytes_def by (induction a arbitrary: ret) (simp_all add: u8.put_eq)

lemma read_u8:
  "fits (b # rest) \<Longrightarrow>
    NetParser_u8 \<lparr>np_buffer = b # rest, np_error = NoError\<rparr> = (b, \<lparr>np_buffer = rest, np_error = NoError\<rparr>)"
  using u8.get_bytes [of b rest] by simp

lemma read_bytes_eq:
  "length a = length old \<Longrightarrow> fits (a @ rest) \<Longrightarrow>
    read_bytes old \<lparr>np_buffer = a @ rest, np_error = NoError\<rparr> = (a, \<lparr>np_buffer = rest, np_error = NoError\<rparr>)"
proof (induction a old rule: list_induct2)
  case (Cons b bs x xs)
  have "fits (bs @ rest)" using Cons(3) by (simp add: fits_def)
  with Cons show ?case by (simp add: read_u8)
qed simp

text \<open>Reading a field at a given position of a string.\<close>

lemma be_split:
  assumes "n \<le> length s" and "256 ^ n = (2 :: nat) ^ LENGTH('a)"
  shows "\<exists>v :: 'a::len word. s = be_bytes n (unat v) @ drop n s"
proof -
  have len: "length (take n s) = n" using assms by simp
  have "be_nat (take n s) < 2 ^ LENGTH('a)" using be_nat_bound [of "take n s"] assms len by simp
  then have "unat (of_nat (be_nat (take n s)) :: 'a word) = be_nat (take n s)" by (simp add: unat_of_nat)
  then have "s = be_bytes n (unat (of_nat (be_nat (take n s)) :: 'a word)) @ drop n s"
    using be_bytes_be_nat [OF len] by simp
  then show ?thesis by blast
qed

lemma u8_at: "k < length s \<Longrightarrow> \<exists>b. drop k s = b # drop (k + 1) s"
  by (metis Cons_nth_drop_Suc Suc_eq_plus1)

lemma field_at:
  assumes "k + n \<le> length s" and "256 ^ n = (2 :: nat) ^ LENGTH('a)"
  shows "\<exists>v :: 'a::len word. drop k s = be_bytes n (unat v) @ drop (k + n) s"
proof -
  have "n \<le> length (drop k s)" using assms(1) by simp
  from be_split [OF this assms(2)] obtain v :: "'a word"
    where v: "drop k s = be_bytes n (unat v) @ drop n (drop k s)" ..
  have "drop n (drop k s) = drop (k + n) s" by (simp only: drop_drop add.commute)
  with v have "drop k s = be_bytes n (unat v) @ drop (k + n) s" by (simp only:)
  then show ?thesis ..
qed

lemma u16_at: "k + 2 \<le> length s \<Longrightarrow> \<exists>v :: u16. drop k s = be_bytes 2 (unat v) @ drop (k + 2) s"
  by (rule field_at) simp_all

lemma u32_at: "k + 4 \<le> length s \<Longrightarrow> \<exists>v :: u32. drop k s = be_bytes 4 (unat v) @ drop (k + 4) s"
  by (rule field_at) simp_all

text \<open>
  The contract of a header's \<open>serialize\<close> and \<open>parse\<close>. \<open>wf\<close> is what the header's type
  guarantees; \<open>valid h rest\<close> says that \<open>h\<close> is a correct header in front of \<open>rest\<close>.
  \<open>parse\<close> runs on an existing header object and overwrites its fields.
\<close>

locale wire_header =
  fixes wf :: "'h \<Rightarrow> bool" and valid :: "'h \<Rightarrow> bytes \<Rightarrow> bool"
    and serialize :: "'h \<Rightarrow> bytes result"
    and parse :: "'h \<Rightarrow> NetParser \<Rightarrow> ParseResult \<times> 'h \<times> NetParser"
  assumes serialize_ok: "valid h rest \<Longrightarrow> \<exists>s. serialize h = Inr s"
    and parse_serialize: "wf h0 \<Longrightarrow> valid h rest \<Longrightarrow> serialize h = Inr s \<Longrightarrow> fits (s @ rest) \<Longrightarrow>
      parse h0 (NetParser_new (s @ rest)) = (NoError, h, NetParser_new rest)"
begin

text \<open>Serialized headers are prefix-free: a string starts with at most one of them.\<close>

lemma prefix_free:
  assumes "wf h" and "valid h r" and "valid h' r'" and "serialize h = Inr s" and "serialize h' = Inr s'"
    and "fits (s @ r)" and "s @ r = s' @ r'"
  shows "h = h' \<and> r = r'"
proof -
  have "parse h (NetParser_new (s @ r)) = (NoError, h, NetParser_new r)"
    using parse_serialize assms by blast
  moreover have "parse h (NetParser_new (s' @ r')) = (NoError, h', NetParser_new r')"
    using parse_serialize [of h h' r' s'] assms by simp
  ultimately show ?thesis using assms(7) by (simp add: NetParser_new_def)
qed

lemma serialize_inj:
  assumes "wf h" and "valid h r" and "valid h' r" and "serialize h = Inr s" and "serialize h' = Inr s"
    and "fits (s @ r)"
  shows "h = h'"
  using prefix_free [OF assms(1-5) assms(6)] by simp

end

section \<open>The names of the results\<close>

text \<open>
  The table of names has no entry for \<open>Unsupported\<close>; every other result has its own.
\<close>

theorem as_string_unsupported: "as_string r = None \<longleftrightarrow> r = Unsupported"
  by (cases r) (simp_all add: as_string_def ParseResult_index_def)

end
