(* ===== verification/Internet_Checksum.thy ===== *)
theory Internet_Checksum
  imports Net_Parser
begin

text \<open>
  The Internet checksum of \<^verbatim>\<open>src/libsponge/util/util.cc\<close>: the class
  \<open>InternetChecksum\<close> with its running 32-bit sum and byte parity, the folding loop of
  \<open>value()\<close>, and the theorem that makes it a checksum: storing the value at an even
  offset that held zero makes the value of the whole string zero.
\<close>

section \<open>Definitions\<close>

record InternetChecksum =
  ic_sum :: u32
  ic_parity :: bool

definition InternetChecksum_new :: "u32 \<Rightarrow> InternetChecksum" where
  "InternetChecksum_new initial_sum = \<lparr>ic_sum = initial_sum, ic_parity = False\<rparr>"

definition InternetChecksum_add_byte :: "u8 \<Rightarrow> InternetChecksum \<Rightarrow> InternetChecksum" where
  "InternetChecksum_add_byte b c =
     (let val = (ucast b :: u16);
          val = (if \<not> ic_parity c then push_bit 8 val else val)
      in c\<lparr>ic_sum := ic_sum c + ucast val, ic_parity := \<not> ic_parity c\<rparr>)"

definition InternetChecksum_add :: "bytes \<Rightarrow> InternetChecksum \<Rightarrow> InternetChecksum" where
  "InternetChecksum_add data c = fold InternetChecksum_add_byte data c"

text \<open>The loop of \<open>value()\<close>, on the 32-bit local \<open>ret\<close>.\<close>

function fold_carries :: "u32 \<Rightarrow> u32" where
  "fold_carries ret =
     (if ret > 0xffff then fold_carries (drop_bit 16 ret + (ret AND 0xffff)) else ret)"
  by pat_completeness auto

lemma unat_fold_step: "unat (drop_bit 16 ret + (ret AND 0xffff) :: u32) = unat ret div 65536 + unat ret mod 65536"
proof -
  have "unat (ret AND 0xffff) = unat ret mod 65536"
    using take_bit_eq_mask [of 16 ret] unsigned_take_bit_eq [of 16 ret, where 'a = nat]
    by (simp add: take_bit_eq_mod mask_eq_exp_minus_1)
  moreover have "unat (drop_bit 16 ret) = unat ret div 65536"
    by (simp only: unat_drop_bit_eq drop_bit_eq_div [where 'a = nat]) simp
  moreover have "unat ret < 4294967296" using unsigned_less [of ret, where 'a = nat] by simp
  then have "unat ret div 65536 < 65536" by (simp add: less_mult_imp_div_less)
  ultimately show ?thesis by (subst unat_word_ariths) simp
qed

termination fold_carries
proof (relation "measure unat")
  fix ret :: u32 assume "ret > 0xffff"
  then have "65535 < unat ret" by (simp add: word_less_nat_alt)
  then have "0 < unat ret div 65536" by (simp add: div_greater_zero_iff)
  moreover have "unat ret = unat ret div 65536 * 65536 + unat ret mod 65536" by simp
  ultimately show "(drop_bit 16 ret + (ret AND 0xffff), ret) \<in> measure unat"
    unfolding in_measure unat_fold_step by linarith
qed simp

declare fold_carries.simps [simp del]

definition InternetChecksum_value :: "InternetChecksum \<Rightarrow> u16" where
  "InternetChecksum_value c = ucast (NOT (fold_carries (ic_sum c)))"

section \<open>The sum\<close>

text \<open>The sum of a string, read as 16-bit words from a given parity: the reference.\<close>

fun word_sum :: "bool \<Rightarrow> bytes \<Rightarrow> nat" where
  "word_sum par [] = 0"
| "word_sum par (b # bs) = (if par then unat b else 256 * unat b) + word_sum (\<not> par) bs"

fun parity_after :: "bool \<Rightarrow> bytes \<Rightarrow> bool" where
  "parity_after par [] = par"
| "parity_after par (b # bs) = parity_after (\<not> par) bs"

lemma parity_after_eq: "parity_after par bs = (par \<noteq> (length bs mod 2 = 1))"
  by (induction par bs rule: parity_after.induct) (auto simp: mod_Suc)

lemma word_sum_append: "word_sum par (xs @ ys) = word_sum par xs + word_sum (parity_after par xs) ys"
  by (induction par xs rule: word_sum.induct) auto

lemma word_sum_bound: "word_sum par bs \<le> 65280 * length bs"
proof (induction par bs rule: word_sum.induct)
  case (2 par b bs)
  have "(if par then unat b else 256 * unat b) \<le> 65280" using unat_u8_bound [of b] by auto
  with 2 show ?case by simp
qed simp

lemma add_byte_fields:
  assumes "unat (ic_sum c) + (if ic_parity c then unat b else 256 * unat b) < 2 ^ 32"
  shows "unat (ic_sum (InternetChecksum_add_byte b c))
      = unat (ic_sum c) + (if ic_parity c then unat b else 256 * unat b)
    \<and> ic_parity (InternetChecksum_add_byte b c) = (\<not> ic_parity c)"
proof -
  have "unat (push_bit 8 (ucast b :: u16)) = 256 * unat b"
    using unat_u8_bound [of b] by (simp add: push_bit_eq_mult unat_word_ariths unat_ucast_up)
  moreover have "unat (ucast b :: u16) = unat b" by (simp add: unat_ucast_up)
  moreover have "unat (ucast x :: u32) = unat x" for x :: u16 by (simp add: unat_ucast_up)
  ultimately show ?thesis
    using assms by (auto simp: InternetChecksum_add_byte_def Let_def unat_word_ariths)
qed

lemma add_fields:
  assumes "unat (ic_sum c) + word_sum (ic_parity c) data < 2 ^ 32"
  shows "unat (ic_sum (InternetChecksum_add data c)) = unat (ic_sum c) + word_sum (ic_parity c) data
    \<and> ic_parity (InternetChecksum_add data c) = parity_after (ic_parity c) data"
  using assms
proof (induction data arbitrary: c)
  case (Cons b data)
  note step = add_byte_fields [of c b]
  have "InternetChecksum_add (b # data) c = InternetChecksum_add data (InternetChecksum_add_byte b c)"
    by (simp add: InternetChecksum_add_def)
  with Cons step show ?case by simp
qed (simp add: InternetChecksum_add_def)

lemma add_append:
  "InternetChecksum_add ys (InternetChecksum_add xs c) = InternetChecksum_add (xs @ ys) c"
  by (simp add: InternetChecksum_add_def)

section \<open>The value\<close>

text \<open>Folding keeps the sum modulo 65535, and keeps it positive; the result has 16 bits.\<close>

lemma fold_carries_spec:
  "unat (fold_carries r) < 65536 \<and> unat (fold_carries r) mod 65535 = unat r mod 65535
    \<and> (unat (fold_carries r) = 0 \<longleftrightarrow> unat r = 0)"
proof (induction r rule: fold_carries.induct)
  case (1 ret)
  let ?next = "drop_bit 16 ret + (ret AND 0xffff) :: u32"
  have split: "unat ret = unat ret div 65536 * 65536 + unat ret mod 65536" by simp
  show ?case
  proof (cases "ret > 0xffff")
    case True
    then have pos: "65535 < unat ret" by (simp add: word_less_nat_alt)
    have "unat ret = unat ?next + unat ret div 65536 * 65535"
      unfolding unat_fold_step using split by linarith
    then have "unat ?next mod 65535 = unat ret mod 65535" by (metis mod_mult_self1)
    moreover have "unat ?next \<noteq> 0" unfolding unat_fold_step using pos split by auto
    ultimately show ?thesis using 1 [OF True] True pos fold_carries.simps [of ret] by auto
  next
    case False
    then have "fold_carries ret = ret" "unat ret < 65536"
      using fold_carries.simps [of ret] by (simp_all add: word_less_nat_alt)
    then show ?thesis by simp
  qed
qed

lemma unat_value:
  "unat (InternetChecksum_value c) = 65535 - unat (fold_carries (ic_sum c))"
proof -
  let ?f = "fold_carries (ic_sum c)"
  have "unat ?f < 65536" using fold_carries_spec by blast
  then obtain g where g: "unat ?f + g = 65535" using le_Suc_ex [of "unat ?f" 65535] by auto
  have "unat (- 1 :: u32) = 4294967295"
    by (simp add: unsigned_minus_1_eq_mask mask_eq_exp_minus_1)
  then have "unat (- 1 - ?f) = 4294967295 - unat ?f" using g by (subst unat_sub_nowrap) simp_all
  also have "\<dots> = g + 65535 * 65536" using g by linarith
  finally have "unat (NOT ?f) = g + 65535 * 65536" by (simp only: not_eq_complement diff_conv_add_uminus) (simp add: add.commute)
  then have "unat (InternetChecksum_value c) = (g + 65535 * 65536) mod 65536"
    by (simp only: InternetChecksum_value_def unsigned_ucast_eq take_bit_eq_mod) simp
  also have "\<dots> = g" using g by (simp only: mod_mult_self1) simp
  finally show ?thesis using g by linarith
qed

lemma value_zero_iff:
  "InternetChecksum_value c = 0 \<longleftrightarrow> 0 < unat (ic_sum c) \<and> unat (ic_sum c) mod 65535 = 0"
proof -
  let ?f = "unat (fold_carries (ic_sum c))"
  have f: "?f < 65536" "?f mod 65535 = unat (ic_sum c) mod 65535" "?f = 0 \<longleftrightarrow> unat (ic_sum c) = 0"
    using fold_carries_spec by blast+
  have "InternetChecksum_value c = 0 \<longleftrightarrow> ?f = 65535"
    using f(1) by (simp add: unat_value word_unat_eq_iff) linarith
  also have "\<dots> \<longleftrightarrow> ?f \<noteq> 0 \<and> ?f mod 65535 = 0"
  proof
    assume "?f \<noteq> 0 \<and> ?f mod 65535 = 0"
    then show "?f = 65535" using f(1) by (cases "?f < 65535") auto
  qed simp
  finally show ?thesis using f by simp
qed

section \<open>Storing the checksum\<close>

lemma word_sum_u16: "word_sum False (NetUnparser_u16 [] v) = unat v"
proof -
  have v: "unat v < 65536" using unsigned_less [of v, where 'a = nat] by simp
  then have "unat v div 256 < 256" by (simp add: less_mult_imp_div_less)
  then show ?thesis by (simp add: u16.put_eq numeral_2_eq_2 unat_of_nat unsigned_ucast_eq take_bit_eq_mod)
qed

lemma mod_add_cancel:
  fixes a x y n :: nat
  assumes "(a + x) mod n = (a + y) mod n"
  shows "x mod n = y mod n"
proof -
  obtain q1 q2 where "(a + x) + n * q1 = (a + y) + n * q2" using assms by (auto simp: nat_mod_eq_iff)
  then have "x + n * q1 = y + n * q2" by simp
  then show ?thesis by (metis mod_mult_self2)
qed

lemma word_sum_field:
  assumes "even (length pre)"
  shows "word_sum False (pre @ NetUnparser_u16 [] v @ post)
    = word_sum False pre + unat v + word_sum False post"
proof -
  have "parity_after False pre = False" "parity_after False (NetUnparser_u16 [] v) = False"
    using assms by (auto simp: parity_after_eq u16.length_put)
  then show ?thesis by (simp add: word_sum_append word_sum_u16)
qed

text \<open>
  The value of a string whose sum does not reach 2 ^ 32: no carry is lost, and the value is
  zero exactly when the sum is a positive multiple of 65535.
\<close>

lemma value_add_zero_iff:
  assumes "unat init + word_sum False bs < 2 ^ 32"
  shows "InternetChecksum_value (InternetChecksum_add bs (InternetChecksum_new init)) = 0
    \<longleftrightarrow> 0 < unat init + word_sum False bs \<and> (unat init + word_sum False bs) mod 65535 = 0"
  using add_fields [of "InternetChecksum_new init" bs] assms
  by (simp add: value_zero_iff InternetChecksum_new_def)

lemma stored_checksum_ok:
  assumes even: "even (length pre)"
    and bound: "unat init + 65280 * (length pre + length post) + 65535 < 2 ^ 32"
    and c: "c = InternetChecksum_value (InternetChecksum_add (pre @ NetUnparser_u16 [] 0 @ post)
      (InternetChecksum_new init))"
  shows "InternetChecksum_value (InternetChecksum_add (pre @ NetUnparser_u16 [] c @ post)
      (InternetChecksum_new init)) = 0"
proof -
  let ?S = "unat init + word_sum False pre + word_sum False post"
  let ?c0 = "InternetChecksum_add (pre @ NetUnparser_u16 [] 0 @ post) (InternetChecksum_new init)"
  let ?f = "unat (fold_carries (ic_sum ?c0))"
  have S: "?S + 65535 < 2 ^ 32"
    using bound word_sum_bound [of False pre] word_sum_bound [of False post]
    by (simp add: distrib_left)
  have "unat (ic_sum ?c0) = ?S"
    using add_fields [of "InternetChecksum_new init"] S word_sum_field [OF even, of 0 post]
    by (simp add: InternetChecksum_new_def)
  then have f: "?f < 65536" "?f mod 65535 = ?S mod 65535" "?f = 0 \<longleftrightarrow> ?S = 0"
    using fold_carries_spec [of "ic_sum ?c0"] by simp_all
  have cf: "unat c = 65535 - ?f" by (simp add: c unat_value)
  have "(?S + unat c) mod 65535 = (?f + unat c) mod 65535" using f(2) by (metis mod_add_left_eq)
  also have "?f + unat c = 65535" using cf f(1) by simp
  finally have "(?S + unat c) mod 65535 = 0" by simp
  moreover have "0 < ?S + unat c" using cf f by (cases "?S = 0") auto
  moreover have "unat c \<le> 65535" using cf by simp
  ultimately show ?thesis
    using value_add_zero_iff [of init "pre @ NetUnparser_u16 [] c @ post"] S word_sum_field [OF even]
    by (simp add: algebra_simps)
qed

section \<open>Properties\<close>

text \<open>
  C7. Computing the checksum over a string whose checksum field, at an even offset, is zero
  and storing the result in that field gives a string whose checksum is zero, as the comment
  of the class promises, for every initial sum and every string short enough that the 32-bit
  sum does not wrap around.
\<close>

theorem stored_checksum_verifies:
  assumes "even (length pre)"
    and "unat init + 65280 * (length pre + length post) + 65535 < 2 ^ 32"
  shows "let c = InternetChecksum_value (InternetChecksum_add (pre @ NetUnparser_u16 [] 0 @ post)
                   (InternetChecksum_new init))
    in InternetChecksum_value (InternetChecksum_add (pre @ NetUnparser_u16 [] c @ post)
         (InternetChecksum_new init)) = 0"
  using stored_checksum_ok [OF assms refl] by (simp only: Let_def)

theorem stored_checksum_verifies_witness:
  "InternetChecksum_value (InternetChecksum_add ([0x45, 0] @ NetUnparser_u16 [] 0xbaff @ [0])
      (InternetChecksum_new 0)) = 0"
proof -
  have "InternetChecksum_value (InternetChecksum_add ([0x45, 0] @ NetUnparser_u16 [] 0 @ [0])
      (InternetChecksum_new 0)) = 0xbaff"
    by code_simp
  with stored_checksum_verifies [of "[0x45, 0]" 0 "[0]"] show ?thesis by (simp add: Let_def)
qed

text \<open>
  C8. The checksum detects every change of one aligned 16-bit field: if a string verifies and
  the field is replaced by a value that is not congruent modulo 65535, the new string does
  not verify.
\<close>

theorem checksum_detects_change:
  assumes "even (length pre)"
    and "unat init + 65280 * (length pre + length post) + 65535 < 2 ^ 32"
    and "InternetChecksum_value (InternetChecksum_add (pre @ NetUnparser_u16 [] v @ post)
           (InternetChecksum_new init)) = 0"
    and "unat v mod 65535 \<noteq> unat w mod 65535"
  shows "InternetChecksum_value (InternetChecksum_add (pre @ NetUnparser_u16 [] w @ post)
           (InternetChecksum_new init)) \<noteq> 0"
proof
  let ?S = "unat init + word_sum False pre + word_sum False post"
  assume w0: "InternetChecksum_value (InternetChecksum_add (pre @ NetUnparser_u16 [] w @ post)
           (InternetChecksum_new init)) = 0"
  have S: "?S + 65535 < 2 ^ 32"
    using assms(2) word_sum_bound [of False pre] word_sum_bound [of False post]
    by (simp add: distrib_left)
  have *: "unat x \<le> 65535" for x :: u16 using unsigned_less [of x, where 'a = nat] by simp
  have zero: "(?S + unat x) mod 65535 = 0"
    if "InternetChecksum_value (InternetChecksum_add (pre @ NetUnparser_u16 [] x @ post)
           (InternetChecksum_new init)) = 0" for x
    using value_add_zero_iff [of init "pre @ NetUnparser_u16 [] x @ post"] that S * [of x]
      word_sum_field [OF assms(1)] by (simp add: algebra_simps)
  have "(?S + unat v) mod 65535 = (?S + unat w) mod 65535"
    using zero [OF assms(3)] zero [OF w0] by simp
  then have "unat v mod 65535 = unat w mod 65535" by (rule mod_add_cancel)
  with assms(4) show False by simp
qed

theorem checksum_detects_change_witness:
  "InternetChecksum_value (InternetChecksum_add ([0x45, 0] @ NetUnparser_u16 [] 0xbafe @ [0])
      (InternetChecksum_new 0)) \<noteq> 0"
proof -
  have "InternetChecksum_value (InternetChecksum_add ([0x45, 0] @ NetUnparser_u16 [] 0xbaff @ [0])
      (InternetChecksum_new 0)) = 0"
    by code_simp
  from checksum_detects_change [OF _ _ this, of "0xbafe"] show ?thesis by simp
qed

end
