(* ===== verification/Wrapping_Integers.thy ===== *)
theory Wrapping_Integers
  imports Prelude
begin

text \<open>
  The 32-bit sequence numbers of \<^verbatim>\<open>src/libsponge/wrapping_integers.hh\<close> and
  \<^verbatim>\<open>wrapping_integers.cc\<close>: the conversion of a 64-bit absolute sequence number to a
  sequence number relative to an initial one, and back with the help of a checkpoint. The
  laws the receiver and the sender rely on are the locale \<open>seqno_codec\<close>, interpreted on
  \<open>wrap\<close> and \<open>unwrap\<close>.
\<close>

section \<open>Definitions\<close>

datatype WrappingInt32 = WrappingInt32 (raw_value: u32)

definition wrap :: "u64 \<Rightarrow> WrappingInt32 \<Rightarrow> WrappingInt32" where
  "wrap n isn =
     (let temp = n + ucast (raw_value isn);
          temp' = temp mod 4294967296
      in WrappingInt32 (ucast temp'))"

definition unwrap :: "WrappingInt32 \<Rightarrow> WrappingInt32 \<Rightarrow> u64 \<Rightarrow> u64" where
  "unwrap n isn checkpoint =
     (let sqenocheck = wrap checkpoint isn;
          difference1 = (ucast (raw_value n - raw_value sqenocheck) :: u64);
          difference2 = (ucast (raw_value sqenocheck - raw_value n) :: u64)
      in if difference1 > difference2 then
           (if checkpoint \<ge> difference2 then checkpoint - difference2
            else checkpoint + difference1)
         else checkpoint + difference1)"

definition WrappingInt32_minus :: "WrappingInt32 \<Rightarrow> WrappingInt32 \<Rightarrow> int" where
  "WrappingInt32_minus a b = sint (raw_value a - raw_value b)"

definition WrappingInt32_plus :: "WrappingInt32 \<Rightarrow> u32 \<Rightarrow> WrappingInt32" where
  "WrappingInt32_plus a b = WrappingInt32 (raw_value a + b)"

definition WrappingInt32_back :: "WrappingInt32 \<Rightarrow> u32 \<Rightarrow> WrappingInt32" where
  "WrappingInt32_back a b = WrappingInt32_plus a (- b)"

section \<open>Sequence numbers modulo \<open>2 ^ 32\<close>\<close>

lemma unat_ucast_32: "unat (ucast (x :: u64) :: u32) = unat x mod 2 ^ 32"
  by (simp add: unsigned_ucast_eq take_bit_eq_mod)

lemma unat_ucast_64: "unat (ucast (x :: u32) :: u64) = unat x"
  by (simp add: unsigned_ucast_eq take_bit_nat_eq_self less_le_trans [OF unsigned_less])

lemma unat_wrap: "unat (raw_value (wrap n isn)) = (unat n + unat (raw_value isn)) mod 2 ^ 32"
proof -
  let ?t = "unat n + unat (raw_value isn)"
  have "unat (raw_value (wrap n isn)) = ?t mod 2 ^ 64 mod 2 ^ 32 mod 2 ^ 32"
    by (simp add: wrap_def Let_def unat_ucast_32 unat_mod unat_word_ariths unat_ucast_64)
  also have "\<dots> = ?t mod 2 ^ 32"
    by (simp add: mod_mod_cancel)
  finally show ?thesis .
qed

text \<open>
  The distance from one number up to another, on the circle of \<open>2 ^ 32\<close> numbers.
\<close>

lemma unat_distance:
  fixes n c :: u32 and x y k :: nat
  assumes "unat n = (x + k) mod 2 ^ 32" and "unat c = (y + k) mod 2 ^ 32"
    and "y \<le> x" and "x - y < 2 ^ 32"
  shows "unat (n - c) = x - y"
proof -
  have "int (unat (n - c)) = (int (unat n) - int (unat c)) mod 2 ^ 32"
    by (simp add: uint_word_ariths flip: uint_nat)
  also have "\<dots> = (int (x + k) mod 2 ^ 32 - int (y + k) mod 2 ^ 32) mod 2 ^ 32"
    using assms(1,2) by (simp add: zmod_int)
  also have "\<dots> = (int (x + k) - int (y + k)) mod 2 ^ 32"
    by (rule mod_diff_eq)
  also have "\<dots> = int (x - y)"
    using assms(3,4) by (simp add: of_nat_diff)
  finally show ?thesis by (simp only: of_nat_eq_iff)
qed

lemma unat_distance_swap:
  fixes n c :: u32
  shows "unat (c - n) = (if n = c then 0 else 2 ^ 32 - unat (n - c))"
  using unsigned_less [of n, where 'a = nat] unsigned_less [of c, where 'a = nat]
  by (auto simp: unat_sub_if_size word_size word_unat_eq_iff)

text \<open>How far \<open>n\<close> lies above the checkpoint on the circle.\<close>

definition seq_ahead :: "WrappingInt32 \<Rightarrow> WrappingInt32 \<Rightarrow> u64 \<Rightarrow> nat" where
  "seq_ahead n isn checkpoint = unat (raw_value n - raw_value (wrap checkpoint isn))"

lemma seq_ahead_bound: "seq_ahead n isn cp < 2 ^ 32"
  unfolding seq_ahead_def using unsigned_less [of "raw_value n - raw_value (wrap cp isn)", where 'a = nat]
  by simp

lemma unwrap_nat:
  "unat (unwrap n isn cp) =
    (if 2 ^ 31 < seq_ahead n isn cp \<and> 2 ^ 32 - seq_ahead n isn cp \<le> unat cp
     then unat cp + seq_ahead n isn cp - 2 ^ 32
     else (unat cp + seq_ahead n isn cp) mod 2 ^ 64)"
proof -
  let ?d = "seq_ahead n isn cp" and ?c = "raw_value (wrap cp isn)"
  let ?d1 = "ucast (raw_value n - ?c) :: u64" and ?d2 = "ucast (?c - raw_value n) :: u64"
  have d1: "unat ?d1 = ?d" by (simp add: seq_ahead_def unat_ucast_64)
  have d2: "unat ?d2 = (if ?d = 0 then 0 else 2 ^ 32 - ?d)"
    by (simp add: seq_ahead_def unat_ucast_64 unat_distance_swap [of ?c "raw_value n"] unat_0_iff)
  have "?d2 < ?d1 \<longleftrightarrow> 2 ^ 31 < ?d"
    using d1 d2 seq_ahead_bound [of n isn cp] by (auto simp: word_less_nat_alt)
  moreover have "?d2 \<le> cp \<longleftrightarrow> 2 ^ 32 - ?d \<le> unat cp" if "2 ^ 31 < ?d"
    using d2 that by (simp add: word_le_nat_alt)
  moreover have "unat (cp - ?d2) = unat cp + ?d - 2 ^ 32" if "2 ^ 31 < ?d" "2 ^ 32 - ?d \<le> unat cp"
    using d2 that seq_ahead_bound [of n isn cp] by (simp add: unat_sub_nowrap)
  moreover have "unat (cp + ?d1) = (unat cp + ?d) mod 2 ^ 64"
    using d1 by (simp add: unat_word_ariths)
  ultimately show ?thesis by (auto simp: unwrap_def Let_def)
qed

lemma unwrap_wrap:
  assumes "unat n < unat cp + 2 ^ 31" and "unat cp < unat n + 2 ^ 31"
  shows "unwrap (wrap n isn) isn cp = n"
proof (rule word_eq_unatI, cases "unat cp \<le> unat n")
  case True
  then have "seq_ahead (wrap n isn) isn cp = unat n - unat cp"
    unfolding seq_ahead_def by (intro unat_distance [OF unat_wrap unat_wrap]) (use assms in auto)
  with True assms show "unat (unwrap (wrap n isn) isn cp) = unat n"
    by (auto simp: unwrap_nat)
next
  case False
  then have "unat (raw_value (wrap cp isn) - raw_value (wrap n isn)) = unat cp - unat n"
    by (intro unat_distance [OF unat_wrap unat_wrap]) (use assms in auto)
  with False have "seq_ahead (wrap n isn) isn cp = 2 ^ 32 - (unat cp - unat n)"
    using unat_distance_swap [of "raw_value (wrap n isn)" "raw_value (wrap cp isn)"]
    unfolding seq_ahead_def by (auto split: if_splits)
  with False assms show "unat (unwrap (wrap n isn) isn cp) = unat n"
    by (auto simp: unwrap_nat)
qed

lemma seq_ahead_cong:
  "(unat cp + seq_ahead n isn cp + unat (raw_value isn)) mod 2 ^ 32 = unat (raw_value n)"
proof -
  let ?c = "raw_value (wrap cp isn)"
  have "unat (raw_value n) = unat (?c + (raw_value n - ?c))" by simp
  also have "\<dots> = (unat ?c + seq_ahead n isn cp) mod 2 ^ 32"
    unfolding seq_ahead_def by (subst unat_word_ariths) simp
  also have "\<dots> = (unat cp + unat (raw_value isn) + seq_ahead n isn cp) mod 2 ^ 32"
    unfolding unat_wrap by (rule mod_add_left_eq)
  finally show ?thesis by (simp add: algebra_simps)
qed

text \<open>Whether the closest number lies below the checkpoint.\<close>

definition seq_below :: "WrappingInt32 \<Rightarrow> WrappingInt32 \<Rightarrow> u64 \<Rightarrow> bool" where
  "seq_below n isn cp \<longleftrightarrow> 2147483648 < seq_ahead n isn cp \<and> 4294967296 \<le> unat cp + seq_ahead n isn cp"

lemma unwrap_below:
  assumes "seq_below n isn cp"
  shows "unat (unwrap n isn cp) + 4294967296 = unat cp + seq_ahead n isn cp"
proof -
  have "unat (unwrap n isn cp) = unat cp + seq_ahead n isn cp - 4294967296"
    using assms by (auto simp: unwrap_nat seq_below_def)
  with assms show ?thesis by (simp add: seq_below_def)
qed

lemma unwrap_above:
  assumes "\<not> seq_below n isn cp"
  shows "unat (unwrap n isn cp) = (unat cp + seq_ahead n isn cp) mod 2 ^ 64"
  using assms seq_ahead_bound [of n isn cp] by (auto simp: unwrap_nat seq_below_def)

lemma unwrap_above_nowrap:
  assumes "\<not> seq_below n isn cp" and "unat cp + 2147483648 < 2 ^ 64"
  shows "unat (unwrap n isn cp) = unat cp + seq_ahead n isn cp"
proof -
  have "seq_ahead n isn cp \<le> 2147483648 \<or> unat cp + seq_ahead n isn cp < 4294967296"
    using assms(1) by (auto simp: seq_below_def)
  then have "unat cp + seq_ahead n isn cp < 2 ^ 64"
    using assms(2) by auto
  then show ?thesis using unwrap_above [OF assms(1)] by simp
qed

lemma mod_32_of_mod_64: "((x mod 2 ^ 64) + i) mod 2 ^ 32 = (x + i) mod (2 ^ 32 :: nat)"
proof -
  have "(2 ^ 32 :: nat) dvd 2 ^ 64" by (rule le_imp_power_dvd) simp
  then have "x mod 2 ^ 64 mod 2 ^ 32 = x mod (2 ^ 32 :: nat)" by (rule mod_mod_cancel)
  then show ?thesis using mod_add_left_eq [of "x mod 2 ^ 64" "2 ^ 32" i] mod_add_left_eq [of x "2 ^ 32" i]
    by (simp only:)
qed

lemma wrap_unwrap: "wrap (unwrap n isn cp) isn = n"
proof -
  let ?d = "seq_ahead n isn cp" and ?i = "unat (raw_value isn)"
  have "(unat (unwrap n isn cp) + ?i) mod 2 ^ 32 = (unat cp + ?d + ?i) mod 2 ^ 32"
  proof (cases "seq_below n isn cp")
    case True
    from unwrap_below [OF this] have "unat cp + ?d + ?i = unat (unwrap n isn cp) + ?i + 2 ^ 32"
      by simp
    then show ?thesis by (metis mod_add_self2)
  next
    case False
    show ?thesis unfolding unwrap_above [OF False] by (rule mod_32_of_mod_64)
  qed
  then have "unat (raw_value (wrap (unwrap n isn cp) isn)) = unat (raw_value n)"
    by (simp only: unat_wrap seq_ahead_cong)
  then show ?thesis by (simp add: WrappingInt32.expand word_unat_eq_iff)
qed

lemma same_wrap_distance:
  assumes "wrap m isn = n"
  obtains q where "int (unat m) = int (unat cp) + int (seq_ahead n isn cp) + 4294967296 * q"
proof -
  let ?i = "unat (raw_value isn)" and ?d = "seq_ahead n isn cp"
  have "(unat m + ?i) mod 2 ^ 32 = unat (raw_value n)"
    using unat_wrap [of m isn] unfolding assms by (rule sym)
  then have "int ((unat m + ?i) mod 2 ^ 32) = int ((unat cp + ?d + ?i) mod 2 ^ 32)"
    using seq_ahead_cong [of cp n isn] by (simp only:)
  then have "int (unat m + ?i) mod 2 ^ 32 = int (unat cp + ?d + ?i) mod 2 ^ 32"
    by (simp only: zmod_int of_nat_power of_nat_numeral)
  then have "2 ^ 32 dvd int (unat m + ?i) - int (unat cp + ?d + ?i)"
    by (simp only: mod_eq_dvd_iff)
  then obtain q where "int (unat m + ?i) - int (unat cp + ?d + ?i) = 2 ^ 32 * q" by (rule dvdE)
  then have "int (unat m) = int (unat cp) + int ?d + 4294967296 * q" by simp
  then show thesis by (rule that)
qed

lemma unwrap_closest:
  assumes bound: "unat cp + 2147483648 < 2 ^ 64" and m: "wrap m isn = n"
  shows "\<bar>int (unat (unwrap n isn cp)) - int (unat cp)\<bar> \<le> \<bar>int (unat m) - int (unat cp)\<bar>"
proof -
  let ?d = "seq_ahead n isn cp"
  obtain q where q: "int (unat m) = int (unat cp) + int ?d + 4294967296 * q"
    by (rule same_wrap_distance [OF m])
  have d: "?d < 4294967296" using seq_ahead_bound [of n isn cp] by simp
  show ?thesis
  proof (cases "seq_below n isn cp")
    case True
    then have t: "2147483648 < int ?d" by (simp add: seq_below_def)
    have "int (unat (unwrap n isn cp)) = int (unat cp) + int ?d - 4294967296"
      using unwrap_below [OF True] by linarith
    then show ?thesis using d q t by (cases "0 \<le> q") linarith+
  next
    case False
    then have t: "int ?d \<le> 2147483648 \<or> int (unat cp) + int ?d < 4294967296"
      unfolding seq_below_def by linarith
    have u: "int (unat (unwrap n isn cp)) = int (unat cp) + int ?d"
      using unwrap_above_nowrap [OF False bound] by linarith
    have "0 \<le> int (unat m)" by simp
    then show ?thesis using d q u t by (cases "0 \<le> q") linarith+
  qed
qed

section \<open>The interface of sequence numbers\<close>

text \<open>
  What the users of the conversion rely on: a number close to the checkpoint survives the
  trip through 32 bits, and the conversion back always yields a number with the given
  32-bit value.
\<close>

locale seqno_codec =
  fixes enc :: "u64 \<Rightarrow> 'i \<Rightarrow> 'w" and dec :: "'w \<Rightarrow> 'i \<Rightarrow> u64 \<Rightarrow> u64" and radius :: nat
  assumes dec_enc: "unat n < unat cp + radius \<Longrightarrow> unat cp < unat n + radius \<Longrightarrow>
      dec (enc n isn) isn cp = n"
    and enc_dec: "enc (dec w isn cp) isn = w"
begin

lemma enc_inj_near:
  assumes "enc m isn = enc n isn" and "unat m < unat n + radius" and "unat n < unat m + radius"
  shows "m = n"
proof -
  have "0 < radius" using assms(2,3) by linarith
  then have "dec (enc n isn) isn n = n" by (intro dec_enc) simp_all
  moreover have "dec (enc m isn) isn n = m" using assms(2,3) by (intro dec_enc) simp_all
  ultimately show ?thesis using assms(1) by simp
qed

lemma dec_unique:
  assumes "enc n isn = w" and "unat n < unat cp + radius" and "unat cp < unat n + radius"
  shows "dec w isn cp = n"
  using dec_enc [OF assms(2,3)] assms(1) by blast

end

interpretation seqno: seqno_codec wrap unwrap "2 ^ 31"
  by unfold_locales (simp_all add: unwrap_wrap wrap_unwrap)

text \<open>
  C6. The 64-bit number computed from a 32-bit sequence number has that sequence number,
  and among all 64-bit numbers that have it none is closer to the checkpoint, for every
  checkpoint that is not within \<open>2 ^ 31\<close> of the end of the 64-bit range.
\<close>

theorem unwrap_is_closest:
  assumes "unat checkpoint + 2147483648 < 2 ^ 64"
  shows "wrap (unwrap n isn checkpoint) isn = n
    \<and> (\<forall>m. wrap m isn = n \<longrightarrow>
        \<bar>int (unat (unwrap n isn checkpoint)) - int (unat checkpoint)\<bar>
          \<le> \<bar>int (unat m) - int (unat checkpoint)\<bar>)"
  using seqno.enc_dec unwrap_closest [OF assms] by blast

theorem unwrap_is_closest_witness:
  "unwrap (WrappingInt32 5) (WrappingInt32 10) 4294967290 = 4294967291
    \<and> wrap (unwrap (WrappingInt32 5) (WrappingInt32 10) 4294967290) (WrappingInt32 10) = WrappingInt32 5"
proof
  show "unwrap (WrappingInt32 5) (WrappingInt32 10) 4294967290 = 4294967291" by code_simp
  show "wrap (unwrap (WrappingInt32 5) (WrappingInt32 10) 4294967290) (WrappingInt32 10) = WrappingInt32 5"
    using unwrap_is_closest [of 4294967290 "WrappingInt32 5" "WrappingInt32 10"] by simp
qed

text \<open>
  A number less than \<open>2 ^ 31\<close> away from the checkpoint survives the trip through a
  32-bit sequence number, whatever the initial sequence number.
\<close>

theorem unwrap_wrap_roundtrip:
  assumes "unat n < unat checkpoint + 2147483648" and "unat checkpoint < unat n + 2147483648"
  shows "unwrap (wrap n isn) isn checkpoint = n"
  using seqno.dec_enc [of n checkpoint isn] assms by simp

theorem unwrap_wrap_roundtrip_witness:
  "unwrap (wrap 8589934600 (WrappingInt32 4294967295)) (WrappingInt32 4294967295) 8589934592 = 8589934600"
  using unwrap_wrap_roundtrip [of 8589934600 8589934592 "WrappingInt32 4294967295"] by simp

text \<open>
  The signed difference of two sequence numbers is the number of steps from the second
  to the first, with the sign of the shorter way round.
\<close>

theorem difference_of_sum:
  assumes "b < 2147483648"
  shows "WrappingInt32_minus (WrappingInt32_plus a b) a = int (unat b)
    \<and> (0 < b \<longrightarrow> WrappingInt32_minus (WrappingInt32_back a b) a = - int (unat b))"
proof -
  have u: "uint b < 2147483648" "0 \<le> uint b" using assms by (simp_all add: word_less_alt)
  have same: "signed_take_bit 31 (uint b) = uint b" "signed_take_bit 31 (- uint b) = - uint b"
    using signed_take_bit_int_eq_self [of 31 "uint b"] signed_take_bit_int_eq_self [of 31 "- uint b"] u
    by simp_all
  then have "sint b = uint b" by (simp add: sint_uint)
  moreover have "sint (- b) = signed_take_bit 31 (take_bit 32 (- uint b))"
    by (simp add: sint_uint uint_word_ariths take_bit_eq_mod)
  then have "sint (- b) = - uint b"
    using same by (simp add: signed_take_bit_take_bit)
  ultimately show ?thesis
    by (simp add: WrappingInt32_minus_def WrappingInt32_plus_def WrappingInt32_back_def)
qed

theorem difference_of_sum_witness:
  "WrappingInt32_minus (WrappingInt32_plus (WrappingInt32 4294967295) 3) (WrappingInt32 4294967295) = 3"
  using difference_of_sum [of 3 "WrappingInt32 4294967295"] by simp

end
