(* ===== verification/TCP_Segment.thy ===== *)
theory TCP_Segment
  imports Internet_Checksum Wrapping_Integers
begin

text \<open>
  TCP headers and segments, from \<^verbatim>\<open>src/libsponge/tcp_helpers/tcp_header.hh\<close>,
  \<^verbatim>\<open>tcp_header.cc\<close>, \<^verbatim>\<open>tcp_segment.hh\<close> and \<^verbatim>\<open>tcp_segment.cc\<close>.
\<close>

section \<open>Definitions\<close>

record TCPHeader =
  th_sport :: u16
  th_dport :: u16
  th_seqno :: WrappingInt32
  th_ackno :: WrappingInt32
  th_doff :: u8
  th_urg :: bool
  th_ack :: bool
  th_psh :: bool
  th_rst :: bool
  th_syn :: bool
  th_fin :: bool
  th_win :: u16
  th_cksum :: u16
  th_uptr :: u16

abbreviation TCPHeader_LENGTH :: size_t where
  "TCPHeader_LENGTH \<equiv> 20"

definition TCPHeader_new :: TCPHeader where
  "TCPHeader_new = \<lparr>th_sport = 0, th_dport = 0, th_seqno = WrappingInt32 0, th_ackno = WrappingInt32 0,
     th_doff = 5, th_urg = False, th_ack = False, th_psh = False, th_rst = False, th_syn = False,
     th_fin = False, th_win = 0, th_cksum = 0, th_uptr = 0\<rparr>"

definition TCPHeader_fields :: "NetParser \<Rightarrow> TCPHeader \<times> NetParser" where
  "TCPHeader_fields p =
     (let (sport, p) = NetParser_u16 p;
          (dport, p) = NetParser_u16 p;
          (seqno, p) = NetParser_u32 p;
          (ackno, p) = NetParser_u32 p;
          (off_b, p) = NetParser_u8 p;
          (fl_b, p) = NetParser_u8 p;
          (win, p) = NetParser_u16 p;
          (cksum, p) = NetParser_u16 p;
          (uptr, p) = NetParser_u16 p
      in (\<lparr>th_sport = sport, th_dport = dport, th_seqno = WrappingInt32 seqno, th_ackno = WrappingInt32 ackno,
           th_doff = drop_bit 4 off_b, th_urg = (fl_b AND 0x20 \<noteq> 0), th_ack = (fl_b AND 0x10 \<noteq> 0),
           th_psh = (fl_b AND 0x08 \<noteq> 0), th_rst = (fl_b AND 0x04 \<noteq> 0), th_syn = (fl_b AND 0x02 \<noteq> 0),
           th_fin = (fl_b AND 0x01 \<noteq> 0), th_win = win, th_cksum = cksum, th_uptr = uptr\<rparr>, p))"

definition TCPHeader_parse ::
  "TCPHeader \<Rightarrow> NetParser \<Rightarrow> ParseResult \<times> TCPHeader \<times> NetParser" where
  "TCPHeader_parse _ p =
     (let (h, p) = TCPHeader_fields p
      in if th_doff h < 5 then (HeaderTooShort, h, p)
         else
           let p = NetParser_remove_prefix (ucast (th_doff h) * 4 - TCPHeader_LENGTH) p
           in if NetParser_error p then (np_error p, h, p)
              else (NoError, h, p))"

definition TCPHeader_serialize :: "TCPHeader \<Rightarrow> bytes result" where
  "TCPHeader_serialize h =
     (if th_doff h < 5 then Inl (RuntimeError ''TCP header too short'')
      else
        let ret = NetUnparser_u16 [] (th_sport h);
            ret = NetUnparser_u16 ret (th_dport h);
            ret = NetUnparser_u32 ret (raw_value (th_seqno h));
            ret = NetUnparser_u32 ret (raw_value (th_ackno h));
            ret = NetUnparser_u8 ret (push_bit 4 (th_doff h));
            fl_b = (if th_urg h then 0x20 else 0) OR (if th_ack h then 0x10 else 0)
                   OR (if th_psh h then 0x08 else 0) OR (if th_rst h then 0x04 else 0)
                   OR (if th_syn h then 0x02 else 0) OR (if th_fin h then 0x01 else 0);
            ret = NetUnparser_u8 ret fl_b;
            ret = NetUnparser_u16 ret (th_win h);
            ret = NetUnparser_u16 ret (th_cksum h);
            ret = NetUnparser_u16 ret (th_uptr h)
        in Inr (resize ret (4 * unat (th_doff h))))"

text \<open>\<open>operator==\<close> leaves out the ports and the checksum.\<close>

definition TCPHeader_eq :: "TCPHeader \<Rightarrow> TCPHeader \<Rightarrow> bool" where
  "TCPHeader_eq a b \<longleftrightarrow> th_seqno a = th_seqno b \<and> th_ackno a = th_ackno b \<and> th_doff a = th_doff b
     \<and> th_urg a = th_urg b \<and> th_ack a = th_ack b \<and> th_psh a = th_psh b \<and> th_rst a = th_rst b
     \<and> th_syn a = th_syn b \<and> th_fin a = th_fin b \<and> th_win a = th_win b \<and> th_uptr a = th_uptr b"

record TCPSegment =
  ts_header :: TCPHeader
  ts_payload :: bytes

definition TCPSegment_new :: TCPSegment where
  "TCPSegment_new = \<lparr>ts_header = TCPHeader_new, ts_payload = []\<rparr>"

definition TCPSegment_parse :: "TCPSegment \<Rightarrow> bytes \<Rightarrow> u32 \<Rightarrow> ParseResult \<times> TCPSegment" where
  "TCPSegment_parse seg buffer datagram_layer_checksum =
     (let check = InternetChecksum_add buffer (InternetChecksum_new datagram_layer_checksum)
      in if InternetChecksum_value check \<noteq> 0 then (BadChecksum, seg)
         else
           let p = NetParser_new buffer;
               (_, header, p) = TCPHeader_parse (ts_header seg) p
           in (np_error p, \<lparr>ts_header = header, ts_payload = np_buffer p\<rparr>))"

definition TCPSegment_length_in_sequence_space :: "TCPSegment \<Rightarrow> size_t" where
  "TCPSegment_length_in_sequence_space seg =
     sz (ts_payload seg) + (if th_syn (ts_header seg) then 1 else 0) + (if th_fin (ts_header seg) then 1 else 0)"

definition TCPSegment_serialize :: "TCPSegment \<Rightarrow> u32 \<Rightarrow> bytes result" where
  "TCPSegment_serialize seg datagram_layer_checksum =
     (let header_out = (ts_header seg)\<lparr>th_cksum := 0\<rparr>
      in bindE (TCPHeader_serialize header_out) (\<lambda>s.
           let check = InternetChecksum_new datagram_layer_checksum;
               check = InternetChecksum_add s check;
               check = InternetChecksum_add (ts_payload seg) check;
               header_out = header_out\<lparr>th_cksum := InternetChecksum_value check\<rparr>
           in bindE (TCPHeader_serialize header_out) (\<lambda>ret. Inr (ret @ ts_payload seg))))"

section \<open>The fixed part of the header\<close>

definition tcp_raw :: "u8 \<Rightarrow> u8 \<Rightarrow> TCPHeader \<Rightarrow> bytes" where
  "tcp_raw off_b fl_b h = be_bytes 2 (unat (th_sport h)) @ be_bytes 2 (unat (th_dport h))
     @ be_bytes 4 (unat (raw_value (th_seqno h))) @ be_bytes 4 (unat (raw_value (th_ackno h)))
     @ [off_b, fl_b] @ be_bytes 2 (unat (th_win h)) @ be_bytes 2 (unat (th_cksum h))
     @ be_bytes 2 (unat (th_uptr h))"

lemma length_tcp_raw [simp]: "length (tcp_raw ob fl h) = 20"
  by (simp add: tcp_raw_def del: be_bytes.simps)

lemma TCPHeader_fields_raw:
  assumes "fits (tcp_raw ob fl h @ rest)"
  shows "TCPHeader_fields (NetParser_new (tcp_raw ob fl h @ rest))
    = (h\<lparr>th_doff := drop_bit 4 ob, th_urg := (fl AND 0x20 \<noteq> 0), th_ack := (fl AND 0x10 \<noteq> 0),
         th_psh := (fl AND 0x08 \<noteq> 0), th_rst := (fl AND 0x04 \<noteq> 0), th_syn := (fl AND 0x02 \<noteq> 0),
         th_fin := (fl AND 0x01 \<noteq> 0)\<rparr>, NetParser_new rest)"
proof -
  have len: "length rest + 20 < 2 ^ 64" using assms by (simp add: fits_def)
  then have "fits (be_bytes n v @ rest')" if "n + length rest' \<le> length rest + 20" for n v and rest'
    using that by (simp add: fits_def)
  moreover have "fits (b # rest')" if "length rest' < length rest + 20" for b :: u8 and rest'
    using that len by (simp add: fits_def)
  ultimately show ?thesis
    by (simp add: TCPHeader_fields_def tcp_raw_def NetParser_new_def read_u8 u16.get_bytes u32.get_bytes
        del: be_bytes.simps)
qed

lemma tcp_raw_split:
  assumes "20 \<le> length s"
  obtains ob fl h where "s = tcp_raw ob fl h @ drop 20 s" and "ob = s ! 12"
proof -
  obtain sp where "drop 0 s = be_bytes 2 (unat (sp :: u16)) @ drop 2 s"
    using u16_at [of 0 s] assms by (auto simp: numeral_2_eq_2)
  moreover obtain dp where "drop 2 s = be_bytes 2 (unat (dp :: u16)) @ drop 4 s" using u16_at [of 2 s] assms by auto
  moreover obtain sq where "drop 4 s = be_bytes 4 (unat (sq :: u32)) @ drop 8 s" using u32_at [of 4 s] assms by auto
  moreover obtain ak where "drop 8 s = be_bytes 4 (unat (ak :: u32)) @ drop 12 s" using u32_at [of 8 s] assms by auto
  moreover have "drop 12 s = s ! 12 # drop 13 s" using Cons_nth_drop_Suc [of 12 s] assms by simp
  moreover obtain fl where "drop 13 s = fl # drop 14 s" using u8_at [of 13 s] assms by auto
  moreover obtain w where "drop 14 s = be_bytes 2 (unat (w :: u16)) @ drop 16 s" using u16_at [of 14 s] assms by auto
  moreover obtain ck where "drop 16 s = be_bytes 2 (unat (ck :: u16)) @ drop 18 s" using u16_at [of 16 s] assms by auto
  moreover obtain up where "drop 18 s = be_bytes 2 (unat (up :: u16)) @ drop 20 s" using u16_at [of 18 s] assms by auto
  ultimately have "drop 0 s = tcp_raw (s ! 12) fl (TCPHeader_new\<lparr>th_sport := sp, th_dport := dp,
      th_seqno := WrappingInt32 sq, th_ackno := WrappingInt32 ak, th_win := w, th_cksum := ck,
      th_uptr := up\<rparr>) @ drop 20 s"
    unfolding tcp_raw_def by (simp del: be_bytes.simps drop_0)
  then show thesis by (intro that [of "s ! 12"]) simp_all
qed

text \<open>Reading the fields takes twenty bytes, or ends in an error.\<close>

lemma TCPHeader_fields_consumes:
  assumes "fits (np_buffer p)"
  shows "consumes 20 p (snd (TCPHeader_fields p))"
proof -
  obtain v1 p1 where 1: "NetParser_u16 p = (v1, p1)" by fastforce
  obtain v2 p2 where 2: "NetParser_u16 p1 = (v2, p2)" by fastforce
  obtain v3 p3 where 3: "NetParser_u32 p2 = (v3, p3)" by fastforce
  obtain v4 p4 where 4: "NetParser_u32 p3 = (v4, p4)" by fastforce
  obtain v5 p5 where 5: "NetParser_u8 p4 = (v5, p5)" by fastforce
  obtain v6 p6 where 6: "NetParser_u8 p5 = (v6, p6)" by fastforce
  obtain v7 p7 where 7: "NetParser_u16 p6 = (v7, p7)" by fastforce
  obtain v8 p8 where 8: "NetParser_u16 p7 = (v8, p8)" by fastforce
  obtain v9 p9 where 9: "NetParser_u16 p8 = (v9, p9)" by fastforce
  note c1 = u16.get_consumes [OF assms 1]
  note c2 = consumes_trans [OF c1 u16.get_consumes [OF consumesD_fits [OF c1] 2]]
  note c3 = consumes_trans [OF c2 u32.get_consumes [OF consumesD_fits [OF c2] 3]]
  note c4 = consumes_trans [OF c3 u32.get_consumes [OF consumesD_fits [OF c3] 4]]
  note c5 = consumes_trans [OF c4 u8.get_consumes [OF consumesD_fits [OF c4] 5]]
  note c6 = consumes_trans [OF c5 u8.get_consumes [OF consumesD_fits [OF c5] 6]]
  note c7 = consumes_trans [OF c6 u16.get_consumes [OF consumesD_fits [OF c6] 7]]
  note c8 = consumes_trans [OF c7 u16.get_consumes [OF consumesD_fits [OF c7] 8]]
  note c9 = consumes_trans [OF c8 u16.get_consumes [OF consumesD_fits [OF c8] 9]]
  have "snd (TCPHeader_fields p) = p9" by (simp add: TCPHeader_fields_def 1 2 3 4 5 6 7 8 9)
  with c9 show ?thesis by simp
qed

section \<open>Header round trip\<close>

definition th_flags :: "TCPHeader \<Rightarrow> u8" where
  "th_flags h = (if th_urg h then 0x20 else 0) OR (if th_ack h then 0x10 else 0)
     OR (if th_psh h then 0x08 else 0) OR (if th_rst h then 0x04 else 0)
     OR (if th_syn h then 0x02 else 0) OR (if th_fin h then 0x01 else 0)"

definition th_wf :: "TCPHeader \<Rightarrow> bool" where
  "th_wf h \<longleftrightarrow> 5 \<le> unat (th_doff h) \<and> unat (th_doff h) < 16"

definition th_padding :: "TCPHeader \<Rightarrow> bytes" where
  "th_padding h = replicate (4 * unat (th_doff h) - 20) 0"

definition tcp_wire :: "TCPHeader \<Rightarrow> bytes" where
  "tcp_wire h = tcp_raw (push_bit 4 (th_doff h)) (th_flags h) h @ th_padding h"

lemma length_tcp_wire: "th_wf h \<Longrightarrow> length (tcp_wire h) = 4 * unat (th_doff h)"
  by (auto simp: tcp_wire_def th_padding_def th_wf_def)

lemma TCPHeader_serialize_eq:
  assumes "th_wf h"
  shows "TCPHeader_serialize h = Inr (tcp_wire h)"
proof -
  have "\<not> th_doff h < 5" using assms by (simp add: th_wf_def word_less_nat_alt)
  then have "TCPHeader_serialize h
      = Inr (resize (tcp_raw (push_bit 4 (th_doff h)) (th_flags h) h) (4 * unat (th_doff h)))"
    by (simp add: TCPHeader_serialize_def Let_def unparse_eqs tcp_raw_def th_flags_def del: be_bytes.simps)
  with assms show ?thesis by (simp add: resize_longer th_wf_def tcp_wire_def th_padding_def)
qed

lemma tcp_unpack:
  assumes "th_wf h"
  shows "h\<lparr>th_doff := drop_bit 4 (push_bit 4 (th_doff h)), th_urg := (th_flags h AND 0x20 \<noteq> 0),
      th_ack := (th_flags h AND 0x10 \<noteq> 0), th_psh := (th_flags h AND 0x08 \<noteq> 0),
      th_rst := (th_flags h AND 0x04 \<noteq> 0), th_syn := (th_flags h AND 0x02 \<noteq> 0),
      th_fin := (th_flags h AND 0x01 \<noteq> 0)\<rparr> = h"
proof -
  have "drop_bit 4 (push_bit 4 (th_doff h)) = th_doff h"
    using nibbles [of "th_doff h" 0] assms by (simp add: th_wf_def)
  moreover note flag_byte [OF th_flags_def [of h]]
  ultimately show ?thesis by simp
qed

lemma unat_4doff: "unat (ucast (doff :: u8) * 4 :: size_t) = 4 * unat doff"
proof -
  have "unat (ucast doff :: size_t) = unat doff" by (simp add: unat_ucast_up)
  then show ?thesis using unat_u8_bound [of doff] by (simp add: unat_word_ariths)
qed

lemma TCPHeader_roundtrip:
  assumes wf: "th_wf h" and fits: "fits (tcp_wire h @ rest)"
  shows "TCPHeader_parse h0 (NetParser_new (tcp_wire h @ rest)) = (NoError, h, NetParser_new rest)"
proof -
  have fields: "TCPHeader_fields (NetParser_new (tcp_wire h @ rest)) = (h, NetParser_new (th_padding h @ rest))"
    using TCPHeader_fields_raw [of "push_bit 4 (th_doff h)" "th_flags h" h "th_padding h @ rest"] fits
    unfolding tcp_unpack [OF wf] by (simp add: tcp_wire_def)
  have doff: "\<not> th_doff h < 5" using wf by (simp add: th_wf_def word_less_nat_alt)
  have "unat (ucast (th_doff h) * 4 - 20 :: size_t) = length (th_padding h)"
    using wf by (simp add: unat_sub_nowrap unat_4doff th_wf_def th_padding_def)
  then have "NetParser_remove_prefix (ucast (th_doff h) * 4 - 20) (NetParser_new (th_padding h @ rest))
      = NetParser_new rest"
    using fits by (subst remove_prefix_ok) (simp_all add: NetParser_new_def tcp_wire_def fits_def)
  with fields doff show ?thesis
    by (simp add: TCPHeader_parse_def Let_def) (simp add: NetParser_new_def NetParser_error_def)
qed

interpretation tcp: wire_header "\<lambda>_. True" "\<lambda>h rest. th_wf h" TCPHeader_serialize TCPHeader_parse
  by unfold_locales (auto simp: TCPHeader_serialize_eq TCPHeader_roundtrip)

section \<open>Segments\<close>

definition tcp_before_cksum :: "TCPHeader \<Rightarrow> bytes" where
  "tcp_before_cksum h = be_bytes 2 (unat (th_sport h)) @ be_bytes 2 (unat (th_dport h))
     @ be_bytes 4 (unat (raw_value (th_seqno h))) @ be_bytes 4 (unat (raw_value (th_ackno h)))
     @ [push_bit 4 (th_doff h), th_flags h] @ be_bytes 2 (unat (th_win h))"

definition tcp_after_cksum :: "TCPHeader \<Rightarrow> bytes" where
  "tcp_after_cksum h = be_bytes 2 (unat (th_uptr h)) @ th_padding h"

lemma th_cksum_upd [simp]:
  "th_flags (h\<lparr>th_cksum := c\<rparr>) = th_flags h" "th_padding (h\<lparr>th_cksum := c\<rparr>) = th_padding h"
  "th_wf (h\<lparr>th_cksum := c\<rparr>) = th_wf h"
  by (simp_all add: th_flags_def th_padding_def th_wf_def)

lemma tcp_wire_cksum:
  "tcp_wire (h\<lparr>th_cksum := c\<rparr>) = tcp_before_cksum h @ NetUnparser_u16 [] c @ tcp_after_cksum h"
  by (simp add: tcp_wire_def tcp_raw_def tcp_before_cksum_def tcp_after_cksum_def u16.put_eq del: be_bytes.simps)

definition tcp_checksum :: "TCPSegment \<Rightarrow> u32 \<Rightarrow> u16" where
  "tcp_checksum seg ck = InternetChecksum_value (InternetChecksum_add
     (tcp_wire ((ts_header seg)\<lparr>th_cksum := 0\<rparr>) @ ts_payload seg) (InternetChecksum_new ck))"

text \<open>A segment whose header has a legal data offset and whose payload fits in a datagram.\<close>

definition seg_ok :: "TCPSegment \<Rightarrow> u32 \<Rightarrow> bool" where
  "seg_ok seg ck \<longleftrightarrow> th_wf (ts_header seg) \<and> length (ts_payload seg) < 2 ^ 16 \<and> unat ck < 2 ^ 20"

definition seg_sealed :: "TCPSegment \<Rightarrow> u32 \<Rightarrow> TCPSegment" where
  "seg_sealed seg ck = seg\<lparr>ts_header := (ts_header seg)\<lparr>th_cksum := tcp_checksum seg ck\<rparr>\<rparr>"

lemma TCPSegment_serialize_eq:
  assumes "th_wf (ts_header seg)"
  shows "TCPSegment_serialize seg ck = Inr (tcp_wire (ts_header (seg_sealed seg ck)) @ ts_payload seg)"
  using assms
  by (simp add: TCPSegment_serialize_def Let_def TCPHeader_serialize_eq add_append seg_sealed_def tcp_checksum_def)

lemma tcp_checksum_ok:
  assumes "seg_ok seg ck"
  shows "InternetChecksum_value (InternetChecksum_add
    (tcp_wire (ts_header (seg_sealed seg ck)) @ ts_payload seg) (InternetChecksum_new ck)) = 0"
proof -
  let ?pre = "tcp_before_cksum (ts_header seg)" and ?post = "tcp_after_cksum (ts_header seg) @ ts_payload seg"
  have "length (th_padding (ts_header seg)) \<le> 40"
    using assms by (auto simp: seg_ok_def th_wf_def th_padding_def)
  then have "unat ck + 65280 * (length ?pre + length ?post) + 65535 < 2 ^ 32"
    using assms by (simp add: seg_ok_def tcp_before_cksum_def tcp_after_cksum_def del: be_bytes.simps)
  moreover have "even (length ?pre)" by (simp add: tcp_before_cksum_def del: be_bytes.simps)
  ultimately show ?thesis
    using stored_checksum_ok [of ?pre ck ?post "tcp_checksum seg ck"]
    by (simp add: tcp_wire_cksum seg_sealed_def tcp_checksum_def)
qed

lemma TCPSegment_roundtrip:
  assumes "seg_ok seg ck"
  shows "TCPSegment_parse seg0 (tcp_wire (ts_header (seg_sealed seg ck)) @ ts_payload seg) ck
    = (NoError, seg_sealed seg ck)"
proof -
  let ?h = "ts_header (seg_sealed seg ck)"
  have wf: "th_wf ?h" using assms by (simp add: seg_ok_def seg_sealed_def)
  have "fits (tcp_wire ?h @ ts_payload seg)"
    using assms length_tcp_wire [OF wf] wf by (simp add: seg_ok_def fits_def th_wf_def)
  from TCPHeader_roundtrip [OF wf this] tcp_checksum_ok [OF assms] show ?thesis
    by (simp add: TCPSegment_parse_def Let_def NetParser_new_def seg_sealed_def)
qed

text \<open>What the segment parser makes of any string whose checksum verifies.\<close>

lemma TCPHeader_parse_error:
  assumes fits: "fits buffer"
    and res: "TCPHeader_parse h0 (NetParser_new buffer) = (r, h, p)"
  shows "np_error p = NoError \<longleftrightarrow> 20 \<le> length buffer \<and> 4 * unat (drop_bit 4 (buffer ! 12)) \<le> length buffer"
proof (cases "20 \<le> length buffer")
  case False
  let ?p1 = "snd (TCPHeader_fields (NetParser_new buffer))"
  have "consumes 20 (NetParser_new buffer) ?p1"
    using fits by (intro TCPHeader_fields_consumes) (simp add: NetParser_new_def)
  with False have p1: "np_error ?p1 \<noteq> NoError" "fits (np_buffer ?p1)"
    by (auto simp: consumes_def NetParser_new_def)
  then have "np_error (NetParser_remove_prefix n ?p1) \<noteq> NoError" for n
    using remove_prefix_err [of ?p1 n] by (simp add: short_error_def)
  with p1 res False show ?thesis
    by (auto simp: TCPHeader_parse_def Let_def split: prod.splits if_splits)
next
  case True
  obtain ob fl h1 where split: "buffer = tcp_raw ob fl h1 @ drop 20 buffer" "ob = buffer ! 12"
    using tcp_raw_split [OF True] .
  let ?doff = "drop_bit 4 ob" and ?n = "ucast (drop_bit 4 ob) * 4 - 20 :: size_t"
  obtain h2 where fields: "TCPHeader_fields (NetParser_new buffer) = (h2, NetParser_new (drop 20 buffer))"
      and doff: "th_doff h2 = ?doff"
    using TCPHeader_fields_raw [of ob fl h1 "drop 20 buffer"] split(1) fits by simp
  show ?thesis
  proof (cases "?doff < 5")
    case short: True
    with fields doff res True split(2) show ?thesis
      by (auto simp: TCPHeader_parse_def NetParser_new_def word_less_nat_alt)
  next
    case False
    have n: "unat ?n = 4 * unat ?doff - 20" "20 \<le> 4 * unat ?doff"
      using False by (simp_all add: unat_sub_nowrap unat_4doff word_less_nat_alt)
    have "np_error (NetParser_remove_prefix ?n (NetParser_new (drop 20 buffer))) = NoError
        \<longleftrightarrow> unat ?n \<le> length (drop 20 buffer)"
      using fits remove_prefix_error_iff [of "NetParser_new (drop 20 buffer)" ?n]
      by (simp add: NetParser_new_def)
    also have "\<dots> \<longleftrightarrow> 4 * unat ?doff \<le> length buffer" using n True by auto
    finally show ?thesis
      using fields doff res False True split(2) by (auto simp: TCPHeader_parse_def Let_def split: if_splits)
  qed
qed

section \<open>Properties\<close>

text \<open>
  C13. A TCP segment survives the wire: serializing a segment with a legal data offset never
  throws, and parsing the result under the same pseudo-header sum verifies the checksum and
  gives the segment back, with the checksum filled in, into whatever object it is parsed.
\<close>

theorem tcp_segment_roundtrip:
  assumes "5 \<le> unat (th_doff (ts_header seg))" and "unat (th_doff (ts_header seg)) < 16"
    and "length (ts_payload seg) < 2 ^ 16" and "unat ck < 2 ^ 20"
  shows "\<exists>s. TCPSegment_serialize seg ck = Inr s
    \<and> length s = 4 * unat (th_doff (ts_header seg)) + length (ts_payload seg)
    \<and> (\<forall>seg0. TCPSegment_parse seg0 s ck
        = (NoError, seg\<lparr>ts_header := (ts_header seg)\<lparr>th_cksum := tcp_checksum seg ck\<rparr>\<rparr>))"
proof -
  have ok: "seg_ok seg ck" and wf: "th_wf (ts_header (seg_sealed seg ck))"
    using assms by (simp_all add: seg_ok_def th_wf_def seg_sealed_def)
  show ?thesis
    using TCPSegment_serialize_eq [of seg ck] TCPSegment_roundtrip [OF ok] length_tcp_wire [OF wf] ok
    by (simp add: seg_ok_def seg_sealed_def)
qed

theorem tcp_segment_roundtrip_witness:
  "\<exists>s. TCPSegment_serialize (TCPSegment_new\<lparr>ts_payload := [1, 2, 3]\<rparr>) 7 = Inr s \<and> length s = 23"
  using tcp_segment_roundtrip [of "TCPSegment_new\<lparr>ts_payload := [1, 2, 3]\<rparr>" 7]
  by (auto simp: TCPSegment_new_def TCPHeader_new_def)



text \<open>
  The length in sequence space counts the payload bytes, one for SYN and one for FIN, and
  does not wrap around for any payload that fits in memory with room for the two flags.
\<close>

theorem length_in_sequence_space_counts:
  assumes "length (ts_payload seg) + 2 < 2 ^ 64"
  shows "unat (TCPSegment_length_in_sequence_space seg) = length (ts_payload seg)
    + (if th_syn (ts_header seg) then 1 else 0) + (if th_fin (ts_header seg) then 1 else 0)"
proof -
  have "unat (sz (ts_payload seg)) = length (ts_payload seg)" using assms by (simp add: unat_sz)
  then show ?thesis
    using assms by (auto simp: TCPSegment_length_in_sequence_space_def unat_word_ariths)
qed

theorem length_in_sequence_space_counts_witness:
  "unat (TCPSegment_length_in_sequence_space
    \<lparr>ts_header = TCPHeader_new\<lparr>th_syn := True\<rparr>, ts_payload = [7, 8]\<rparr>) = 3"
  using length_in_sequence_space_counts [of "\<lparr>ts_header = TCPHeader_new\<lparr>th_syn := True\<rparr>, ts_payload = [7, 8]\<rparr>"]
  by (simp add: TCPHeader_new_def)

end
