(* ===== verification/TCP_Sender.thy ===== *)
theory TCP_Sender
  imports Byte_Stream TCP_Segment
begin

text \<open>
  The sender of \<^verbatim>\<open>src/libsponge/tcp_sender.hh\<close> and \<^verbatim>\<open>tcp_sender.cc\<close>, with its
  retransmission timer, and the configuration constants of
  \<^verbatim>\<open>src/libsponge/tcp_helpers/tcp_config.hh\<close>. \<open>fill_window\<close> calls itself after each
  segment; \<open>fill_step\<close> is its body up to that call, and the recursion ends because every
  segment sent occupies the window.
\<close>

section \<open>The timer\<close>

record Timer =
  tm_active :: bool
  tm_start_time :: size_t
  tm_current_time :: size_t
  tm_rto :: size_t

definition Timer_new :: "u32 \<Rightarrow> Timer" where
  "Timer_new rto = \<lparr>tm_active = False, tm_start_time = 0, tm_current_time = 0, tm_rto = ucast rto\<rparr>"

definition Timer_update_time :: "size_t \<Rightarrow> Timer \<Rightarrow> Timer" where
  "Timer_update_time timestamp t = t\<lparr>tm_current_time := timestamp\<rparr>"

definition Timer_timeout :: "Timer \<Rightarrow> bool" where
  "Timer_timeout t \<longleftrightarrow> tm_active t \<and> tm_current_time t - tm_start_time t \<ge> tm_rto t"

definition Timer_rto_double :: "Timer \<Rightarrow> Timer" where
  "Timer_rto_double t = t\<lparr>tm_rto := tm_rto t * 2\<rparr>"

definition Timer_start :: "size_t \<Rightarrow> Timer \<Rightarrow> Timer" where
  "Timer_start timestamp t = t\<lparr>tm_start_time := timestamp, tm_current_time := timestamp, tm_active := True\<rparr>"

definition Timer_rto_reset :: "u32 \<Rightarrow> Timer \<Rightarrow> Timer" where
  "Timer_rto_reset rto t = t\<lparr>tm_rto := ucast rto, tm_active := False\<rparr>"

section \<open>The sender\<close>

abbreviation MAX_PAYLOAD_SIZE :: size_t where
  "MAX_PAYLOAD_SIZE \<equiv> 1000"

record TCPSender =
  sn_isn :: WrappingInt32
  sn_segments_out :: "TCPSegment list"
  sn_initial_rto :: u32
  sn_stream :: ByteStream
  sn_consecutive_retrans :: u32
  sn_unacked :: "TCPSegment list"
  sn_timer :: Timer
  sn_time :: size_t
  sn_window_size :: u16
  sn_byte_sent :: u64
  sn_byte_received :: u64
  sn_eof :: bool

text \<open>\<open>random\<close> is the number that \<open>random_device\<close> returns.\<close>

definition TCPSender_new :: "size_t \<Rightarrow> u16 \<Rightarrow> WrappingInt32 option \<Rightarrow> u32 \<Rightarrow> TCPSender" where
  "TCPSender_new capacity retx_timeout fixed_isn random =
     \<lparr>sn_isn = (case fixed_isn of Some isn \<Rightarrow> isn | None \<Rightarrow> WrappingInt32 random), sn_segments_out = [],
      sn_initial_rto = ucast retx_timeout, sn_stream = ByteStream_new capacity,
      sn_consecutive_retrans = 0, sn_unacked = [], sn_timer = Timer_new (ucast retx_timeout), sn_time = 0,
      sn_window_size = 1, sn_byte_sent = 0, sn_byte_received = 0, sn_eof = False\<rparr>"

definition TCPSender_bytes_in_flight :: "TCPSender \<Rightarrow> u64" where
  "TCPSender_bytes_in_flight s = sn_byte_sent s - sn_byte_received s"

definition TCPSender_next_seqno :: "TCPSender \<Rightarrow> WrappingInt32" where
  "TCPSender_next_seqno s = wrap (sn_byte_sent s) (sn_isn s)"

definition TCPSender_next_seqno_absolute :: "TCPSender \<Rightarrow> u64" where
  "TCPSender_next_seqno_absolute s = sn_byte_sent s"

definition TCPSender_fin_sent :: "TCPSender \<Rightarrow> bool" where
  "TCPSender_fin_sent s = sn_eof s"

definition TCPSender_fin_acked :: "TCPSender \<Rightarrow> bool" where
  "TCPSender_fin_acked s \<longleftrightarrow> sn_unacked s = [] \<and> TCPSender_fin_sent s"

text \<open>The payload length that \<open>fill_window\<close> asks the stream for.\<close>

definition fill_payload :: "u16 \<Rightarrow> size_t \<Rightarrow> TCPSender \<Rightarrow> size_t" where
  "fill_payload window_size sequence_size s =
     (let payload = ucast window_size - TCPSender_bytes_in_flight s - sequence_size;
          payload = (if payload > ByteStream_buffer_size (sn_stream s)
                     then ByteStream_buffer_size (sn_stream s) else payload)
      in if payload > MAX_PAYLOAD_SIZE then MAX_PAYLOAD_SIZE else payload)"

text \<open>The segment that is built and queued, and the state after it.\<close>

definition fill_send :: "u16 \<Rightarrow> TCPSegment \<Rightarrow> size_t \<Rightarrow> TCPSender \<Rightarrow> TCPSender" where
  "fill_send window_size seg payload s =
     (let (data, stream) = ByteStream_read payload (sn_stream s);
          seg = seg\<lparr>ts_header := (ts_header seg)\<lparr>th_seqno := TCPSender_next_seqno s\<rparr>, ts_payload := data\<rparr>;
          room = (ucast window_size > TCPSender_bytes_in_flight s + TCPSegment_length_in_sequence_space seg);
          eof = (if room then ByteStream_eof stream else sn_eof s);
          seg = (if room then seg\<lparr>ts_header := (ts_header seg)\<lparr>th_fin := ByteStream_eof stream\<rparr>\<rparr> else seg)
      in s\<lparr>sn_stream := stream, sn_eof := eof,
          sn_segments_out := sn_segments_out s @ [seg], sn_unacked := sn_unacked s @ [seg],
          sn_byte_sent := sn_byte_sent s + TCPSegment_length_in_sequence_space seg,
          sn_timer := (if \<not> tm_active (sn_timer s)
                       then Timer_start (sn_time s) (Timer_rto_reset (sn_initial_rto s) (sn_timer s))
                       else sn_timer s)\<rparr>)"

text \<open>\<open>None\<close> when \<open>fill_window\<close> returns, otherwise the state in which it calls itself.\<close>

definition fill_step :: "TCPSender \<Rightarrow> TCPSender option" where
  "fill_step s =
     (if sn_eof s then None
      else
        let seg = TCPSegment_new;
            seg = (if sn_byte_sent s = 0 then seg\<lparr>ts_header := (ts_header seg)\<lparr>th_syn := True\<rparr>\<rparr> else seg);
            sequence_size = TCPSegment_length_in_sequence_space seg;
            window_size = (if sn_window_size s > 0 then sn_window_size s else 1)
        in if TCPSender_bytes_in_flight s + sequence_size > ucast window_size
              \<or> TCPSender_bytes_in_flight s \<ge> ucast window_size
           then None
           else
             let payload = fill_payload window_size sequence_size s
             in if \<not> ByteStream_eof (sn_stream s) \<and> sequence_size + payload = 0 then None
                else Some (fill_send window_size seg payload s))"

section \<open>Filling the window ends\<close>

text \<open>The window that \<open>fill_window\<close> works with: a closed one counts as one byte.\<close>

definition send_window :: "TCPSender \<Rightarrow> nat" where
  "send_window s = max 1 (unat (sn_window_size s))"

definition in_flight :: "TCPSender \<Rightarrow> nat" where
  "in_flight s = unat (TCPSender_bytes_in_flight s)"

lemma unat_u16_bound: "unat (x :: u16) < 65536"
  using unsigned_less [of x, where 'a = nat] by simp

lemma send_window_bound: "1 \<le> send_window s" "send_window s < 65536"
  using unat_u16_bound [of "sn_window_size s"] by (simp_all add: send_window_def)

lemma unat_send_window: "unat (ucast (if sn_window_size s > 0 then sn_window_size s else 1 :: u16) :: size_t) = send_window s"
proof (cases "sn_window_size s = 0")
  case False
  then have "0 < unat (sn_window_size s)" by (simp add: unat_gt_0)
  with False show ?thesis by (simp add: send_window_def unat_ucast_up word_gt_0 max_def)
qed (simp add: send_window_def)

text \<open>A closed form of \<open>fill_step\<close>, on naturals.\<close>

definition syn_len :: "TCPSender \<Rightarrow> nat" where
  "syn_len s = (if sn_byte_sent s = 0 then 1 else 0)"

definition fill_len :: "TCPSender \<Rightarrow> nat" where
  "fill_len s = min (min (send_window s - in_flight s - syn_len s) (unat (ByteStream_buffer_size (sn_stream s)))) 1000"

definition fill_fin :: "TCPSender \<Rightarrow> bool" where
  "fill_fin s \<longleftrightarrow> in_flight s + syn_len s + fill_len s < send_window s
     \<and> bs_end (sn_stream s) \<and> drop (fill_len s) (bs_content (sn_stream s)) = []"

definition fill_total :: "TCPSender \<Rightarrow> nat" where
  "fill_total s = fill_len s + syn_len s + (if fill_fin s then 1 else 0)"

definition fill_seg :: "TCPSender \<Rightarrow> TCPSegment" where
  "fill_seg s = \<lparr>ts_header = TCPHeader_new\<lparr>th_seqno := TCPSender_next_seqno s, th_syn := (sn_byte_sent s = 0),
       th_fin := fill_fin s\<rparr>, ts_payload = take (fill_len s) (bs_content (sn_stream s))\<rparr>"

definition fill_next :: "TCPSender \<Rightarrow> TCPSender" where
  "fill_next s = s\<lparr>sn_stream := (sn_stream s)\<lparr>bs_content := drop (fill_len s) (bs_content (sn_stream s)),
         bs_alread := bs_alread (sn_stream s) + of_nat (fill_len s)\<rparr>,
       sn_eof := fill_fin s, sn_segments_out := sn_segments_out s @ [fill_seg s],
       sn_unacked := sn_unacked s @ [fill_seg s], sn_byte_sent := sn_byte_sent s + of_nat (fill_total s),
       sn_timer := (if \<not> tm_active (sn_timer s)
                    then Timer_start (sn_time s) (Timer_rto_reset (sn_initial_rto s) (sn_timer s))
                    else sn_timer s)\<rparr>"

definition fill_done :: "TCPSender \<Rightarrow> bool" where
  "fill_done s \<longleftrightarrow> sn_eof s \<or> send_window s \<le> in_flight s
     \<or> syn_len s + fill_len s = 0 \<and> \<not> ByteStream_eof (sn_stream s)"

lemma read_exact:
  assumes "n \<le> unat (ByteStream_buffer_size s)"
  shows "ByteStream_read (of_nat n) s = (take n (bs_content s),
    s\<lparr>bs_content := drop n (bs_content s), bs_alread := bs_alread s + of_nat n\<rparr>)"
proof -
  have n: "unat (of_nat n :: size_t) = n"
    using assms le_less_trans [OF assms unat_size_t_bound] by (simp add: unat_of_nat)
  then have "of_nat n \<le> ByteStream_buffer_size s" using assms by (simp add: word_le_nat_alt)
  with n show ?thesis
    by (simp add: ByteStream_read_def ByteStream_peek_output_def ByteStream_pop_output_def)
qed

lemma fill_payload_eq:
  assumes "in_flight s < send_window s"
  shows "fill_payload (if sn_window_size s > 0 then sn_window_size s else 1) (of_nat (syn_len s)) s = of_nat (fill_len s)"
proof -
  let ?w = "if sn_window_size s > 0 then sn_window_size s else 1 :: u16"
  let ?q = "of_nat (syn_len s) :: size_t" and ?B = "ByteStream_buffer_size (sn_stream s)"
  let ?p = "ucast ?w - TCPSender_bytes_in_flight s - ?q"
  have q: "unat ?q = syn_len s" by (simp add: syn_len_def)
  have 1: "unat (ucast ?w - TCPSender_bytes_in_flight s) = send_window s - in_flight s"
    using assms unat_send_window [of s] by (simp add: unat_sub_nowrap in_flight_def)
  have p: "unat ?p = send_window s - in_flight s - syn_len s"
    using assms 1 q by (subst unat_sub_nowrap) (auto simp: syn_len_def)
  have "unat (fill_payload ?w ?q s) = fill_len s"
    unfolding fill_payload_def Let_def fill_len_def
    using p by (auto simp: word_less_nat_alt min_def)
  then show ?thesis by (metis of_nat_unat ucast_id)
qed

lemma fill_len_bounds:
  "fill_len s \<le> unat (ByteStream_buffer_size (sn_stream s))" "fill_len s \<le> 1000"
  "fill_len s \<le> length (bs_content (sn_stream s))"
proof -
  show "fill_len s \<le> unat (ByteStream_buffer_size (sn_stream s))" "fill_len s \<le> 1000"
    by (simp_all add: fill_len_def)
  then show "fill_len s \<le> length (bs_content (sn_stream s))"
    using unat_sz_le [of "bs_content (sn_stream s)"] by (simp add: ByteStream_buffer_size_def)
qed

lemma fill_total_fits:
  assumes "in_flight s < send_window s"
  shows "in_flight s + fill_total s \<le> send_window s"
  using assms unfolding fill_total_def fill_fin_def fill_len_def syn_len_def by auto

lemma fill_send_eq:
  assumes free: "in_flight s < send_window s" and eof: "\<not> sn_eof s"
    and seg: "seg = TCPSegment_new\<lparr>ts_header := TCPHeader_new\<lparr>th_syn := (sn_byte_sent s = 0)\<rparr>\<rparr>"
  shows "fill_send (if sn_window_size s > 0 then sn_window_size s else 1) seg (of_nat (fill_len s)) s = fill_next s"
proof -
  let ?w = "if sn_window_size s > 0 then sn_window_size s else 1 :: u16"
  let ?data = "take (fill_len s) (bs_content (sn_stream s))"
  let ?stream = "(sn_stream s)\<lparr>bs_content := drop (fill_len s) (bs_content (sn_stream s)),
       bs_alread := bs_alread (sn_stream s) + of_nat (fill_len s)\<rparr>"
  let ?seg = "seg\<lparr>ts_header := (ts_header seg)\<lparr>th_seqno := TCPSender_next_seqno s\<rparr>, ts_payload := ?data\<rparr>"
  note rd = read_exact [OF fill_len_bounds(1) [of s]]
  have len: "TCPSegment_length_in_sequence_space ?seg = of_nat (fill_len s + syn_len s)"
    using fill_len_bounds(3) [of s]
    by (simp add: TCPSegment_length_in_sequence_space_def seg TCPHeader_new_def sz_def syn_len_def min_absorb2)
  have small: "fill_len s + syn_len s \<le> 1001" using fill_len_bounds(2) [of s] by (simp add: syn_len_def)
  have F: "in_flight s < 65536" using free send_window_bound(2) [of s] by simp
  have "unat (TCPSender_bytes_in_flight s + of_nat (fill_len s + syn_len s)) = in_flight s + syn_len s + fill_len s"
    using F small by (subst unat_add_nowrap) (simp_all add: in_flight_def unat_of_nat del: of_nat_add)
  then have room: "ucast ?w > TCPSender_bytes_in_flight s + TCPSegment_length_in_sequence_space ?seg
      \<longleftrightarrow> in_flight s + syn_len s + fill_len s < send_window s"
    unfolding len using unat_send_window [of s] by (simp add: word_less_nat_alt del: of_nat_add)
  have eof': "ByteStream_eof ?stream \<longleftrightarrow> bs_end (sn_stream s) \<and> drop (fill_len s) (bs_content (sn_stream s)) = []"
    by (simp add: ByteStream_eof_def ByteStream_buffer_empty_def)
  have segs: "(if in_flight s + syn_len s + fill_len s < send_window s
      then ?seg\<lparr>ts_header := (ts_header ?seg)\<lparr>th_fin := ByteStream_eof ?stream\<rparr>\<rparr> else ?seg) = fill_seg s"
    unfolding eof' by (simp add: fill_seg_def fill_fin_def seg TCPSegment_new_def TCPHeader_new_def)
  have tot: "TCPSegment_length_in_sequence_space (fill_seg s) = of_nat (fill_total s)"
    using fill_len_bounds(3) [of s]
    by (simp add: TCPSegment_length_in_sequence_space_def fill_seg_def TCPHeader_new_def sz_def syn_len_def
        fill_total_def min_absorb2)
  have eofs: "(if in_flight s + syn_len s + fill_len s < send_window s then ByteStream_eof ?stream else sn_eof s) = fill_fin s"
    unfolding eof' using eof by (simp add: fill_fin_def)
  show ?thesis
    unfolding fill_send_def rd prod.case Let_def room segs eofs tot fill_next_def by simp
qed

lemma fill_step_eq: "fill_step s = (if fill_done s then None else Some (fill_next s))"
proof (cases "sn_eof s \<or> send_window s \<le> in_flight s")
  case True
  then show ?thesis
    using unat_send_window [of s]
    by (auto simp: fill_step_def fill_done_def word_le_nat_alt in_flight_def Let_def)
next
  case False
  then have free: "in_flight s < send_window s" and eof: "\<not> sn_eof s" by auto
  let ?w = "if sn_window_size s > 0 then sn_window_size s else 1 :: u16"
  let ?seg = "TCPSegment_new\<lparr>ts_header := TCPHeader_new\<lparr>th_syn := (sn_byte_sent s = 0)\<rparr>\<rparr>"
  have seg: "(if sn_byte_sent s = 0 then TCPSegment_new\<lparr>ts_header := (ts_header TCPSegment_new)\<lparr>th_syn := True\<rparr>\<rparr>
      else TCPSegment_new) = ?seg"
    by (simp add: TCPSegment_new_def TCPHeader_new_def)
  have len: "TCPSegment_length_in_sequence_space ?seg = of_nat (syn_len s)"
    by (simp add: TCPSegment_length_in_sequence_space_def TCPSegment_new_def TCPHeader_new_def syn_len_def)
  have "unat (TCPSender_bytes_in_flight s + of_nat (syn_len s)) = in_flight s + syn_len s"
    using free send_window_bound(2) [of s] by (subst unat_add_nowrap) (simp_all add: in_flight_def syn_len_def)
  then have guard: "\<not> (TCPSender_bytes_in_flight s + of_nat (syn_len s) > ucast ?w
      \<or> TCPSender_bytes_in_flight s \<ge> ucast ?w)"
    using free unat_send_window [of s] by (auto simp: word_le_nat_alt word_less_nat_alt in_flight_def syn_len_def)
  have "fill_len s + syn_len s \<le> 1001" using fill_len_bounds(2) [of s] by (simp add: syn_len_def)
  then have nil: "of_nat (syn_len s) + (of_nat (fill_len s) :: size_t) = 0 \<longleftrightarrow> syn_len s + fill_len s = 0"
    by (simp add: word_unat_eq_iff unat_of_nat flip: of_nat_add)
  show ?thesis
    unfolding fill_step_def Let_def seg len fill_payload_eq [OF free] nil fill_send_eq [OF free eof refl]
    using guard eof free by (auto simp: fill_done_def)
qed

lemma fill_total_pos:
  assumes "\<not> fill_done s"
  shows "0 < fill_total s"
proof (cases "syn_len s + fill_len s = 0")
  case True
  with assms have "fill_fin s"
    by (simp add: fill_done_def fill_fin_def ByteStream_eof_def ByteStream_buffer_empty_def)
  then show ?thesis by (simp add: fill_total_def)
qed (auto simp: fill_total_def)

lemma fill_next_progress:
  assumes "\<not> fill_done s"
  shows "in_flight (fill_next s) = in_flight s + fill_total s" and "send_window (fill_next s) = send_window s"
proof -
  have free: "in_flight s < send_window s" using assms by (auto simp: fill_done_def)
  have "in_flight s + fill_total s < 65536"
    using fill_total_fits [OF free] send_window_bound(2) [of s] by simp
  then have "unat (TCPSender_bytes_in_flight s + of_nat (fill_total s)) = in_flight s + fill_total s"
    by (subst unat_add_nowrap) (simp_all add: in_flight_def unat_of_nat)
  then show "in_flight (fill_next s) = in_flight s + fill_total s"
    by (simp add: in_flight_def TCPSender_bytes_in_flight_def fill_next_def algebra_simps)
  show "send_window (fill_next s) = send_window s" by (simp add: send_window_def fill_next_def)
qed

function TCPSender_fill_window :: "TCPSender \<Rightarrow> TCPSender" where
  "TCPSender_fill_window s = (case fill_step s of None \<Rightarrow> s | Some s' \<Rightarrow> TCPSender_fill_window s')"
  by pat_completeness auto

termination TCPSender_fill_window
proof (relation "measure (\<lambda>s. 65536 - in_flight s)")
  fix s s' assume "fill_step s = Some s'"
  then have nd: "\<not> fill_done s" and s': "s' = fill_next s" by (auto simp: fill_step_eq split: if_splits)
  have "in_flight s < send_window s" using nd by (auto simp: fill_done_def)
  with fill_total_pos [OF nd] fill_next_progress(1) [OF nd] send_window_bound(2) [of s]
  show "(s', s) \<in> measure (\<lambda>s. 65536 - in_flight s)" by (simp add: s')
qed simp

declare TCPSender_fill_window.simps [simp del]

lemma fill_window_unfold:
  "TCPSender_fill_window s = (if fill_done s then s else TCPSender_fill_window (fill_next s))"
  by (subst TCPSender_fill_window.simps) (simp add: fill_step_eq)

text \<open>Induction over the segments that one call sends.\<close>

lemma fill_window_induct [case_names base step]:
  assumes "P s" and "\<And>s. P s \<Longrightarrow> \<not> fill_done s \<Longrightarrow> P (fill_next s)"
  shows "P (TCPSender_fill_window s)"
  using assms(1)
proof (induction s rule: TCPSender_fill_window.induct)
  case (1 s)
  show ?case
  proof (cases "fill_done s")
    case True
    then show ?thesis using 1(2) by (subst fill_window_unfold) simp
  next
    case False
    then have "fill_step s = Some (fill_next s)" by (simp add: fill_step_eq)
    from 1(1) [OF this] assms(2) [OF 1(2) False] False show ?thesis by (subst fill_window_unfold) simp
  qed
qed

lemma fill_window_done: "fill_done (TCPSender_fill_window s)"
proof (induction s rule: TCPSender_fill_window.induct)
  case (1 s)
  show ?case
  proof (cases "fill_done s")
    case True
    then show ?thesis by (subst fill_window_unfold) simp
  next
    case False
    then have "fill_step s = Some (fill_next s)" by (simp add: fill_step_eq)
    from 1(1) [OF this] False show ?thesis by (subst fill_window_unfold) simp
  qed
qed

section \<open>The other operations\<close>

text \<open>The loop that drops the segments which are acknowledged as a whole.\<close>

fun pop_acked :: "WrappingInt32 \<Rightarrow> u64 \<Rightarrow> u64 \<Rightarrow> TCPSegment list \<Rightarrow> TCPSegment list" where
  "pop_acked isn byte_received abs_ack_no [] = []"
| "pop_acked isn byte_received abs_ack_no (seg # segs) =
     (let abs_seq_no = unwrap (th_seqno (ts_header seg)) isn byte_received
      in if abs_seq_no + TCPSegment_length_in_sequence_space seg \<le> abs_ack_no
         then pop_acked isn byte_received abs_ack_no segs
         else seg # segs)"

definition TCPSender_ack_received :: "WrappingInt32 \<Rightarrow> u16 \<Rightarrow> TCPSender \<Rightarrow> bool \<times> TCPSender" where
  "TCPSender_ack_received ackno window_size s =
     (let abs_ack_no = unwrap ackno (sn_isn s) (sn_byte_received s);
          s = s\<lparr>sn_window_size := window_size\<rparr>
      in if abs_ack_no > sn_byte_sent s then (False, s)
         else if abs_ack_no < sn_byte_received s then (True, s)
         else if abs_ack_no = sn_byte_received s then (True, TCPSender_fill_window s)
         else
           let s = s\<lparr>sn_timer := Timer_rto_reset (sn_initial_rto s) (sn_timer s), sn_consecutive_retrans := 0,
                     sn_byte_received := abs_ack_no\<rparr>;
               s = s\<lparr>sn_unacked := pop_acked (sn_isn s) (sn_byte_received s) abs_ack_no (sn_unacked s)\<rparr>;
               s = (if sn_unacked s \<noteq> [] then s\<lparr>sn_timer := Timer_start (sn_time s) (sn_timer s)\<rparr> else s)
           in (True, TCPSender_fill_window s))"

definition TCPSender_tick :: "size_t \<Rightarrow> TCPSender \<Rightarrow> TCPSender result" where
  "TCPSender_tick ms_since_last_tick s =
     (let s = s\<lparr>sn_time := sn_time s + ms_since_last_tick\<rparr>
      in if tm_active (sn_timer s) then
           let s = s\<lparr>sn_timer := Timer_update_time (sn_time s) (sn_timer s)\<rparr>
           in if Timer_timeout (sn_timer s) then
                case sn_unacked s of
                  [] \<Rightarrow> Inl (Undefined ''front of an empty queue'')
                | seg # _ \<Rightarrow> Inr (s\<lparr>sn_segments_out := sn_segments_out s @ [seg],
                    sn_consecutive_retrans := sn_consecutive_retrans s + 1,
                    sn_timer := Timer_start (sn_time s) (Timer_rto_double (sn_timer s))\<rparr>)
              else Inr s
         else Inr s)"

definition TCPSender_consecutive_retransmissions :: "TCPSender \<Rightarrow> u32" where
  "TCPSender_consecutive_retransmissions s = sn_consecutive_retrans s"

definition TCPSender_send_empty_segment :: "TCPSender \<Rightarrow> TCPSender" where
  "TCPSender_send_empty_segment s =
     (let seg = TCPSegment_new\<lparr>ts_header := (ts_header TCPSegment_new)\<lparr>th_seqno := TCPSender_next_seqno s\<rparr>\<rparr>
      in s\<lparr>sn_segments_out := sn_segments_out s @ [seg]\<rparr>)"

section \<open>Segments of a stream\<close>

text \<open>
  \<open>seg_genuine S L isn a seg\<close>: the segment \<open>seg\<close> is a piece of the stream of \<open>L\<close> bytes
  \<open>S\<close>, its first sequence number being the absolute number \<open>a\<close>: it is not empty, it has
  the SYN flag exactly if it is the first one, and the FIN flag only if it reaches the end.
\<close>

definition seg_len :: "TCPSegment \<Rightarrow> nat" where
  "seg_len seg = length (ts_payload seg) + (if th_syn (ts_header seg) then 1 else 0)
     + (if th_fin (ts_header seg) then 1 else 0)"

definition seg_genuine :: "(nat \<Rightarrow> u8) \<Rightarrow> nat \<Rightarrow> WrappingInt32 \<Rightarrow> nat \<Rightarrow> TCPSegment \<Rightarrow> bool" where
  "seg_genuine S L isn a seg \<longleftrightarrow> th_seqno (ts_header seg) = wrap (of_nat a) isn
     \<and> (th_syn (ts_header seg) \<longleftrightarrow> a = 0)
     \<and> ts_payload seg = stretch S (a - 1) (length (ts_payload seg))
     \<and> a - 1 + length (ts_payload seg) \<le> L \<and> (th_fin (ts_header seg) \<longrightarrow> a - 1 + length (ts_payload seg) = L)
     \<and> 0 < seg_len seg \<and> length (ts_payload seg) \<le> 1000"

fun seg_chain :: "(nat \<Rightarrow> u8) \<Rightarrow> nat \<Rightarrow> WrappingInt32 \<Rightarrow> nat \<Rightarrow> TCPSegment list \<Rightarrow> nat \<Rightarrow> bool" where
  "seg_chain S L isn a [] b \<longleftrightarrow> a = b"
| "seg_chain S L isn a (seg # segs) b \<longleftrightarrow> seg_genuine S L isn a seg \<and> seg_chain S L isn (a + seg_len seg) segs b"

lemma length_in_sequence_space_word: "TCPSegment_length_in_sequence_space seg = of_nat (seg_len seg)"
  by (simp add: TCPSegment_length_in_sequence_space_def seg_len_def sz_def)

lemma seg_len_bound: "seg_genuine S L isn a seg \<Longrightarrow> seg_len seg \<le> 1002"
  by (auto simp: seg_genuine_def seg_len_def)

lemma seg_chain_snoc:
  "seg_chain S L isn a segs b \<Longrightarrow> seg_genuine S L isn b seg \<Longrightarrow> seg_chain S L isn a (segs @ [seg]) (b + seg_len seg)"
  by (induction segs arbitrary: a) auto

lemma seg_chain_le: "seg_chain S L isn a segs b \<Longrightarrow> a \<le> b"
  by (induction segs arbitrary: a) fastforce+

lemma seg_chain_member:
  "seg_chain S L isn a segs b \<Longrightarrow> seg \<in> set segs \<Longrightarrow>
    \<exists>a'. a \<le> a' \<and> seg_genuine S L isn a' seg \<and> a' + seg_len seg \<le> b"
proof (induction segs arbitrary: a)
  case (Cons x segs)
  show ?case
  proof (cases "seg = x")
    case True
    then show ?thesis using Cons.prems(1) seg_chain_le [of S L isn "a + seg_len x" segs b] by auto
  next
    case False
    then obtain a' where "a + seg_len x \<le> a'" "seg_genuine S L isn a' seg" "a' + seg_len seg \<le> b"
      using Cons.IH [of "a + seg_len x"] Cons.prems by auto
    then show ?thesis by (intro exI [of _ a']) simp
  qed
qed simp

section \<open>The invariant of a sender\<close>

text \<open>The outgoing stream holds the bytes of \<open>S\<close> that were written and not yet read.\<close>

definition out_stream_ok :: "(nat \<Rightarrow> u8) \<Rightarrow> nat \<Rightarrow> ByteStream \<Rightarrow> bool" where
  "out_stream_ok S L st \<longleftrightarrow> bs_inv st
     \<and> bs_content st = stretch S (unat (bs_alread st)) (length (bs_content st))
     \<and> unat (bs_alwritten st) = unat (bs_alread st) + length (bs_content st)
     \<and> unat (bs_alwritten st) \<le> L \<and> (bs_end st \<longrightarrow> unat (bs_alwritten st) = L)"

text \<open>
  The absolute number of the next byte counts the SYN, the bytes read from the stream and
  the FIN.
\<close>

definition sent_ok :: "TCPSender \<Rightarrow> bool" where
  "sent_ok s \<longleftrightarrow> (if sn_byte_sent s = 0 then bs_alread (sn_stream s) = 0 \<and> \<not> sn_eof s
       else unat (sn_byte_sent s) = 1 + unat (bs_alread (sn_stream s)) + (if sn_eof s then 1 else 0))
     \<and> (sn_eof s \<longrightarrow> bs_end (sn_stream s) \<and> bs_content (sn_stream s) = [])"

text \<open>
  The outstanding segments are consecutive pieces of the stream up to the next byte, and only
  the first of them can be acknowledged in part.
\<close>

definition outstanding_ok :: "(nat \<Rightarrow> u8) \<Rightarrow> nat \<Rightarrow> TCPSender \<Rightarrow> bool" where
  "outstanding_ok S L s \<longleftrightarrow> unat (sn_byte_received s) \<le> unat (sn_byte_sent s)
     \<and> unat (sn_byte_sent s) < unat (sn_byte_received s) + 65536
     \<and> (\<exists>a. seg_chain S L (sn_isn s) a (sn_unacked s) (unat (sn_byte_sent s)) \<and> a \<le> unat (sn_byte_received s)
          \<and> (sn_unacked s \<noteq> [] \<longrightarrow> unat (sn_byte_received s) < a + seg_len (hd (sn_unacked s))))"

definition queued_ok :: "(nat \<Rightarrow> u8) \<Rightarrow> nat \<Rightarrow> TCPSender \<Rightarrow> bool" where
  "queued_ok S L s \<longleftrightarrow> (\<forall>seg \<in> set (sn_segments_out s). seg_len seg = 0
     \<or> (\<exists>a. seg_genuine S L (sn_isn s) a seg \<and> a + seg_len seg \<le> unat (sn_byte_sent s)))"

text \<open>
  The timer runs exactly while segments are outstanding, and its timeout has doubled with
  every retransmission since the last new acknowledgment.
\<close>

definition timer_ok :: "TCPSender \<Rightarrow> bool" where
  "timer_ok s \<longleftrightarrow> (tm_active (sn_timer s) \<longleftrightarrow> sn_unacked s \<noteq> [])
     \<and> (\<exists>k. sn_consecutive_retrans s = of_nat k \<and> tm_rto (sn_timer s) = ucast (sn_initial_rto s) * 2 ^ k
          \<and> (sn_unacked s = [] \<longrightarrow> k = 0))"

definition sn_inv :: "(nat \<Rightarrow> u8) \<Rightarrow> nat \<Rightarrow> TCPSender \<Rightarrow> bool" where
  "sn_inv S L s \<longleftrightarrow> out_stream_ok S L (sn_stream s) \<and> sent_ok s \<and> outstanding_ok S L s \<and> queued_ok S L s
     \<and> timer_ok s"

lemma sn_inv_new: "sn_inv S L (TCPSender_new capacity retx isn random)"
  by (simp add: sn_inv_def TCPSender_new_def out_stream_ok_def sent_ok_def outstanding_ok_def queued_ok_def
      timer_ok_def Timer_new_def ByteStream_new_def bs_inv_def exI [of _ 0])

lemma in_flight_eq:
  "outstanding_ok S L s \<Longrightarrow> in_flight s = unat (sn_byte_sent s) - unat (sn_byte_received s)"
  by (simp add: in_flight_def TCPSender_bytes_in_flight_def outstanding_ok_def unat_sub_nowrap)

text \<open>The segment that \<open>fill_window\<close> adds is the next piece of the stream.\<close>

lemma fill_seg_len: "seg_len (fill_seg s) = fill_total s"
  using fill_len_bounds(3) [of s]
  by (simp add: seg_len_def fill_seg_def fill_total_def syn_len_def TCPHeader_new_def min_absorb2)

lemma sent_ok_index:
  assumes "sent_ok s" and "\<not> sn_eof s"
  shows "unat (sn_byte_sent s) - 1 = unat (bs_alread (sn_stream s))"
  using assms by (auto simp: sent_ok_def split: if_splits)

lemma fill_seg_genuine:
  assumes st: "out_stream_ok S L (sn_stream s)" and sent: "sent_ok s" and nd: "\<not> fill_done s"
  shows "seg_genuine S L (sn_isn s) (unat (sn_byte_sent s)) (fill_seg s)"
proof -
  let ?A = "unat (bs_alread (sn_stream s))" and ?C = "bs_content (sn_stream s)" and ?n = "fill_len s"
  have C: "?C = stretch S ?A (length ?C)" and W: "unat (bs_alwritten (sn_stream s)) = ?A + length ?C"
      and L: "?A + length ?C \<le> L" "bs_end (sn_stream s) \<longrightarrow> ?A + length ?C = L"
    using st unfolding out_stream_ok_def by auto
  have n: "?n \<le> length ?C" "?n \<le> 1000" using fill_len_bounds [of s] by simp_all
  have eof: "\<not> sn_eof s" using nd by (simp add: fill_done_def)
  have idx: "unat (sn_byte_sent s) - 1 = ?A" by (rule sent_ok_index [OF sent eof])
  have "take ?n ?C = stretch S ?A ?n" by (subst C) (simp add: stretch_take n(1) min_absorb1)
  moreover have "?A + ?n = L" if "fill_fin s" using that L n by (auto simp: fill_fin_def)
  moreover have "sn_byte_sent s = 0 \<longleftrightarrow> unat (sn_byte_sent s) = 0" by (simp add: unat_eq_0)
  ultimately show ?thesis
    using fill_total_pos [OF nd] L(1) n idx
    by (simp add: seg_genuine_def fill_seg_len) (simp add: fill_seg_def TCPHeader_new_def TCPSender_next_seqno_def min_absorb2)
qed

section \<open>Every operation keeps the invariant\<close>

lemma fill_next_stream:
  "bs_inv (sn_stream s) \<Longrightarrow> sn_stream (fill_next s) = ByteStream_pop_output (of_nat (fill_len s)) (sn_stream s)"
  using read_exact [OF fill_len_bounds(1) [of s]] by (simp add: fill_next_def read_eq)

lemma fill_next_out_stream_ok:
  assumes "out_stream_ok S L (sn_stream s)"
  shows "out_stream_ok S L (sn_stream (fill_next s))"
    and "unat (bs_alread (sn_stream (fill_next s))) = unat (bs_alread (sn_stream s)) + fill_len s"
proof -
  let ?st = "sn_stream s" and ?n = "fill_len s"
  have inv: "bs_inv ?st" and C: "bs_content ?st = stretch S (unat (bs_alread ?st)) (length (bs_content ?st))"
      and W: "unat (bs_alwritten ?st) = unat (bs_alread ?st) + length (bs_content ?st)"
    using assms unfolding out_stream_ok_def by blast+
  have n: "?n \<le> length (bs_content ?st)" by (rule fill_len_bounds(3))
  have small: "?n < 2 ^ 64" using fill_len_bounds(2) [of s] by simp
  have "unat (bs_alread ?st) + ?n < 2 ^ 64"
    using W n unsigned_less [of "bs_alwritten ?st", where 'a = nat] by simp
  then show A: "unat (bs_alread (sn_stream (fill_next s))) = unat (bs_alread ?st) + ?n"
    using small by (simp add: fill_next_def unat_add_nowrap unat_of_nat)
  have D: "drop ?n (bs_content ?st) = stretch S (unat (bs_alread ?st) + ?n) (length (bs_content ?st) - ?n)"
    by (subst C) (simp add: stretch_drop)
  have "bs_inv (sn_stream (fill_next s))" using inv by (simp add: fill_next_stream)
  moreover have "bs_content (sn_stream (fill_next s)) = drop ?n (bs_content ?st)"
    and "bs_alwritten (sn_stream (fill_next s)) = bs_alwritten ?st" and "bs_end (sn_stream (fill_next s)) = bs_end ?st"
    by (simp_all add: fill_next_def)
  ultimately show "out_stream_ok S L (sn_stream (fill_next s))"
    using assms A D W n unfolding out_stream_ok_def by simp
qed

lemma sent_bound:
  assumes "out_stream_ok S L (sn_stream s)" and "sent_ok s"
  shows "unat (sn_byte_sent s) \<le> L + 2"
  using assms by (auto simp: out_stream_ok_def sent_ok_def split: if_splits)

lemma fill_next_sent:
  assumes st: "out_stream_ok S L (sn_stream s)" and sent: "sent_ok s" and L: "L + 2 < 2 ^ 64" and nd: "\<not> fill_done s"
  shows "unat (sn_byte_sent (fill_next s)) = unat (sn_byte_sent s) + fill_total s" and "sent_ok (fill_next s)"
proof -
  let ?A = "unat (bs_alread (sn_stream s))" and ?n = "fill_len s"
  have eof: "\<not> sn_eof s" using nd by (simp add: fill_done_def)
  have "?A + ?n \<le> L" using fill_seg_genuine [OF st sent nd] sent_ok_index [OF sent eof] fill_len_bounds(3) [of s]
    by (simp add: seg_genuine_def fill_seg_def min_absorb2)
  moreover have tot: "unat (sn_byte_sent s) + fill_total s = 1 + ?A + ?n + (if fill_fin s then 1 else 0)"
    using sent eof by (auto simp: sent_ok_def fill_total_def syn_len_def unat_eq_0 split: if_splits)
  ultimately have small: "unat (sn_byte_sent s) + fill_total s < 2 ^ 64" using L by auto
  then show B: "unat (sn_byte_sent (fill_next s)) = unat (sn_byte_sent s) + fill_total s"
    by (simp add: fill_next_def unat_add_nowrap unat_of_nat)
  have "sn_byte_sent (fill_next s) \<noteq> 0" using B fill_total_pos [OF nd] by (metis add_is_0 less_numeral_extra(3) unat_0)
  moreover have "sn_eof (fill_next s) = fill_fin s" by (simp add: fill_next_def)
  moreover have "fill_fin s \<Longrightarrow> bs_end (sn_stream (fill_next s)) \<and> bs_content (sn_stream (fill_next s)) = []"
    by (simp add: fill_next_def fill_fin_def)
  ultimately show "sent_ok (fill_next s)"
    using B tot fill_next_out_stream_ok(2) [OF st] by (simp add: sent_ok_def)
qed

lemma fill_next_outstanding:
  assumes st: "out_stream_ok S L (sn_stream s)" and sent: "sent_ok s" and L: "L + 2 < 2 ^ 64" and nd: "\<not> fill_done s"
    and ok: "outstanding_ok S L s"
  shows "outstanding_ok S L (fill_next s)"
proof -
  note B = fill_next_sent(1) [OF st sent L nd]
  have free: "in_flight s < send_window s" using nd by (auto simp: fill_done_def)
  obtain a where a: "seg_chain S L (sn_isn s) a (sn_unacked s) (unat (sn_byte_sent s))" "a \<le> unat (sn_byte_received s)"
      "sn_unacked s \<noteq> [] \<longrightarrow> unat (sn_byte_received s) < a + seg_len (hd (sn_unacked s))"
    and le: "unat (sn_byte_received s) \<le> unat (sn_byte_sent s)"
    using ok unfolding outstanding_ok_def by blast
  have "seg_chain S L (sn_isn s) a (sn_unacked s @ [fill_seg s]) (unat (sn_byte_sent (fill_next s)))"
    using seg_chain_snoc [OF a(1) fill_seg_genuine [OF st sent nd]] by (simp add: B fill_seg_len)
  moreover have "sn_unacked s @ [fill_seg s] \<noteq> [] \<longrightarrow> unat (sn_byte_received s) < a + seg_len (hd (sn_unacked s @ [fill_seg s]))"
    using a le fill_total_pos [OF nd] by (cases "sn_unacked s") (simp_all add: fill_seg_len)
  moreover have "unat (sn_byte_sent (fill_next s)) < unat (sn_byte_received s) + 65536"
    using fill_total_fits [OF free] send_window_bound(2) [of s] in_flight_eq [OF ok] le B by linarith
  moreover have fields: "sn_isn (fill_next s) = sn_isn s" "sn_unacked (fill_next s) = sn_unacked s @ [fill_seg s]"
      "sn_byte_received (fill_next s) = sn_byte_received s"
    by (simp_all add: fill_next_def)
  moreover have "unat (sn_byte_received s) \<le> unat (sn_byte_sent (fill_next s))" using le B by simp
  ultimately show ?thesis using a(2) unfolding outstanding_ok_def fields by blast
qed

lemma fill_next_timer:
  assumes "timer_ok s"
  shows "timer_ok (fill_next s)"
proof -
  obtain k where act: "tm_active (sn_timer s) \<longleftrightarrow> sn_unacked s \<noteq> []"
      and k: "sn_consecutive_retrans s = of_nat k" "tm_rto (sn_timer s) = ucast (sn_initial_rto s) * 2 ^ k"
        "sn_unacked s = [] \<longrightarrow> k = 0"
    using assms unfolding timer_ok_def by blast
  have "tm_rto (sn_timer (fill_next s)) = ucast (sn_initial_rto s) * 2 ^ k"
    using act k(2,3) by (simp add: fill_next_def Timer_start_def Timer_rto_reset_def)
  moreover have "tm_active (sn_timer (fill_next s))" by (simp add: fill_next_def Timer_start_def)
  moreover have "sn_unacked (fill_next s) \<noteq> []" "sn_consecutive_retrans (fill_next s) = of_nat k"
      "sn_initial_rto (fill_next s) = sn_initial_rto s"
    by (simp_all add: fill_next_def k(1))
  ultimately show ?thesis unfolding timer_ok_def by auto
qed

lemma fill_next_inv:
  assumes inv: "sn_inv S L s" and L: "L + 2 < 2 ^ 64" and nd: "\<not> fill_done s"
  shows "sn_inv S L (fill_next s)"
proof -
  have st: "out_stream_ok S L (sn_stream s)" and sent: "sent_ok s" and ok: "outstanding_ok S L s"
      and q: "queued_ok S L s" and t: "timer_ok s"
    using inv unfolding sn_inv_def by blast+
  note B = fill_next_sent [OF st sent L nd]
  have "queued_ok S L (fill_next s)"
    unfolding queued_ok_def
  proof
    fix seg assume "seg \<in> set (sn_segments_out (fill_next s))"
    then consider "seg \<in> set (sn_segments_out s)" | "seg = fill_seg s" by (auto simp: fill_next_def)
    then show "seg_len seg = 0 \<or> (\<exists>a. seg_genuine S L (sn_isn (fill_next s)) a seg
        \<and> a + seg_len seg \<le> unat (sn_byte_sent (fill_next s)))"
    proof cases
      case 1
      then show ?thesis using q unfolding queued_ok_def by (auto simp: B(1)) (auto simp: fill_next_def intro: trans_le_add1)
    next
      case 2
      then show ?thesis using fill_seg_genuine [OF st sent nd] by (auto simp: B(1) fill_seg_len) (auto simp: fill_next_def)
    qed
  qed
  then show ?thesis
    using fill_next_out_stream_ok(1) [OF st] B(2) fill_next_outstanding [OF st sent L nd ok] fill_next_timer [OF t]
    by (simp add: sn_inv_def)
qed

lemma fill_window_inv:
  assumes "sn_inv S L s" and "L + 2 < 2 ^ 64"
  shows "sn_inv S L (TCPSender_fill_window s)"
  using assms(1) by (induction rule: fill_window_induct) (simp_all add: fill_next_inv [OF _ assms(2)])

text \<open>
  Dropping the acknowledged segments: what remains is a suffix of the queue whose first
  segment, if any, is not acknowledged as a whole.
\<close>

lemma pop_acked_chain:
  assumes "seg_chain S L isn a segs b" and "a \<le> unat ack" and "unat ack \<le> b" and "b < a + 2 ^ 31" and "b < 2 ^ 64"
  shows "\<exists>k a'. pop_acked isn ack ack segs = drop k segs \<and> k \<le> length segs
    \<and> seg_chain S L isn a (take k segs) a' \<and> seg_chain S L isn a' (drop k segs) b \<and> a' \<le> unat ack
    \<and> (drop k segs \<noteq> [] \<longrightarrow> unat ack < a' + seg_len (hd (drop k segs)))"
  using assms
proof (induction segs arbitrary: a)
  case (Cons seg segs)
  let ?e = "a + seg_len seg"
  have g: "seg_genuine S L isn a seg" and rest: "seg_chain S L isn ?e segs b" using Cons.prems(1) by auto
  have e: "?e \<le> b" by (rule seg_chain_le [OF rest])
  have a: "unat (of_nat a :: u64) = a" and e': "unat (of_nat ?e :: u64) = ?e"
    using e Cons.prems(5) by (simp_all add: unat_of_nat del: of_nat_add)
  have "unwrap (th_seqno (ts_header seg)) isn ack = of_nat a"
    using g Cons.prems(2-4) e a by (intro seqno.dec_unique) (simp_all add: seg_genuine_def)
  then have test: "unwrap (th_seqno (ts_header seg)) isn ack + TCPSegment_length_in_sequence_space seg \<le> ack
      \<longleftrightarrow> ?e \<le> unat ack"
    using e' by (simp add: length_in_sequence_space_word word_le_nat_alt)
  show ?case
  proof (cases "?e \<le> unat ack")
    case True
    then obtain k a' where "pop_acked isn ack ack segs = drop k segs" "k \<le> length segs"
        "seg_chain S L isn ?e (take k segs) a'" "seg_chain S L isn a' (drop k segs) b" "a' \<le> unat ack"
        "drop k segs \<noteq> [] \<longrightarrow> unat ack < a' + seg_len (hd (drop k segs))"
      using Cons.IH [OF rest] Cons.prems by fastforce
    then show ?thesis using g test True by (intro exI [of _ "Suc k"] exI [of _ a']) simp
  next
    case False
    then show ?thesis using Cons.prems test by (intro exI [of _ 0] exI [of _ a]) simp
  qed
qed simp

text \<open>The state in which \<open>ack_received\<close> fills the window, when the acknowledgment is new.\<close>

definition ack_advance :: "u64 \<Rightarrow> u16 \<Rightarrow> TCPSender \<Rightarrow> TCPSender" where
  "ack_advance n window_size s =
     (let segs = pop_acked (sn_isn s) n n (sn_unacked s);
          timer = Timer_rto_reset (sn_initial_rto s) (sn_timer s)
      in s\<lparr>sn_window_size := window_size, sn_consecutive_retrans := 0, sn_byte_received := n, sn_unacked := segs,
          sn_timer := if segs \<noteq> [] then Timer_start (sn_time s) timer else timer\<rparr>)"

lemma ack_received_cases:
  "TCPSender_ack_received ackno window_size s =
     (let n = unwrap ackno (sn_isn s) (sn_byte_received s)
      in if sn_byte_sent s < n then (False, s\<lparr>sn_window_size := window_size\<rparr>)
         else if n < sn_byte_received s then (True, s\<lparr>sn_window_size := window_size\<rparr>)
         else if n = sn_byte_received s then (True, TCPSender_fill_window (s\<lparr>sn_window_size := window_size\<rparr>))
         else (True, TCPSender_fill_window (ack_advance n window_size s)))"
  by (cases s) (simp add: TCPSender_ack_received_def ack_advance_def Let_def cong: if_cong)

lemma outstanding_span:
  assumes "seg_chain S L isn a segs b" and "r \<le> b" and "b < r + 65536"
    and "segs \<noteq> [] \<longrightarrow> r < a + seg_len (hd segs)"
  shows "b < a + 2 ^ 31"
proof (cases segs)
  case Nil
  with assms(1) show ?thesis by simp
next
  case (Cons seg rest)
  then have "seg_len seg \<le> 1002" using assms(1) seg_len_bound by auto
  with assms Cons show ?thesis by simp
qed

lemma ack_advance_inv:
  assumes inv: "sn_inv S L s" and n: "sn_byte_received s \<le> n" "n \<le> sn_byte_sent s"
  shows "sn_inv S L (ack_advance n window_size s)"
    and "\<exists>k a a'. sn_unacked (ack_advance n window_size s) = drop k (sn_unacked s)
      \<and> seg_chain S L (sn_isn s) a (take k (sn_unacked s)) a'
      \<and> seg_chain S L (sn_isn s) a' (drop k (sn_unacked s)) (unat (sn_byte_sent s)) \<and> a' \<le> unat n
      \<and> (drop k (sn_unacked s) \<noteq> [] \<longrightarrow> unat n < a' + seg_len (hd (drop k (sn_unacked s))))"
proof -
  let ?s = "ack_advance n window_size s"
  have fields: "sn_stream ?s = sn_stream s" "sn_byte_sent ?s = sn_byte_sent s" "sn_eof ?s = sn_eof s"
      "sn_isn ?s = sn_isn s" "sn_segments_out ?s = sn_segments_out s" "sn_byte_received ?s = n"
      "sn_unacked ?s = pop_acked (sn_isn s) n n (sn_unacked s)" "sn_consecutive_retrans ?s = of_nat 0"
      "sn_initial_rto ?s = sn_initial_rto s"
    by (simp_all add: ack_advance_def Let_def)
  have ok: "outstanding_ok S L s" using inv by (simp add: sn_inv_def)
  then obtain a where a: "seg_chain S L (sn_isn s) a (sn_unacked s) (unat (sn_byte_sent s))"
      "a \<le> unat (sn_byte_received s)"
      "sn_unacked s \<noteq> [] \<longrightarrow> unat (sn_byte_received s) < a + seg_len (hd (sn_unacked s))"
    and r: "unat (sn_byte_received s) \<le> unat (sn_byte_sent s)"
      "unat (sn_byte_sent s) < unat (sn_byte_received s) + 65536"
    unfolding outstanding_ok_def by blast
  have sent_lt: "unat (sn_byte_sent s) < 2 ^ 64" by simp
  have le: "unat (sn_byte_received s) \<le> unat n" "unat n \<le> unat (sn_byte_sent s)"
    using n by (simp_all add: word_le_nat_alt)
  obtain k a' where k: "pop_acked (sn_isn s) n n (sn_unacked s) = drop k (sn_unacked s)"
      "seg_chain S L (sn_isn s) a (take k (sn_unacked s)) a'"
      "seg_chain S L (sn_isn s) a' (drop k (sn_unacked s)) (unat (sn_byte_sent s))" "a' \<le> unat n"
      "drop k (sn_unacked s) \<noteq> [] \<longrightarrow> unat n < a' + seg_len (hd (drop k (sn_unacked s)))"
    using pop_acked_chain [OF a(1) le_trans [OF a(2) le(1)] le(2) outstanding_span [OF a(1) r a(3)] sent_lt] by blast
  then show "\<exists>k a a'. sn_unacked ?s = drop k (sn_unacked s)
      \<and> seg_chain S L (sn_isn s) a (take k (sn_unacked s)) a'
      \<and> seg_chain S L (sn_isn s) a' (drop k (sn_unacked s)) (unat (sn_byte_sent s)) \<and> a' \<le> unat n
      \<and> (drop k (sn_unacked s) \<noteq> [] \<longrightarrow> unat n < a' + seg_len (hd (drop k (sn_unacked s))))"
    unfolding fields by blast
  have "unat (sn_byte_sent s) < unat n + 65536" using le(1) r(2) by simp
  then have "outstanding_ok S L ?s"
    unfolding outstanding_ok_def fields k(1) using le(2) k(3-5) by blast
  moreover have "timer_ok ?s"
    unfolding timer_ok_def fields
    by (simp add: ack_advance_def Let_def Timer_start_def Timer_rto_reset_def exI [of _ 0])
  ultimately show "sn_inv S L ?s"
    using inv by (simp add: sn_inv_def sent_ok_def queued_ok_def fields)
qed

text \<open>The parts of the invariant that an update of the stream or of the queue leaves alone.\<close>

lemma update_simps [simp]:
  "outstanding_ok S L (s\<lparr>sn_stream := st\<rparr>) = outstanding_ok S L s"
  "queued_ok S L (s\<lparr>sn_stream := st\<rparr>) = queued_ok S L s"
  "timer_ok (s\<lparr>sn_stream := st\<rparr>) = timer_ok s"
  "outstanding_ok S L (s\<lparr>sn_segments_out := q\<rparr>) = outstanding_ok S L s"
  "sent_ok (s\<lparr>sn_segments_out := q\<rparr>) = sent_ok s"
  "timer_ok (s\<lparr>sn_segments_out := q\<rparr>) = timer_ok s"
  by (simp_all add: outstanding_ok_def queued_ok_def timer_ok_def sent_ok_def)

lemma sn_inv_window [simp]: "sn_inv S L (s\<lparr>sn_window_size := w\<rparr>) = sn_inv S L s"
  by (simp add: sn_inv_def sent_ok_def outstanding_ok_def queued_ok_def timer_ok_def)

lemma ack_received_inv:
  assumes "sn_inv S L s" and "L + 2 < 2 ^ 64"
  shows "sn_inv S L (snd (TCPSender_ack_received ackno window_size s))"
  using assms
  by (auto simp: ack_received_cases Let_def not_less intro: fill_window_inv ack_advance_inv(1))

lemma send_empty_segment_inv:
  assumes "sn_inv S L s"
  shows "sn_inv S L (TCPSender_send_empty_segment s)"
  using assms
  by (auto simp: sn_inv_def sent_ok_def outstanding_ok_def queued_ok_def timer_ok_def TCPSender_send_empty_segment_def
      Let_def seg_len_def TCPSegment_new_def TCPHeader_new_def)

text \<open>The state after a retransmission.\<close>

definition retransmit :: "size_t \<Rightarrow> TCPSender \<Rightarrow> TCPSender" where
  "retransmit now s = s\<lparr>sn_time := now, sn_segments_out := sn_segments_out s @ [hd (sn_unacked s)],
     sn_consecutive_retrans := sn_consecutive_retrans s + 1,
     sn_timer := Timer_start now (Timer_rto_double (sn_timer s))\<rparr>"

lemma tick_step:
  assumes act: "tm_active (sn_timer s) \<longleftrightarrow> sn_unacked s \<noteq> []"
    and k: "tm_rto (sn_timer s) = ucast (sn_initial_rto s) * 2 ^ k"
  shows "TCPSender_tick ms s = Inr (let now = sn_time s + ms in
      if sn_unacked s = [] then s\<lparr>sn_time := now\<rparr>
      else if ucast (sn_initial_rto s) * 2 ^ k \<le> now - tm_start_time (sn_timer s) then retransmit now s
      else s\<lparr>sn_time := now, sn_timer := Timer_update_time now (sn_timer s)\<rparr>)"
  using act k unfolding TCPSender_tick_def retransmit_def
  by (cases "sn_unacked s") (auto simp: Timer_update_time_def Timer_timeout_def Timer_start_def Timer_rto_double_def Let_def)

lemma retransmit_inv:
  assumes inv: "sn_inv S L s" and ne: "sn_unacked s \<noteq> []"
  shows "sn_inv S L (retransmit now s)"
proof -
  obtain k where k: "sn_consecutive_retrans s = of_nat k" "tm_rto (sn_timer s) = ucast (sn_initial_rto s) * 2 ^ k"
    using inv unfolding sn_inv_def timer_ok_def by blast
  have "timer_ok (retransmit now s)"
    unfolding timer_ok_def using ne k
    by (auto simp: retransmit_def Timer_start_def Timer_rto_double_def intro!: exI [of _ "Suc k"])
  moreover obtain a where "seg_chain S L (sn_isn s) a (sn_unacked s) (unat (sn_byte_sent s))"
    using inv unfolding sn_inv_def outstanding_ok_def by blast
  from seg_chain_member [OF this hd_in_set [OF ne]]
  obtain a' where "seg_genuine S L (sn_isn s) a' (hd (sn_unacked s))"
      "a' + seg_len (hd (sn_unacked s)) \<le> unat (sn_byte_sent s)" by blast
  then have "queued_ok S L (retransmit now s)"
    using inv by (auto simp: sn_inv_def queued_ok_def retransmit_def)
  ultimately show ?thesis
    using inv by (simp add: sn_inv_def sent_ok_def outstanding_ok_def retransmit_def)
qed

lemma sn_inv_clock:
  assumes "sn_inv S L s"
  shows "sn_inv S L (s\<lparr>sn_time := now\<rparr>)"
    and "sn_inv S L (s\<lparr>sn_time := now, sn_timer := Timer_update_time now (sn_timer s)\<rparr>)"
  using assms
  by (simp_all add: sn_inv_def sent_ok_def outstanding_ok_def queued_ok_def timer_ok_def Timer_update_time_def)

lemma tick_inv:
  assumes "sn_inv S L s"
  shows "\<exists>s'. TCPSender_tick ms s = Inr s' \<and> sn_inv S L s'"
proof -
  obtain k where "tm_active (sn_timer s) \<longleftrightarrow> sn_unacked s \<noteq> []"
      "tm_rto (sn_timer s) = ucast (sn_initial_rto s) * 2 ^ k"
    using assms unfolding sn_inv_def timer_ok_def by blast
  from tick_step [OF this, of ms] show ?thesis
    using assms by (auto simp: Let_def retransmit_inv sn_inv_clock)
qed

text \<open>The writer of the stream: the next bytes of \<open>S\<close>, and the end after \<open>L\<close> bytes.\<close>

lemma write_inv:
  assumes inv: "sn_inv S L s" and L: "L + 2 < 2 ^ 64" and ne: "\<not> bs_end (sn_stream s)"
    and data: "data = stretch S (unat (bs_alwritten (sn_stream s))) n" "unat (bs_alwritten (sn_stream s)) + n \<le> L"
  shows "sn_inv S L (s\<lparr>sn_stream := snd (ByteStream_write data (sn_stream s))\<rparr>)"
proof -
  let ?st = "sn_stream s" and ?st' = "snd (ByteStream_write data (sn_stream s))"
  let ?m = "min (bs_room ?st) n"
  have st: "bs_inv ?st" "bs_content ?st = stretch S (unat (bs_alread ?st)) (length (bs_content ?st))"
      "unat (bs_alwritten ?st) = unat (bs_alread ?st) + length (bs_content ?st)"
    using inv unfolding sn_inv_def out_stream_ok_def by blast+
  have "length data = n" by (simp add: data)
  then have fits: "fits data" using data L by (simp add: fits_def)
  have take: "take (bs_room ?st) data = stretch S (unat (bs_alwritten ?st)) ?m"
    by (simp add: data stretch_take)
  have content: "bs_content ?st' = stretch S (unat (bs_alread ?st)) (length (bs_content ?st) + ?m)"
    unfolding write_content [OF st(1) fits] take by (subst st(2)) (simp add: st(3) stretch_append)
  have inv': "bs_inv ?st'" using st(1) fits by simp
  have wr: "bs_alwritten ?st' = bs_alwritten ?st + of_nat ?m"
    using inv' st(1) fits content by (simp add: bs_inv_def sz_def)
  have "unat (bs_alwritten ?st) + ?m < 2 ^ 64" using data(2) L by simp
  then have wr': "unat (bs_alwritten ?st') = unat (bs_alwritten ?st) + ?m"
    unfolding wr by (subst unat_add_nowrap) (simp_all add: unat_of_nat)
  have "out_stream_ok S L ?st'"
    using inv' content wr' st(3) data(2) ne by (simp add: out_stream_ok_def)
  moreover have "\<not> sn_eof s" using inv ne by (auto simp: sn_inv_def sent_ok_def)
  ultimately show ?thesis
    using inv by (simp add: sn_inv_def sent_ok_def outstanding_ok_def queued_ok_def timer_ok_def)
qed

lemma end_input_inv:
  assumes "sn_inv S L s" and "unat (bs_alwritten (sn_stream s)) = L"
  shows "sn_inv S L (s\<lparr>sn_stream := ByteStream_end_input (sn_stream s)\<rparr>)"
proof -
  have "out_stream_ok S L (ByteStream_end_input (sn_stream s))"
    using assms by (simp add: sn_inv_def out_stream_ok_def)
  moreover have "sent_ok (s\<lparr>sn_stream := ByteStream_end_input (sn_stream s)\<rparr>)"
    using assms(1) by (auto simp: sn_inv_def sent_ok_def)
  ultimately show ?thesis using assms(1) by (simp add: sn_inv_def)
qed

lemma set_error_inv:
  assumes "sn_inv S L s"
  shows "sn_inv S L (s\<lparr>sn_stream := ByteStream_set_error (sn_stream s)\<rparr>)"
proof -
  have "out_stream_ok S L (ByteStream_set_error (sn_stream s))"
    using assms by (auto simp: sn_inv_def out_stream_ok_def)
  moreover have "sent_ok (s\<lparr>sn_stream := ByteStream_set_error (sn_stream s)\<rparr>)"
    using assms by (auto simp: sn_inv_def sent_ok_def)
  ultimately show ?thesis using assms by (simp add: sn_inv_def)
qed

lemma take_queue_inv:
  assumes "sn_inv S L s"
  shows "sn_inv S L (s\<lparr>sn_segments_out := drop n (sn_segments_out s)\<rparr>)"
proof -
  have "queued_ok S L (s\<lparr>sn_segments_out := drop n (sn_segments_out s)\<rparr>)"
    using assms by (auto simp: sn_inv_def queued_ok_def dest: in_set_dropD)
  with assms show ?thesis by (simp add: sn_inv_def)
qed

section \<open>Runs of a sender\<close>

text \<open>
  \<open>sn_reach S L s\<close>: the sender \<open>s\<close> results from a new one by any sequence of calls, in which
  the application writes the stream \<open>S\<close> and ends it after \<open>L\<close> bytes. The acknowledgments and
  the times are arbitrary.
\<close>

inductive sn_reach :: "(nat \<Rightarrow> u8) \<Rightarrow> nat \<Rightarrow> TCPSender \<Rightarrow> bool" for S L where
  new: "sn_reach S L (TCPSender_new capacity retx_timeout fixed_isn random)"
| fill: "sn_reach S L s \<Longrightarrow> sn_reach S L (TCPSender_fill_window s)"
| ack: "sn_reach S L s \<Longrightarrow> sn_reach S L (snd (TCPSender_ack_received ackno window_size s))"
| tick: "sn_reach S L s \<Longrightarrow> TCPSender_tick ms s = Inr s' \<Longrightarrow> sn_reach S L s'"
| empty: "sn_reach S L s \<Longrightarrow> sn_reach S L (TCPSender_send_empty_segment s)"
| pop: "sn_reach S L s \<Longrightarrow> sn_reach S L (s\<lparr>sn_segments_out := drop n (sn_segments_out s)\<rparr>)"
| put: "sn_reach S L s \<Longrightarrow> \<not> bs_end (sn_stream s) \<Longrightarrow>
    data = stretch S (unat (bs_alwritten (sn_stream s))) n \<Longrightarrow> unat (bs_alwritten (sn_stream s)) + n \<le> L \<Longrightarrow>
    sn_reach S L (s\<lparr>sn_stream := snd (ByteStream_write data (sn_stream s))\<rparr>)"
| end_input: "sn_reach S L s \<Longrightarrow> unat (bs_alwritten (sn_stream s)) = L \<Longrightarrow>
    sn_reach S L (s\<lparr>sn_stream := ByteStream_end_input (sn_stream s)\<rparr>)"
| set_error: "sn_reach S L s \<Longrightarrow> sn_reach S L (s\<lparr>sn_stream := ByteStream_set_error (sn_stream s)\<rparr>)"

lemma sn_reach_inv:
  assumes "sn_reach S L s" and L: "L + 2 < 2 ^ 64"
  shows "sn_inv S L s"
  using assms(1)
proof induction
  case (tick s ms s')
  then show ?case using tick_inv [of S L s ms] by auto
next
  case (put s data n)
  then show ?case using write_inv [OF _ L] by blast
qed (simp_all add: sn_inv_new fill_window_inv [OF _ L] ack_received_inv [OF _ L] send_empty_segment_inv take_queue_inv
    end_input_inv set_error_inv)

text \<open>
  The initial sequence number stays and the next sequence number never decreases, so a piece
  of what was sent remains one.
\<close>

definition piece :: "(nat \<Rightarrow> u8) \<Rightarrow> nat \<Rightarrow> TCPSender \<Rightarrow> TCPSegment \<Rightarrow> bool" where
  "piece S L s seg \<longleftrightarrow> seg_len seg = 0
     \<or> (\<exists>a. seg_genuine S L (sn_isn s) a seg \<and> a + seg_len seg \<le> unat (sn_byte_sent s))"

definition sn_adv :: "TCPSender \<Rightarrow> TCPSender \<Rightarrow> bool" where
  "sn_adv s s' \<longleftrightarrow> sn_isn s' = sn_isn s \<and> unat (sn_byte_sent s) \<le> unat (sn_byte_sent s')"

lemma piece_adv: "piece S L s seg \<Longrightarrow> sn_adv s s' \<Longrightarrow> piece S L s' seg"
  by (auto simp: piece_def sn_adv_def intro: le_trans)

lemma queued_piece: "sn_inv S L s \<Longrightarrow> seg \<in> set (sn_segments_out s) \<Longrightarrow> piece S L s seg"
  by (auto simp: sn_inv_def queued_ok_def piece_def)

lemma fill_window_adv:
  assumes "sn_inv S L s" and L: "L + 2 < 2 ^ 64"
  shows "sn_adv s (TCPSender_fill_window s)"
proof -
  have "sn_inv S L (TCPSender_fill_window s) \<and> sn_adv s (TCPSender_fill_window s)"
  proof (induction rule: fill_window_induct)
    case base
    show ?case using assms(1) by (simp add: sn_adv_def)
  next
    case (step s')
    then have "unat (sn_byte_sent (fill_next s')) = unat (sn_byte_sent s') + fill_total s'"
      by (intro fill_next_sent(1) [OF _ _ L step(2)]) (auto simp: sn_inv_def)
    moreover have "sn_isn (fill_next s') = sn_isn s'" by (simp add: fill_next_def)
    ultimately show ?case using step fill_next_inv [OF _ L step(2)] by (auto simp: sn_adv_def)
  qed
  then show ?thesis by blast
qed

lemma ack_received_adv:
  assumes inv: "sn_inv S L s" and L: "L + 2 < 2 ^ 64"
  shows "sn_adv s (snd (TCPSender_ack_received ackno window_size s))"
proof -
  have win: "sn_adv s (TCPSender_fill_window (s\<lparr>sn_window_size := window_size\<rparr>))"
    using fill_window_adv [OF _ L, of S "s\<lparr>sn_window_size := window_size\<rparr>"] inv by (simp add: sn_adv_def)
  have adv: "sn_adv s (TCPSender_fill_window (ack_advance n window_size s))"
    if "sn_byte_received s \<le> n" "n \<le> sn_byte_sent s" for n
    using fill_window_adv [OF ack_advance_inv(1) [OF inv that] L, of window_size]
    by (simp add: sn_adv_def ack_advance_def Let_def)
  show ?thesis using win adv by (auto simp: ack_received_cases Let_def not_less) (simp_all add: sn_adv_def)
qed

lemma tick_adv:
  assumes "TCPSender_tick ms s = Inr s'"
  shows "sn_adv s s'"
  using assms by (auto simp: TCPSender_tick_def Let_def sn_adv_def split: if_splits list.splits)

text \<open>The segments that one call of \<open>fill_window\<close> adds.\<close>

definition fill_adds :: "TCPSender \<Rightarrow> TCPSegment list \<Rightarrow> TCPSender \<Rightarrow> bool" where
  "fill_adds s segs s' \<longleftrightarrow> sn_segments_out s' = sn_segments_out s @ segs \<and> sn_unacked s' = sn_unacked s @ segs
     \<and> concat (map ts_payload segs) @ bs_content (sn_stream s') = bs_content (sn_stream s)
     \<and> sn_byte_sent s' = sn_byte_sent s + of_nat (sum_list (map seg_len segs))"

lemma fill_adds_next:
  assumes "fill_adds s0 segs s"
  shows "fill_adds s0 (segs @ [fill_seg s]) (fill_next s)"
proof -
  have "ts_payload (fill_seg s) = take (fill_len s) (bs_content (sn_stream s))" by (simp add: fill_seg_def)
  then show ?thesis using assms by (simp add: fill_adds_def fill_seg_len) (simp add: fill_next_def add.assoc)
qed

lemma fill_window_adds: "\<exists>segs. fill_adds s segs (TCPSender_fill_window s)"
proof (induction rule: fill_window_induct)
  case base
  show ?case by (rule exI [of _ "[]"]) (simp add: fill_adds_def)
next
  case (step s')
  then show ?case using fill_adds_next by blast
qed

lemma fill_window_bound:
  "send_window (TCPSender_fill_window s) = send_window s
    \<and> in_flight (TCPSender_fill_window s) \<le> max (in_flight s) (send_window s)"
proof (induction rule: fill_window_induct)
  case (step s')
  then have "in_flight s' < send_window s'" by (auto simp: fill_done_def)
  from fill_total_fits [OF this] step show ?case
    using fill_next_progress [OF step(2)] by (auto simp: max_def split: if_splits)
qed simp

lemma fill_done_reason:
  assumes "fill_done s" and "bs_inv (sn_stream s)"
  shows "sn_eof s \<or> send_window s \<le> in_flight s
    \<or> sn_byte_sent s \<noteq> 0 \<and> bs_content (sn_stream s) = [] \<and> \<not> bs_end (sn_stream s)"
proof (cases "sn_eof s \<or> send_window s \<le> in_flight s")
  case False
  with assms(1) have "syn_len s = 0" "fill_len s = 0" "\<not> ByteStream_eof (sn_stream s)"
    by (auto simp: fill_done_def)
  with False assms(2) show ?thesis
    by (auto simp: fill_len_def syn_len_def ByteStream_accessors min_def split: if_splits)
qed auto

section \<open>What the sender promises\<close>

text \<open>A run that the statements below are evaluated on: the SYN, two bytes, and their segment.\<close>

definition sender_started :: TCPSender where
  "sender_started = TCPSender_fill_window (TCPSender_new 64000 1000 (Some (WrappingInt32 4294967295)) 0)"

definition sender_written :: TCPSender where
  "sender_written = sender_started\<lparr>sn_stream := snd (ByteStream_write [5, 6] (sn_stream sender_started))\<rparr>"

definition sender_acked :: TCPSender where
  "sender_acked = snd (TCPSender_ack_received (WrappingInt32 0) 10 sender_written)"

definition sender_state :: "TCPSender \<Rightarrow> nat \<times> nat \<times> (WrappingInt32 \<times> bool \<times> bool \<times> bytes) list" where
  "sender_state s = (unat (sn_byte_sent s), unat (sn_byte_received s),
     map (\<lambda>seg. (th_seqno (ts_header seg), th_syn (ts_header seg), th_fin (ts_header seg), ts_payload seg)) (sn_segments_out s))"

lemma sender_started_eval: "unat (bs_alwritten (sn_stream sender_started)) = 0" "\<not> bs_end (sn_stream sender_started)"
  by code_simp+

lemma sender_written_reach: "sn_reach (\<lambda>i. of_nat i + 5) 2 sender_written"
  unfolding sender_written_def
proof (rule sn_reach.put [where n = 2])
  show "sn_reach (\<lambda>i. of_nat i + 5) 2 sender_started" unfolding sender_started_def by (intro sn_reach.intros)
  show "\<not> bs_end (sn_stream sender_started)" by (rule sender_started_eval)
qed (simp_all add: sender_started_eval stretch_def numeral_2_eq_2)

lemma sender_acked_reach: "sn_reach (\<lambda>i. of_nat i + 5) 2 sender_acked"
  unfolding sender_acked_def by (intro sn_reach.ack sender_written_reach)

lemma sender_acked_state: "sender_state sender_acked
    = (3, 1, [(WrappingInt32 4294967295, True, False, []), (WrappingInt32 0, False, False, [5, 6])])"
  by code_simp

text \<open>
  C17. In every run of a sender whose application writes the stream \<open>S\<close> of \<open>L\<close> bytes, every
  queued segment that occupies sequence numbers is a piece of that stream: its sequence
  number encodes the position of its payload, the payload are the bytes of \<open>S\<close> there, the
  SYN flag is set exactly at position 0 and the FIN flag only at the end of the stream. The
  outstanding segments are consecutive pieces that end at the next sequence number.
\<close>

theorem sender_segments_are_pieces:
  assumes "sn_reach S L s" and "L + 2 < 2 ^ 64"
  shows "(\<forall>seg \<in> set (sn_segments_out s). seg_len seg = 0
      \<or> (\<exists>a. seg_genuine S L (sn_isn s) a seg \<and> a + seg_len seg \<le> unat (TCPSender_next_seqno_absolute s)))
    \<and> (\<exists>a. a \<le> unat (sn_byte_received s) \<and> in_flight s = unat (sn_byte_sent s) - unat (sn_byte_received s)
        \<and> seg_chain S L (sn_isn s) a (sn_unacked s) (unat (TCPSender_next_seqno_absolute s)))"
proof -
  have inv: "sn_inv S L s" by (rule sn_reach_inv [OF assms])
  then have ok: "outstanding_ok S L s" and q: "queued_ok S L s" by (simp_all add: sn_inv_def)
  from ok q show ?thesis
    using in_flight_eq [OF ok] unfolding TCPSender_next_seqno_absolute_def
    by (auto simp: outstanding_ok_def queued_ok_def)
qed

theorem sender_segments_are_pieces_witness:
  "\<exists>seg a. seg \<in> set (sn_segments_out sender_acked) \<and> ts_payload seg = [5, 6]
    \<and> seg_genuine (\<lambda>i. of_nat i + 5) 2 (sn_isn sender_acked) a seg"
proof -
  have "sn_segments_out sender_acked = [TCPSegment_new\<lparr>ts_header := TCPHeader_new\<lparr>th_seqno := WrappingInt32 4294967295,
      th_syn := True\<rparr>\<rparr>, TCPSegment_new\<lparr>ts_payload := [5, 6]\<rparr>]" by code_simp
  then have "TCPSegment_new\<lparr>ts_payload := [5, 6]\<rparr> \<in> set (sn_segments_out sender_acked)" by simp
  moreover from this have "\<exists>a. seg_genuine (\<lambda>i. of_nat i + 5) 2 (sn_isn sender_acked) a (TCPSegment_new\<lparr>ts_payload := [5, 6]\<rparr>)"
    using sender_segments_are_pieces [OF sender_acked_reach] by (auto simp: seg_len_def TCPSegment_new_def)
  ultimately show ?thesis by (auto simp: TCPSegment_new_def)
qed

text \<open>
  C18. One call of \<open>fill_window\<close> ends; it sends segments whose payloads are the next bytes of
  the outgoing stream, in order, and adds them to the outstanding ones. It never has more in
  flight than the window, a closed window counting as one (or than before the call), and it
  stops only when the FIN is sent, the window is full, or nothing is left to send.
\<close>

theorem fill_window_flow_control:
  assumes "sn_reach S L s" and "L + 2 < 2 ^ 64" and "s' = TCPSender_fill_window s"
  shows "(\<exists>segs. sn_segments_out s' = sn_segments_out s @ segs \<and> sn_unacked s' = sn_unacked s @ segs
        \<and> concat (map ts_payload segs) @ bs_content (sn_stream s') = bs_content (sn_stream s))
    \<and> in_flight s' \<le> max (in_flight s) (send_window s)
    \<and> (TCPSender_fin_sent s' \<or> send_window s \<le> in_flight s'
       \<or> sn_byte_sent s' \<noteq> 0 \<and> bs_content (sn_stream s') = [] \<and> \<not> bs_end (sn_stream s'))"
proof -
  have "sn_inv S L s'" unfolding assms(3) by (intro fill_window_inv sn_reach_inv [OF assms(1,2)] assms(2))
  then have "bs_inv (sn_stream s')" by (simp add: sn_inv_def out_stream_ok_def)
  from fill_done_reason [OF _ this] fill_window_done [of s] fill_window_bound [of s]
  show ?thesis using fill_window_adds [of s]
    by (auto simp: assms(3) fill_adds_def TCPSender_fin_sent_def)
qed

theorem fill_window_flow_control_witness:
  "in_flight (TCPSender_fill_window sender_written) = 1 \<and> send_window sender_written = 1
    \<and> sn_segments_out (TCPSender_fill_window sender_written) \<noteq> []"
proof (intro conjI)
  show "in_flight (TCPSender_fill_window sender_written) = 1" by code_simp
  show "send_window sender_written = 1" by code_simp
  have "sn_segments_out sender_written \<noteq> []" by code_simp
  then show "sn_segments_out (TCPSender_fill_window sender_written) \<noteq> []"
    using fill_window_flow_control [OF sender_written_reach _ refl] by auto
qed

text \<open>
  C19. An acknowledgment of the absolute number \<open>n\<close> is refused exactly if \<open>n\<close> is beyond what
  was sent; an old one changes only the window. A new one becomes the lower end of the
  flight and removes from the front of the outstanding queue exactly the segments that end
  at or before \<open>n\<close>; the window is then filled behind the remaining ones.
\<close>

theorem ack_received_contract:
  assumes "sn_reach S L s" and "L + 2 < 2 ^ 64"
    and "unat n < unat (sn_byte_received s) + 2147483648" and "unat (sn_byte_received s) < unat n + 2147483648"
    and "TCPSender_ack_received (wrap n (sn_isn s)) window_size s = (valid, s')"
  shows "(valid \<longleftrightarrow> n \<le> sn_byte_sent s)
    \<and> (sn_byte_sent s < n \<or> n < sn_byte_received s \<longrightarrow> s' = s\<lparr>sn_window_size := window_size\<rparr>)
    \<and> (sn_byte_received s < n \<and> n \<le> sn_byte_sent s \<longrightarrow> sn_byte_received s' = n
        \<and> (\<exists>k a a' segs. sn_unacked s' = drop k (sn_unacked s) @ segs
             \<and> seg_chain S L (sn_isn s) a (take k (sn_unacked s)) a'
             \<and> seg_chain S L (sn_isn s) a' (drop k (sn_unacked s)) (unat (sn_byte_sent s)) \<and> a' \<le> unat n
             \<and> (drop k (sn_unacked s) \<noteq> [] \<longrightarrow> unat n < a' + seg_len (hd (drop k (sn_unacked s))))))"
proof -
  have inv: "sn_inv S L s" by (rule sn_reach_inv [OF assms(1,2)])
  have n: "unwrap (wrap n (sn_isn s)) (sn_isn s) (sn_byte_received s) = n"
    using assms(3,4) by (intro seqno.dec_enc) simp_all
  have r: "sn_byte_received s \<le> sn_byte_sent s"
    using inv by (simp add: sn_inv_def outstanding_ok_def word_le_nat_alt)
  note res = assms(5) [unfolded ack_received_cases n Let_def]
  show ?thesis
  proof (cases "sn_byte_received s < n \<and> n \<le> sn_byte_sent s")
    case True
    then have s': "s' = TCPSender_fill_window (ack_advance n window_size s)" "valid"
      using res by (auto split: if_splits)
    have "sn_byte_received (TCPSender_fill_window (ack_advance n window_size s)) = n"
      by (induction rule: fill_window_induct) (simp_all add: ack_advance_def fill_next_def Let_def)
    moreover obtain segs where "sn_unacked s' = sn_unacked (ack_advance n window_size s) @ segs"
      using fill_window_adds [of "ack_advance n window_size s"] by (auto simp: s'(1) fill_adds_def)
    moreover obtain k a a' where "sn_unacked (ack_advance n window_size s) = drop k (sn_unacked s)"
        "seg_chain S L (sn_isn s) a (take k (sn_unacked s)) a'"
        "seg_chain S L (sn_isn s) a' (drop k (sn_unacked s)) (unat (sn_byte_sent s))" "a' \<le> unat n"
        "drop k (sn_unacked s) \<noteq> [] \<longrightarrow> unat n < a' + seg_len (hd (drop k (sn_unacked s)))"
      using ack_advance_inv(2) [OF inv order_less_imp_le [OF conjunct1 [OF True]] conjunct2 [OF True]] by blast
    ultimately have "sn_byte_received s' = n" and "\<exists>k a a' segs. sn_unacked s' = drop k (sn_unacked s) @ segs
             \<and> seg_chain S L (sn_isn s) a (take k (sn_unacked s)) a'
             \<and> seg_chain S L (sn_isn s) a' (drop k (sn_unacked s)) (unat (sn_byte_sent s)) \<and> a' \<le> unat n
             \<and> (drop k (sn_unacked s) \<noteq> [] \<longrightarrow> unat n < a' + seg_len (hd (drop k (sn_unacked s))))"
      unfolding s'(1) by (simp, metis)
    then show ?thesis using True s'(2) by auto
  next
    case False
    then show ?thesis using res r by (auto split: if_splits)
  qed
qed

theorem ack_received_contract_witness:
  "\<exists>s'. TCPSender_ack_received (wrap 1 (sn_isn sender_written)) 10 sender_written = (True, s')
    \<and> sn_byte_received s' = 1"
proof -
  obtain valid s' where res: "TCPSender_ack_received (wrap 1 (sn_isn sender_written)) 10 sender_written = (valid, s')"
    by fastforce
  have "sn_byte_received sender_written = 0" "sn_byte_sent sender_written = 1" by code_simp+
  with ack_received_contract [OF sender_written_reach _ _ _ res] res show ?thesis by auto
qed



section \<open>Behaviour with a closed window\<close>

text \<open>
  The window is closed and its one byte is lost: the timeout doubles all the same, so that a
  probe is missing one timeout after the first retransmission.
\<close>

theorem zero_window_backs_off:
  "let s = snd (TCPSender_ack_received (WrappingInt32 0) 0 sender_written)
   in case TCPSender_tick 1000 s of Inl e \<Rightarrow> False
      | Inr s1 \<Rightarrow> length (sn_segments_out s1) = length (sn_segments_out s) + 1
          \<and> (case TCPSender_tick 1000 s1 of Inl e \<Rightarrow> False | Inr s2 \<Rightarrow> sn_segments_out s2 = sn_segments_out s1)"
  by code_simp

text \<open>
  An acknowledgment that is older than the last one still replaces the window, so the sender
  then fills a window that the receiver did not offer: here four bytes beyond it.
\<close>

theorem stale_ack_opens_window:
  "let s = snd (TCPSender_ack_received (WrappingInt32 0) 6 sender_written);
       s = snd (TCPSender_ack_received (WrappingInt32 2) 0 s);
       s = snd (TCPSender_ack_received (WrappingInt32 0) 6 s);
       s = TCPSender_fill_window (s\<lparr>sn_stream := snd (ByteStream_write [7, 8, 9, 10] (sn_stream s))\<rparr>)
   in unat (sn_byte_received s) = 3 \<and> unat (sn_byte_sent s) = 7"
  by code_simp

end
