(* ===== verification/Stream_Reassembler.thy ===== *)
theory Stream_Reassembler
  imports Byte_Stream
begin

text \<open>
  The stream reassembler of \<^verbatim>\<open>src/libsponge/stream_reassembler.hh\<close> and
  \<^verbatim>\<open>stream_reassembler.cc\<close>. Indices are \<open>size_t\<close> words, as in the code, and every
  \<open>substr\<close> that can throw does so in the model. The state keeps a list of pending
  substrings ordered by their first index. The theory shows that, for substrings of one
  byte sequence that start inside the window, a push never throws, keeps the list sorted
  and disjoint, remembers exactly the bytes of the window received so far and hands the
  longest possible prefix to the output.
\<close>

section \<open>State\<close>

record inforsubstr =
  is_first :: size_t
  is_last :: size_t
  is_data :: bytes

definition inforsubstr_new :: "size_t \<Rightarrow> size_t \<Rightarrow> bytes \<Rightarrow> inforsubstr" where
  "inforsubstr_new f l d = \<lparr>is_first = f, is_last = l, is_data = d\<rparr>"

record StreamReassembler =
  sr_unassembled :: size_t
  sr_checkeof :: bool
  sr_storelist :: "inforsubstr list"
  sr_firstindex :: size_t
  sr_output :: ByteStream
  sr_capacity :: size_t

definition StreamReassembler_new :: "size_t \<Rightarrow> StreamReassembler" where
  "StreamReassembler_new capacity =
     \<lparr>sr_unassembled = 0, sr_checkeof = False, sr_storelist = [], sr_firstindex = 0,
      sr_output = ByteStream_new capacity, sr_capacity = capacity\<rparr>"

definition StreamReassembler_unassembled_bytes :: "StreamReassembler \<Rightarrow> size_t" where
  "StreamReassembler_unassembled_bytes r = sr_unassembled r"

definition StreamReassembler_empty :: "StreamReassembler \<Rightarrow> bool" where
  "StreamReassembler_empty r \<longleftrightarrow>
     sr_storelist r = [] \<and> StreamReassembler_unassembled_bytes r = 0"

section \<open>Receiving a substring\<close>

text \<open>
  The union of the pending substring \<open>[sub_begin, sub_end]\<close> with a stored one it overlaps
  or touches: the four cases of the loop body, the last of which (the stored substring lies
  inside the pending one) changes nothing.
\<close>

definition merge_overlap ::
    "inforsubstr \<Rightarrow> size_t \<times> size_t \<times> bytes \<Rightarrow> (size_t \<times> size_t \<times> bytes) result" where
  "merge_overlap temp = (\<lambda>(sub_begin, sub_end, sub_string).
     if is_first temp \<le> sub_begin \<and> is_last temp \<ge> sub_end then
       Inr (is_first temp, is_last temp, is_data temp)
     else if is_first temp \<le> sub_begin \<and> is_last temp \<le> sub_end then
       bindE (substr_from sub_string (is_last temp + 1 - sub_begin))
         (\<lambda>rest. Inr (is_first temp, sub_end, is_data temp @ rest))
     else if is_first temp \<ge> sub_begin \<and> is_last temp \<ge> sub_end then
       bindE (substr_from (is_data temp) (sub_end + 1 - is_first temp))
         (\<lambda>rest. Inr (sub_begin, is_last temp, sub_string @ rest))
     else Inr (sub_begin, sub_end, sub_string))"

text \<open>
  The loop over the list: skip the entries that end before the pending substring, insert it
  in front of the first entry that begins after it, and absorb every entry in between. The
  result is the list, whether the substring was inserted, the pending substring and the
  byte count. After an erase the loop goes on with the entry after the erased one.
\<close>

fun insert_loop ::
    "inforsubstr list \<Rightarrow> size_t \<times> size_t \<times> bytes \<Rightarrow> size_t \<Rightarrow>
     (inforsubstr list \<times> bool \<times> (size_t \<times> size_t \<times> bytes) \<times> size_t) result" where
  "insert_loop [] p ub = Inr ([], False, p, ub)"
| "insert_loop (temp # rest) (sub_begin, sub_end, sub_string) ub =
     (if is_first temp + sz (is_data temp) < sub_begin then
        bindE (insert_loop rest (sub_begin, sub_end, sub_string) ub)
          (\<lambda>(l, ins, p, ub'). Inr (temp # l, ins, p, ub'))
      else if sub_end + 1 < is_first temp then
        Inr (inforsubstr_new sub_begin sub_end sub_string # temp # rest, True,
             (sub_begin, sub_end, sub_string), ub + sz sub_string)
      else
        bindE (merge_overlap temp (sub_begin, sub_end, sub_string))
          (\<lambda>p. insert_loop rest p (ub - sz (is_data temp))))"

text \<open>The list after the loop and the \<open>push_back\<close> that follows it.\<close>

definition insert_pending ::
    "inforsubstr list \<Rightarrow> size_t \<times> size_t \<times> bytes \<Rightarrow> size_t \<Rightarrow>
     (inforsubstr list \<times> size_t) result" where
  "insert_pending l p ub =
     bindE (insert_loop l p ub)
       (\<lambda>(l', ins, (b, e, s), ub').
          if ins then Inr (l', ub') else Inr (l' @ [inforsubstr_new b e s], ub' + sz s))"

text \<open>The part of the front entry that was written before is cut off.\<close>

definition trim_front ::
    "size_t \<Rightarrow> inforsubstr list \<times> size_t \<Rightarrow> (inforsubstr list \<times> size_t) result" where
  "trim_front firstindex = (\<lambda>(l, ub).
     let front = hd l in
     if is_first front < firstindex then
       let ub1 = ub - sz (is_data front) in
       bindE (substr_from (is_data front) (firstindex - is_first front))
         (\<lambda>d. Inr (front\<lparr>is_data := d, is_first := firstindex\<rparr> # tl l, ub1 + sz d))
     else Inr (l, ub))"

text \<open>The part of the back entry that lies beyond the window is cut off.\<close>

definition trim_back ::
    "size_t \<Rightarrow> size_t \<Rightarrow> inforsubstr list \<times> size_t \<Rightarrow> (inforsubstr list \<times> size_t) result" where
  "trim_back firstindex capacity = (\<lambda>(l, ub).
     let back = last l in
     if is_last back + 1 \<ge> firstindex + capacity then
       let ub1 = ub - sz (is_data back) in
       bindE (substr (is_data back) 0 (firstindex + capacity - is_first back))
         (\<lambda>d. Inr (butlast l @ [back\<lparr>is_data := d, is_last := firstindex + capacity - 1\<rparr>],
                   ub1 + sz d))
     else Inr (l, ub))"

text \<open>
  When the front entry starts at the first index still missing, it is written to the
  output, as far as there is room: what is taken off the list, and the write.
\<close>

definition take_front :: "StreamReassembler \<Rightarrow> (bytes \<times> StreamReassembler) result" where
  "take_front r =
     (let front = hd (sr_storelist r); rc = ByteStream_remaining_capacity (sr_output r) in
      if rc < sz (is_data front) then
        bindE (substr (is_data front) 0 rc) (\<lambda>send.
        bindE (substr_from (is_data front) rc) (\<lambda>rest.
          let front' = front\<lparr>is_first := is_first front + rc, is_data := rest\<rparr>
          in Inr (send, r\<lparr>sr_storelist := front' # tl (sr_storelist r),
                          sr_firstindex := is_first front'\<rparr>)))
      else
        Inr (is_data front, r\<lparr>sr_storelist := tl (sr_storelist r),
                              sr_firstindex := is_last front + 1\<rparr>))"

definition write_out :: "bytes \<Rightarrow> StreamReassembler \<Rightarrow> StreamReassembler" where
  "write_out send r =
     (let r' = r\<lparr>sr_unassembled := sr_unassembled r - sz send,
                 sr_output := snd (ByteStream_write send (sr_output r))\<rparr>
      in if StreamReassembler_empty r' \<and> sr_checkeof r'
         then r'\<lparr>sr_output := ByteStream_end_input (sr_output r')\<rparr> else r')"

definition deliver :: "StreamReassembler \<Rightarrow> StreamReassembler result" where
  "deliver r =
     (if is_first (hd (sr_storelist r)) = sr_firstindex r
      then bindE (take_front r) (\<lambda>(send, r'). Inr (write_out send r'))
      else Inr r)"

definition StreamReassembler_push_substring ::
    "bytes \<Rightarrow> u64 \<Rightarrow> bool \<Rightarrow> StreamReassembler \<Rightarrow> StreamReassembler result" where
  "StreamReassembler_push_substring data index eof r =
     (let r0 = r\<lparr>sr_checkeof := (if eof then eof else sr_checkeof r)\<rparr> in
      if sz data = 0 then
        Inr (if sr_checkeof r0 \<and> sr_firstindex r0 = index
             then r0\<lparr>sr_output := ByteStream_end_input (sr_output r0)\<rparr> else r0)
      else
        let sub_begin = index; sub_end = sub_begin + sz data - 1 in
        if sub_end < sr_firstindex r0 then Inr r0
        else
          bindE (insert_pending (sr_storelist r0) (sub_begin, sub_end, data) (sr_unassembled r0))
            (\<lambda>s1. bindE (trim_front (sr_firstindex r0) s1)
            (\<lambda>s2. bindE (trim_back (sr_firstindex r0) (sr_capacity r0) s2)
            (\<lambda>(l, ub). deliver (r0\<lparr>sr_storelist := l, sr_unassembled := ub\<rparr>)))))"

text \<open>Unfolding these evaluates a push on concrete data.\<close>

lemmas stream_eval =
  ByteStream_new_def ByteStream_write_def ByteStream_remaining_capacity_def ByteStream_accessors
  ByteStream_peek_output_def ByteStream_pop_output_def ByteStream_read_def sz_def

lemmas reassembler_eval =
  stream_eval StreamReassembler_push_substring_def StreamReassembler_new_def Let_def
  insert_pending_def trim_front_def trim_back_def deliver_def take_front_def write_out_def
  merge_overlap_def inforsubstr_new_def substr_def substr_from_def
  StreamReassembler_empty_def StreamReassembler_unassembled_bytes_def

section \<open>What the list of substrings stands for\<close>

definition e_lo :: "inforsubstr \<Rightarrow> nat" where
  "e_lo e = unat (is_first e)"

definition e_hi :: "inforsubstr \<Rightarrow> nat" where
  "e_hi e = unat (is_first e) + length (is_data e)"

definition entry_ok :: "(nat \<Rightarrow> u8) \<Rightarrow> inforsubstr \<Rightarrow> bool" where
  "entry_ok S e \<longleftrightarrow> e_lo e < e_hi e \<and> e_hi e < 2 ^ 64 \<and> unat (is_last e) + 1 = e_hi e \<and>
     is_data e = stretch S (e_lo e) (e_hi e - e_lo e)"

definition covers :: "inforsubstr list \<Rightarrow> nat set" where
  "covers l = (\<Union>e\<in>set l. {e_lo e..<e_hi e})"

definition separated :: "inforsubstr list \<Rightarrow> bool" where
  "separated l \<longleftrightarrow> sorted_wrt (\<lambda>a b. e_hi a < e_lo b) l"

definition total_size :: "inforsubstr list \<Rightarrow> size_t" where
  "total_size l = sum_list (map (\<lambda>e. sz (is_data e)) l)"

lemma covers_simps [simp]:
  "covers [] = {}"
  "covers (e # l) = {e_lo e..<e_hi e} \<union> covers l"
  "covers (l @ m) = covers l \<union> covers m"
  by (auto simp: covers_def)

lemma total_size_simps [simp]:
  "total_size [] = 0"
  "total_size (e # l) = sz (is_data e) + total_size l"
  "total_size (l @ m) = total_size l + total_size m"
  by (simp_all add: total_size_def)

lemma separated_simps [simp]:
  "separated []"
  "separated (e # l) \<longleftrightarrow> (\<forall>x\<in>set l. e_hi e < e_lo x) \<and> separated l"
  by (simp_all add: separated_def)

lemma separated_append [simp]:
  "separated (l @ m) \<longleftrightarrow> separated l \<and> separated m \<and> (\<forall>a\<in>set l. \<forall>b\<in>set m. e_hi a < e_lo b)"
  by (simp add: separated_def sorted_wrt_append)

section \<open>The insertion loop\<close>

lemma entry_okD:
  assumes "entry_ok S e"
  shows "e_lo e < e_hi e" and "e_hi e < 2 ^ 64" and "unat (is_last e) = e_hi e - 1"
    and "unat (is_first e) = e_lo e" and "length (is_data e) = e_hi e - e_lo e"
    and "is_data e = stretch S (e_lo e) (e_hi e - e_lo e)" and "fits (is_data e)"
  using assms by (auto simp: entry_ok_def e_lo_def e_hi_def fits_def)

lemma entry_okI:
  assumes "unat f = a" and "unat l + 1 = b" and "a < b" and "b < 2 ^ 64"
    and "d = stretch S a (b - a)"
  shows "entry_ok S (inforsubstr_new f l d)"
  using assms by (auto simp: entry_ok_def e_lo_def e_hi_def inforsubstr_new_def)

lemma inforsubstr_new_sel [simp]:
  "is_first (inforsubstr_new f l d) = f"
  "is_last (inforsubstr_new f l d) = l"
  "is_data (inforsubstr_new f l d) = d"
  by (simp_all add: inforsubstr_new_def)

lemma inforsubstr_new_eta [simp]: "inforsubstr_new (is_first t) (is_last t) (is_data t) = t"
  by (cases t) (simp add: inforsubstr_new_def)

lemma e_lo_new [simp]: "e_lo (inforsubstr_new f l d) = unat f"
  by (simp add: e_lo_def)

lemma e_hi_new [simp]: "e_hi (inforsubstr_new f l d) = unat f + length d"
  by (simp add: e_hi_def)

lemma is_last_succ:
  assumes "entry_ok S e"
  shows "unat (is_last e + 1) = e_hi e"
  using entry_okD [OF assms] by (simp add: unat_add_nowrap)

lemma is_first_size:
  assumes "entry_ok S e"
  shows "unat (is_first e + sz (is_data e)) = e_hi e"
  using entry_okD [OF assms] by (simp add: unat_add_nowrap)

lemma merge_overlap_ok:
  fixes b e :: size_t and d :: bytes
  defines "p \<equiv> inforsubstr_new b e d"
  assumes t: "entry_ok S t" and p: "entry_ok S p"
    and touch: "e_lo p \<le> e_hi t" "e_lo t \<le> e_hi p"
  obtains b' e' d' where "merge_overlap t (b, e, d) = Inr (b', e', d')"
    and "entry_ok S (inforsubstr_new b' e' d')"
    and "unat b' = min (e_lo t) (e_lo p)"
    and "unat b' + length d' = max (e_hi t) (e_hi p)"
proof -
  note T = entry_okD [OF t] and P = entry_okD [OF p, unfolded p_def, simplified]
  have lop: "e_lo p = unat b" and hip: "e_hi p = unat b + length d" by (simp_all add: p_def)
  have ue: "unat e = e_hi p - 1" using entry_okD(3) [OF p] by (simp add: p_def)
  have dd: "d = stretch S (e_lo p) (e_hi p - e_lo p)"
    using entry_okD(6) [OF p] by (simp add: p_def)
  have order:
    "is_first t \<le> b \<longleftrightarrow> e_lo t \<le> e_lo p" "b \<le> is_first t \<longleftrightarrow> e_lo p \<le> e_lo t"
    "e \<le> is_last t \<longleftrightarrow> e_hi p \<le> e_hi t" "is_last t \<le> e \<longleftrightarrow> e_hi t \<le> e_hi p"
    using T(1,3,4) entry_okD(1) [OF p] ue lop unfolding word_le_nat_alt by linarith+
  consider (inside) "e_lo t \<le> e_lo p" "e_hi p \<le> e_hi t"
    | (right) "e_lo t \<le> e_lo p" "e_hi t < e_hi p"
    | (left) "e_lo p < e_lo t" "e_hi p \<le> e_hi t"
    | (outside) "e_lo p < e_lo t" "e_hi t < e_hi p"
    by linarith
  then show thesis
  proof cases
    case inside
    then have "merge_overlap t (b, e, d) = Inr (is_first t, is_last t, is_data t)"
      by (simp add: merge_overlap_def order)
    then show thesis using that inside t T(1,4,5) by simp
  next
    case right
    have pos: "unat (is_last t + 1 - b) = e_hi t - e_lo p"
      using touch lop by (simp add: unat_sub_nowrap is_last_succ [OF t])
    then have "substr_from d (is_last t + 1 - b) = Inr (drop (e_hi t - e_lo p) d)"
      using P right lop hip by (simp add: substr_from_ok)
    then have m: "merge_overlap t (b, e, d) = Inr (is_first t, e, is_data t @ drop (e_hi t - e_lo p) d)"
      using right by (simp add: merge_overlap_def order)
    have "drop (e_hi t - e_lo p) d = stretch S (e_hi t) (e_hi p - e_hi t)"
      by (subst dd, subst stretch_drop) (use right touch in simp_all)
    then have d: "is_data t @ drop (e_hi t - e_lo p) d = stretch S (e_lo t) (e_hi p - e_lo t)"
      using T(1,6) right by (simp add: stretch_append)
    show thesis
    proof (rule that [OF m])
      show "entry_ok S (inforsubstr_new (is_first t) e (is_data t @ drop (e_hi t - e_lo p) d))"
        by (rule entry_okI [OF _ _ _ _ d]) (use T(1,4) entry_okD(1-3) [OF p] right in \<open>auto simp: p_def\<close>)
    qed (use d T(1,4) right in simp_all)
  next
    case left
    have pos: "unat (e + 1 - is_first t) = e_hi p - e_lo t"
      using touch T(4) is_last_succ [OF p] by (simp add: unat_sub_nowrap p_def)
    then have "substr_from (is_data t) (e + 1 - is_first t) = Inr (drop (e_hi p - e_lo t) (is_data t))"
      using T(5,7) left by (simp add: substr_from_ok)
    then have m: "merge_overlap t (b, e, d) = Inr (b, is_last t, d @ drop (e_hi p - e_lo t) (is_data t))"
      using left by (simp add: merge_overlap_def order)
    have "drop (e_hi p - e_lo t) (is_data t) = stretch S (e_hi p) (e_hi t - e_hi p)"
      using T(6) left touch by (simp add: stretch_drop)
    then have d: "d @ drop (e_hi p - e_lo t) (is_data t) = stretch S (e_lo p) (e_hi t - e_lo p)"
      by (subst dd) (use entry_okD(1) [OF p] left in \<open>simp add: stretch_append\<close>)
    show thesis
    proof (rule that [OF m])
      show "entry_ok S (inforsubstr_new b (is_last t) (d @ drop (e_hi p - e_lo t) (is_data t)))"
        by (rule entry_okI [OF _ _ _ _ d]) (use T(1-3) lop left in auto)
    qed (use d entry_okD(1) [OF p] lop left in simp_all)
  next
    case outside
    then have "merge_overlap t (b, e, d) = Inr (b, e, d)"
      by (simp add: merge_overlap_def order)
    then show thesis using that [of b e d] outside p lop hip by (simp add: p_def)
  qed
qed

lemma insert_pending_simps:
  "insert_pending [] (b, e, d) ub = Inr ([inforsubstr_new b e d], ub + sz d)"
  "insert_pending (t # l) (b, e, d) ub =
     (if is_first t + sz (is_data t) < b then
        bindE (insert_pending l (b, e, d) ub) (\<lambda>(l', ub'). Inr (t # l', ub'))
      else if e + 1 < is_first t then Inr (inforsubstr_new b e d # t # l, ub + sz d)
      else bindE (merge_overlap t (b, e, d)) (\<lambda>p. insert_pending l p (ub - sz (is_data t))))"
  by (auto simp: insert_pending_def bindE_def split: sum.splits prod.splits if_splits)

definition insert_spec ::
    "(nat \<Rightarrow> u8) \<Rightarrow> inforsubstr list \<Rightarrow> inforsubstr \<Rightarrow> size_t \<Rightarrow> inforsubstr list \<times> size_t \<Rightarrow> bool" where
  "insert_spec S l p ub = (\<lambda>(F, ub').
     F \<noteq> [] \<and> (\<forall>x\<in>set F. entry_ok S x) \<and> separated F \<and>
     covers F = covers l \<union> {e_lo p..<e_hi p} \<and>
     e_lo ` set F \<subseteq> insert (e_lo p) (e_lo ` set l) \<and>
     e_hi ` set F \<subseteq> insert (e_hi p) (e_hi ` set l) \<and>
     ub' - total_size F = ub - total_size l)"

lemma insert_spec_skip:
  assumes "insert_spec S l p ub (F, ub')" and "entry_ok S t" and "separated (t # l)"
    and "e_hi t < e_lo p"
  shows "insert_spec S (t # l) p ub (t # F, ub')"
proof -
  have "e_hi t < e_lo x" if "x \<in> set F" for x
    using that assms by (fastforce simp: insert_spec_def)
  then show ?thesis
    using assms by (auto simp: insert_spec_def algebra_simps)
qed

lemma insert_spec_absorb:
  assumes "insert_spec S l q (ub - sz (is_data t)) (F, ub')"
    and "e_lo q = min (e_lo t) (e_lo p)" and "e_hi q = max (e_hi t) (e_hi p)"
    and "e_lo p \<le> e_hi t" and "e_lo t \<le> e_hi p" and "e_lo t < e_hi t" and "e_lo p < e_hi p"
  shows "insert_spec S (t # l) p ub (F, ub')"
proof -
  have "{e_lo q..<e_hi q} = {e_lo t..<e_hi t} \<union> {e_lo p..<e_hi p}"
    using assms(2-7) by auto
  then show ?thesis
    using assms(1-3) by (auto simp: insert_spec_def min_def max_def algebra_simps split: if_splits)
qed

lemma insert_pending_ok:
  assumes "\<forall>x\<in>set l. entry_ok S x" and "separated l" and "entry_ok S (inforsubstr_new b e d)"
  shows "\<exists>F ub'. insert_pending l (b, e, d) ub = Inr (F, ub') \<and>
    insert_spec S l (inforsubstr_new b e d) ub (F, ub')"
  using assms
proof (induction l arbitrary: b e d ub)
  case Nil
  then show ?case by (simp add: insert_pending_simps insert_spec_def)
next
  case (Cons t l)
  let ?p = "inforsubstr_new b e d"
  have t: "entry_ok S t" and p: "entry_ok S ?p" using Cons.prems by auto
  have c1: "is_first t + sz (is_data t) < b \<longleftrightarrow> e_hi t < e_lo ?p"
    by (simp add: word_less_nat_alt is_first_size [OF t])
  have c2: "e + 1 < is_first t \<longleftrightarrow> e_hi ?p < e_lo t"
    using is_last_succ [OF p] by (simp add: word_less_nat_alt entry_okD(4) [OF t])
  consider (skip) "e_hi t < e_lo ?p" | (ins) "e_lo ?p \<le> e_hi t" "e_hi ?p < e_lo t"
    | (absorb) "e_lo ?p \<le> e_hi t" "e_lo t \<le> e_hi ?p" by linarith
  then show ?case
  proof cases
    case skip
    obtain F ub' where F: "insert_pending l (b, e, d) ub = Inr (F, ub')"
        "insert_spec S l ?p ub (F, ub')"
      using Cons.IH [of b e d ub] Cons.prems by auto
    then have "insert_pending (t # l) (b, e, d) ub = Inr (t # F, ub')"
      using skip c1 by (simp add: insert_pending_simps)
    with insert_spec_skip [OF F(2) t Cons.prems(2) skip] show ?thesis by blast
  next
    case ins
    then have "insert_pending (t # l) (b, e, d) ub = Inr (?p # t # l, ub + sz d)"
      using c1 c2 by (simp add: insert_pending_simps)
    moreover have "e_hi ?p < e_lo x" if "x \<in> set l" for x
    proof -
      have "e_hi t < e_lo x" using that Cons.prems(2) by simp
      then show ?thesis using ins(2) entry_okD(1) [OF t] by linarith
    qed
    ultimately show ?thesis
      using Cons.prems ins by (auto simp: insert_spec_def)
  next
    case absorb
    obtain b' e' d' where m: "merge_overlap t (b, e, d) = Inr (b', e', d')"
        and ok: "entry_ok S (inforsubstr_new b' e' d')"
        and lo: "unat b' = min (e_lo t) (e_lo ?p)" and hi: "unat b' + length d' = max (e_hi t) (e_hi ?p)"
      using merge_overlap_ok [OF t p absorb] by blast
    obtain F ub' where F: "insert_pending l (b', e', d') (ub - sz (is_data t)) = Inr (F, ub')"
        "insert_spec S l (inforsubstr_new b' e' d') (ub - sz (is_data t)) (F, ub')"
      using Cons.IH [of b' e' d' "ub - sz (is_data t)"] Cons.prems ok by auto
    have "insert_pending (t # l) (b, e, d) ub = Inr (F, ub')"
      using absorb c1 c2 m F(1) by (simp add: insert_pending_simps)
    moreover have "insert_spec S (t # l) ?p ub (F, ub')"
      by (rule insert_spec_absorb [OF F(2)])
        (use lo hi absorb entry_okD(1) [OF t] entry_okD(1) [OF p] in simp_all)
    ultimately show ?thesis by blast
  qed
qed

section \<open>Cutting the list to the window\<close>

lemma e_lo_upd [simp]:
  "e_lo (e\<lparr>is_data := d, is_first := f\<rparr>) = unat f"
  "e_lo (e\<lparr>is_data := d, is_last := l\<rparr>) = e_lo e"
  "e_lo (e\<lparr>is_first := f, is_data := d\<rparr>) = unat f"
  by (simp_all add: e_lo_def)

lemma e_hi_upd [simp]:
  "e_hi (e\<lparr>is_data := d, is_first := f\<rparr>) = unat f + length d"
  "e_hi (e\<lparr>is_data := d, is_last := l\<rparr>) = e_lo e + length d"
  "e_hi (e\<lparr>is_first := f, is_data := d\<rparr>) = unat f + length d"
  by (simp_all add: e_hi_def e_lo_def)

lemma entry_ok_cut_front:
  assumes "entry_ok S e" and "e_lo e \<le> unat f" and "unat f < e_hi e"
  shows "entry_ok S (e\<lparr>is_data := drop (unat f - e_lo e) (is_data e), is_first := f\<rparr>)"
    and "e_hi (e\<lparr>is_data := drop (unat f - e_lo e) (is_data e), is_first := f\<rparr>) = e_hi e"
proof -
  note E = entry_okD [OF assms(1)]
  have "drop (unat f - e_lo e) (is_data e) = stretch S (unat f) (e_hi e - unat f)"
    by (subst E(6), subst stretch_drop) (use assms in simp_all)
  then show "entry_ok S (e\<lparr>is_data := drop (unat f - e_lo e) (is_data e), is_first := f\<rparr>)"
    using E(1-3) assms(3) by (simp add: entry_ok_def)
  show "e_hi (e\<lparr>is_data := drop (unat f - e_lo e) (is_data e), is_first := f\<rparr>) = e_hi e"
    using E(5) assms by simp
qed

lemma entry_ok_cut_back:
  assumes "entry_ok S e" and "e_lo e < unat w" and "unat w \<le> e_hi e"
  shows "entry_ok S (e\<lparr>is_data := take (unat w - e_lo e) (is_data e), is_last := w - 1\<rparr>)"
    and "e_hi (e\<lparr>is_data := take (unat w - e_lo e) (is_data e), is_last := w - 1\<rparr>) = unat w"
proof -
  note E = entry_okD [OF assms(1)]
  have d: "take (unat w - e_lo e) (is_data e) = stretch S (e_lo e) (unat w - e_lo e)"
    by (subst E(6), subst stretch_take) (use assms in \<open>simp add: min_def\<close>)
  have "unat (w - 1) + 1 = unat w"
    using assms(2) by (simp add: unat_sub_nowrap)
  with d show "entry_ok S (e\<lparr>is_data := take (unat w - e_lo e) (is_data e), is_last := w - 1\<rparr>)"
    using E(1,2) assms by (simp add: entry_ok_def)
  show "e_hi (e\<lparr>is_data := take (unat w - e_lo e) (is_data e), is_last := w - 1\<rparr>) = unat w"
    using E(5) assms by simp
qed

lemma trim_front_ok:
  assumes "F \<noteq> []" and "\<forall>x\<in>set F. entry_ok S x" and "separated F"
    and "\<forall>x\<in>set F. unat f < e_hi x"
  obtains G ub' where "trim_front f (F, ub) = Inr (G, ub')"
    and "G \<noteq> []" and "\<forall>x\<in>set G. entry_ok S x" and "separated G"
    and "covers G = covers F \<inter> {unat f..}" and "\<forall>x\<in>set G. unat f \<le> e_lo x"
    and "e_lo ` set G \<subseteq> insert (unat f) (e_lo ` set F)"
    and "ub' - total_size G = ub - total_size F"
proof -
  obtain t l where F: "F = t # l" using assms(1) by (cases F) auto
  have t: "entry_ok S t" and ft: "unat f < e_hi t" using assms F by auto
  have lx: "unat f < e_lo x" if "x \<in> set l" for x
    using that assms(3) ft F by fastforce
  have cl: "covers l \<subseteq> {unat f..}" using lx by (fastforce simp: covers_def)
  show thesis
  proof (cases "is_first t < f")
    case True
    let ?d = "drop (unat f - e_lo t) (is_data t)"
    let ?t = "t\<lparr>is_data := ?d, is_first := f\<rparr>"
    have lof: "e_lo t < unat f" using True t by (simp add: word_less_nat_alt entry_okD(4))
    have sub: "unat (f - is_first t) = unat f - e_lo t"
      using lof by (simp add: unat_sub_nowrap entry_okD(4) [OF t])
    have "substr_from (is_data t) (f - is_first t) = Inr ?d"
      using lof ft sub entry_okD(5,7) [OF t] by (simp add: substr_from_ok)
    then have tf: "trim_front f (F, ub) = Inr (?t # l, ub - sz (is_data t) + sz ?d)"
      using True F by (simp add: trim_front_def)
    note cut = entry_ok_cut_front [OF t less_imp_le [OF lof] ft]
    have cov: "{unat f..<e_hi ?t} = {e_lo t..<e_hi t} \<inter> {unat f..}" using cut(2) lof by auto
    show thesis
      by (rule that [OF tf]) (use assms F lx cut cov cl in \<open>auto intro: less_imp_le\<close>)
  next
    case False
    then have lof: "unat f \<le> e_lo t" using t by (simp add: word_less_nat_alt entry_okD(4))
    then have "trim_front f (F, ub) = Inr (F, ub)" using False F by (simp add: trim_front_def)
    moreover have "covers F \<inter> {unat f..} = covers F" using F cl lof by auto
    ultimately show thesis using that assms F lof lx by (auto intro: less_imp_le)
  qed
qed

lemma trim_back_ok:
  assumes "G \<noteq> []" and "\<forall>x\<in>set G. entry_ok S x" and "separated G"
    and "\<forall>x\<in>set G. e_lo x < w" and "unat (f + c) = w"
  obtains H ub' where "trim_back f c (G, ub) = Inr (H, ub')"
    and "H \<noteq> []" and "\<forall>x\<in>set H. entry_ok S x" and "separated H"
    and "covers H = covers G \<inter> {..<w}" and "\<forall>x\<in>set H. e_hi x \<le> w"
    and "e_lo ` set H \<subseteq> e_lo ` set G"
    and "ub' - total_size H = ub - total_size G"
proof -
  obtain l t where G: "G = l @ [t]" using assms(1) by (cases G rule: rev_cases) auto
  have t: "entry_ok S t" and lt: "e_lo t < w" using assms G by auto
  have lx: "e_hi x < w" if "x \<in> set l" for x
    using that assms(3) lt G by fastforce
  have cl: "covers l \<subseteq> {..<w}" using lx by (fastforce simp: covers_def)
  show thesis
  proof (cases "is_last t + 1 \<ge> f + c")
    case True
    let ?d = "take (unat (f + c) - e_lo t) (is_data t)"
    let ?t = "t\<lparr>is_data := ?d, is_last := f + c - 1\<rparr>"
    have wt: "w \<le> e_hi t" using True is_last_succ [OF t] assms(5) by (simp add: word_le_nat_alt)
    have "unat (f + c - is_first t) = unat (f + c) - e_lo t"
      using lt assms(5) by (simp add: unat_sub_nowrap entry_okD(4) [OF t])
    then have tb: "trim_back f c (G, ub) = Inr (l @ [?t], ub - sz (is_data t) + sz ?d)"
      using True G by (simp add: trim_back_def)
    have "entry_ok S ?t" and h: "e_hi ?t = w"
      using entry_ok_cut_back [OF t, of "f + c"] lt wt assms(5) by simp_all
    moreover have "{e_lo t..<e_hi ?t} = {e_lo t..<e_hi t} \<inter> {..<w}" using h wt by auto
    ultimately show thesis
      by (intro that [OF tb]) (use assms G lx cl in \<open>auto intro: less_imp_le simp del: e_hi_upd\<close>)
  next
    case False
    then have "e_hi t < w" using is_last_succ [OF t] assms(5) by (simp add: word_le_nat_alt)
    moreover have "trim_back f c (G, ub) = Inr (G, ub)" using False G by (simp add: trim_back_def)
    moreover have "covers G \<inter> {..<w} = covers G" using G cl \<open>e_hi t < w\<close> by auto
    ultimately show thesis using that assms G lx by (auto intro: less_imp_le)
  qed
qed

section \<open>Delivering the front of the list\<close>

definition out_ok :: "(nat \<Rightarrow> u8) \<Rightarrow> size_t \<Rightarrow> size_t \<Rightarrow> ByteStream \<Rightarrow> bool" where
  "out_ok S firstindex capacity s \<longleftrightarrow> bs_inv s \<and> bs_max s = capacity \<and>
     bs_alwritten s = firstindex \<and> length (bs_content s) \<le> unat firstindex \<and>
     bs_content s = stretch S (unat firstindex - length (bs_content s)) (length (bs_content s))"

definition list_ok :: "(nat \<Rightarrow> u8) \<Rightarrow> nat \<Rightarrow> nat \<Rightarrow> inforsubstr list \<Rightarrow> bool" where
  "list_ok S f c l \<longleftrightarrow> (\<forall>x\<in>set l. entry_ok S x) \<and> separated l \<and>
     (\<forall>x\<in>set l. f \<le> e_lo x \<and> e_hi x \<le> f + c)"

definition sr_inv :: "(nat \<Rightarrow> u8) \<Rightarrow> StreamReassembler \<Rightarrow> bool" where
  "sr_inv S r \<longleftrightarrow> out_ok S (sr_firstindex r) (sr_capacity r) (sr_output r) \<and>
     0 < sr_capacity r \<and>
     list_ok S (unat (sr_firstindex r)) (unat (sr_capacity r)) (sr_storelist r) \<and>
     sr_unassembled r = total_size (sr_storelist r)"

text \<open>The indices received so far, delivered or pending, and the next one to deliver.\<close>

definition known :: "StreamReassembler \<Rightarrow> nat set" where
  "known r = {..<unat (sr_firstindex r)} \<union> covers (sr_storelist r)"

abbreviation next_index :: "StreamReassembler \<Rightarrow> nat" where
  "next_index r \<equiv> unat (sr_firstindex r)"

lemma out_ok_write:
  assumes "out_ok S f c s" and "unat f + n < 2 ^ 64" and "n \<le> bs_room s"
  shows "out_ok S (f + of_nat n) c (snd (ByteStream_write (stretch S (unat f) n) s))"
    and "bs_content (snd (ByteStream_write (stretch S (unat f) n) s)) =
      bs_content s @ stretch S (unat f) n"
proof -
  let ?d = "stretch S (unat f) n"
  have inv: "bs_inv s" and fd: "fits ?d"
    using assms by (simp_all add: out_ok_def fits_def)
  have f': "unat (f + of_nat n) = unat f + n"
    using assms(2) by (simp add: unat_add_nowrap unat_of_nat)
  have c: "bs_content (snd (ByteStream_write ?d s)) = bs_content s @ ?d"
    using write_content [OF inv fd] assms(3) by simp
  moreover have "bs_alwritten (snd (ByteStream_write ?d s)) = f + of_nat n"
    using write_eq [OF inv fd] assms(1,3) by (simp add: bs_accepted_def min_def out_ok_def)
  moreover have "bs_content s @ ?d =
      stretch S (unat f - length (bs_content s)) (length (bs_content s) + n)"
    using assms(1) stretch_append [of "unat f" "unat f - length (bs_content s)" "length (bs_content s)" S n]
    by (simp add: out_ok_def)
  ultimately show "out_ok S (f + of_nat n) c (snd (ByteStream_write ?d s))"
    using assms(1) inv fd f' by (simp add: out_ok_def)
  show "bs_content (snd (ByteStream_write ?d s)) = bs_content s @ ?d" by (rule c)
qed

lemma out_ok_end_input [simp]: "out_ok S f c (ByteStream_end_input s) = out_ok S f c s"
  by (simp add: out_ok_def)

definition front_taken :: "(nat \<Rightarrow> u8) \<Rightarrow> StreamReassembler \<Rightarrow> nat \<Rightarrow> StreamReassembler \<Rightarrow> bool" where
  "front_taken S r n r' \<longleftrightarrow> n \<le> bs_room (sr_output r) \<and> next_index r + n < 2 ^ 64 \<and>
     sr_firstindex r' = sr_firstindex r + of_nat n \<and>
     list_ok S (next_index r + n) (unat (sr_capacity r)) (sr_storelist r') \<and>
     {..<next_index r + n} \<union> covers (sr_storelist r') = known r \<and>
     (next_index r + n \<notin> covers (sr_storelist r') \<or> n = bs_room (sr_output r)) \<and>
     total_size (sr_storelist r') = sr_unassembled r - of_nat n \<and>
     sr_unassembled r' = sr_unassembled r \<and> sr_output r' = sr_output r \<and>
     sr_capacity r' = sr_capacity r \<and> sr_checkeof r' = sr_checkeof r"

lemma sr_inv_front:
  assumes "sr_inv S r" and "sr_storelist r = t # l" and "is_first t = sr_firstindex r"
  shows "bs_inv (sr_output r)" and "entry_ok S t" and "e_lo t = next_index r"
    and "e_hi t \<le> next_index r + unat (sr_capacity r)"
    and "sr_unassembled r = total_size (t # l)"
    and "\<forall>x\<in>set l. entry_ok S x" and "separated l" and "\<forall>x\<in>set l. e_hi t < e_lo x"
    and "\<forall>x\<in>set l. e_hi x \<le> next_index r + unat (sr_capacity r)"
  using assms by (auto simp: sr_inv_def out_ok_def list_ok_def e_lo_def)

lemma remaining_capacity_of_nat:
  "bs_inv s \<Longrightarrow> ByteStream_remaining_capacity s = of_nat (bs_room s)"
  by (metis of_nat_unat ucast_id unat_remaining_capacity)

lemma take_front_partial:
  assumes "sr_inv S r" and "sr_storelist r = t # l" and "is_first t = sr_firstindex r"
    and room: "bs_room (sr_output r) < e_hi t - next_index r"
  shows "\<exists>r'. take_front r = Inr (stretch S (next_index r) (bs_room (sr_output r)), r') \<and>
    front_taken S r (bs_room (sr_output r)) r' \<and> sr_storelist r' \<noteq> []"
proof -
  let ?f = "next_index r" and ?room = "bs_room (sr_output r)"
  let ?rc = "ByteStream_remaining_capacity (sr_output r)"
  note R = sr_inv_front [OF assms(1-3)] and T = entry_okD [OF R(2)]
  have rc: "unat ?rc = ?room" "?rc = of_nat ?room"
    using R(1) by (simp_all add: remaining_capacity_of_nat [symmetric])
  let ?rest = "drop ?room (is_data t)"
  let ?t = "t\<lparr>is_first := is_first t + ?rc, is_data := ?rest\<rparr>"
  let ?r = "r\<lparr>sr_storelist := ?t # l, sr_firstindex := is_first t + ?rc\<rparr>"
  have f': "unat (is_first t + ?rc) = ?f + ?room"
    using room T(2,4) R(3) rc by (simp add: unat_add_nowrap)
  have cond: "?rc < sz (is_data t)"
    using room T(5,7) R(3) rc by (simp add: word_less_nat_alt)
  have send: "take ?room (is_data t) = stretch S ?f ?room"
    by (subst T(6)) (use room R(3) in \<open>simp add: stretch_take min_def\<close>)
  have tf: "take_front r = Inr (stretch S ?f ?room, ?r)"
    using cond assms(2) send rc room T(5,7) R(3)
    by (simp add: take_front_def substr_from_ok Let_def)
  have teq: "?t = t\<lparr>is_data := drop (unat (is_first t + ?rc) - e_lo t) (is_data t),
      is_first := is_first t + ?rc\<rparr>"
    using f' R(3) by simp
  have tok: "entry_ok S ?t" and thi: "e_hi ?t = e_hi t"
    unfolding teq using entry_ok_cut_front [OF R(2), of "is_first t + ?rc"] f' R(3) room by simp_all
  have sz: "sz (is_data t) = of_nat ?room + sz ?rest"
    by (metis append_take_drop_id send stretch_length sz_append sz_def)
  have "{..<?f + ?room} \<union> {?f + ?room..<e_hi t} = {..<?f} \<union> {?f..<e_hi t}"
    using room by auto
  then have "{..<?f + ?room} \<union> covers (sr_storelist ?r) = known r"
    using thi f' R(3) assms(2) by (simp add: known_def Un_assoc [symmetric] del: e_hi_upd)
  moreover have "list_ok S (?f + ?room) (unat (sr_capacity r)) (sr_storelist ?r)"
    using tok thi R(4,6-9) room f' by (fastforce simp: list_ok_def simp del: e_hi_upd)
  ultimately have "front_taken S r ?room ?r"
    using rc assms(3) R(5) sz room T(2) by (simp add: front_taken_def)
  with tf show ?thesis by (intro exI [of _ ?r]) simp
qed

lemma take_front_whole:
  assumes "sr_inv S r" and "sr_storelist r = t # l" and "is_first t = sr_firstindex r"
    and room: "e_hi t - next_index r \<le> bs_room (sr_output r)"
  shows "\<exists>r'. take_front r = Inr (stretch S (next_index r) (e_hi t - next_index r), r') \<and>
    front_taken S r (e_hi t - next_index r) r'"
proof -
  let ?f = "next_index r" and ?n = "e_hi t - next_index r"
  let ?r = "r\<lparr>sr_storelist := l, sr_firstindex := is_last t + 1\<rparr>"
  note R = sr_inv_front [OF assms(1-3)] and T = entry_okD [OF R(2)]
  have cond: "\<not> ByteStream_remaining_capacity (sr_output r) < sz (is_data t)"
    using room T(5,7) R(1,3) by (simp add: word_less_nat_alt)
  have d: "is_data t = stretch S ?f ?n" using T(6) R(3) by simp
  have tf: "take_front r = Inr (stretch S ?f ?n, ?r)"
    using cond assms(2) d by (simp add: take_front_def)
  have fn: "?f + ?n = e_hi t" using T(1) R(3) by simp
  have "is_last t + 1 = sr_firstindex r + of_nat ?n"
    by (rule word_eq_unatI)
      (use is_last_succ [OF R(2)] fn T(2) in \<open>simp add: unat_add_nowrap unat_of_nat\<close>)
  moreover have "list_ok S (?f + ?n) (unat (sr_capacity r)) (sr_storelist ?r)"
    unfolding fn using R(6-9) T(1) R(3) by (fastforce simp: list_ok_def)
  moreover have "{..<?f + ?n} \<union> covers (sr_storelist ?r) = known r"
    unfolding fn using assms(2) R(3) T(1) by (auto simp: known_def)
  moreover have "?f + ?n \<notin> covers (sr_storelist ?r)"
    unfolding fn using R(8) by (fastforce simp: covers_def)
  moreover have "total_size (sr_storelist ?r) = sr_unassembled r - of_nat ?n"
    using R(5) d by (simp add: sz_def)
  ultimately have "front_taken S r ?n ?r"
    using room fn T(2) by (simp add: front_taken_def)
  with tf show ?thesis by blast
qed

text \<open>What a delivery achieves, in terms of the indices known and the bytes written.\<close>

definition delivered :: "(nat \<Rightarrow> u8) \<Rightarrow> StreamReassembler \<Rightarrow> StreamReassembler \<Rightarrow> bool" where
  "delivered S r r' \<longleftrightarrow> sr_inv S r' \<and> known r' = known r \<and> next_index r \<le> next_index r' \<and>
     bs_content (sr_output r') =
       bs_content (sr_output r) @ stretch S (next_index r) (next_index r' - next_index r) \<and>
     bs_alread (sr_output r') = bs_alread (sr_output r) \<and>
     bs_error (sr_output r') = bs_error (sr_output r) \<and>
     (next_index r' \<notin> known r' \<or> bs_room (sr_output r') = 0) \<and>
     sr_capacity r' = sr_capacity r \<and> sr_checkeof r' = sr_checkeof r \<and>
     (bs_end (sr_output r') \<longleftrightarrow> bs_end (sr_output r) \<or>
        next_index r \<noteq> next_index r' \<and> sr_storelist r' = [] \<and> sr_checkeof r)"

lemma deliveredD:
  assumes "delivered S r r'"
  shows "sr_inv S r'" and "known r' = known r" and "next_index r \<le> next_index r'"
    and "bs_content (sr_output r') =
       bs_content (sr_output r) @ stretch S (next_index r) (next_index r' - next_index r)"
    and "next_index r' \<notin> known r' \<or> bs_room (sr_output r') = 0"
    and "sr_capacity r' = sr_capacity r" and "sr_checkeof r' = sr_checkeof r"
    and "bs_end (sr_output r') \<longleftrightarrow> bs_end (sr_output r) \<or>
        next_index r \<noteq> next_index r' \<and> sr_storelist r' = [] \<and> sr_checkeof r"
    and "bs_error (sr_output r') = bs_error (sr_output r)"
  using assms unfolding delivered_def by simp_all

lemma front_taken_next:
  assumes "front_taken S r n r'"
  shows "next_index r' = next_index r + n"
  using assms by (simp add: front_taken_def unat_add_nowrap unat_of_nat)

lemma write_out_fields [simp]:
  "sr_storelist (write_out d r) = sr_storelist r"
  "sr_firstindex (write_out d r) = sr_firstindex r"
  "sr_capacity (write_out d r) = sr_capacity r"
  "sr_checkeof (write_out d r) = sr_checkeof r"
  "sr_unassembled (write_out d r) = sr_unassembled r - sz d"
  by (simp_all add: write_out_def Let_def)

lemma write_out_output:
  "sr_output (write_out d r) =
    (if sr_storelist r = [] \<and> sr_unassembled r - sz d = 0 \<and> sr_checkeof r
     then ByteStream_end_input (snd (ByteStream_write d (sr_output r)))
     else snd (ByteStream_write d (sr_output r)))"
  by (simp add: write_out_def Let_def StreamReassembler_empty_def
      StreamReassembler_unassembled_bytes_def)

lemma bs_room_end_input [simp]: "bs_room (ByteStream_end_input s) = bs_room s"
  by (simp add: bs_room_def)

lemma write_out_ok:
  assumes inv: "sr_inv S r" and taken: "front_taken S r n r'" and "sr_storelist r' = [] \<Longrightarrow> 0 < n"
  shows "delivered S r (write_out (stretch S (next_index r) n) r')"
proof -
  let ?d = "stretch S (next_index r) n"
  let ?s = "snd (ByteStream_write ?d (sr_output r))"
  note next' = front_taken_next [OF taken]
  have out: "out_ok S (sr_firstindex r) (sr_capacity r) (sr_output r)" and c: "0 < sr_capacity r"
    using inv by (simp_all add: sr_inv_def)
  have n: "n \<le> bs_room (sr_output r)" "next_index r + n < 2 ^ 64"
    using taken by (simp_all add: front_taken_def)
  note W = out_ok_write [OF out n(2) n(1)]
  have ub: "sr_unassembled r' - sz ?d = total_size (sr_storelist r')"
    using taken by (simp add: front_taken_def sz_def)
  have room: "bs_room ?s = bs_room (sr_output r) - n"
    using W(2) by (simp add: bs_room_def)
  have kn: "known r = {..<next_index r'} \<union> covers (sr_storelist r')"
    using taken next' by (simp add: front_taken_def)
  have prog: "next_index r' \<notin> covers (sr_storelist r') \<or> bs_room ?s = 0"
    using taken next' room by (auto simp: front_taken_def)
  have same: "sr_output r' = sr_output r" "sr_capacity r' = sr_capacity r" "sr_checkeof r' = sr_checkeof r"
    "list_ok S (next_index r') (unat (sr_capacity r)) (sr_storelist r')"
    "sr_firstindex r' = sr_firstindex r + of_nat n"
    using taken next' by (simp_all add: front_taken_def)
  have "out_ok S (sr_firstindex r') (sr_capacity r) ?s"
    using W(1) same(5) by simp
  then have "sr_inv S (write_out ?d r')"
    using same c ub by (simp add: sr_inv_def write_out_output)
  moreover have "known (write_out ?d r') = known r" using kn by (simp add: known_def)
  moreover have "next_index r' \<notin> known r \<or> bs_room ?s = 0" using prog kn by auto
  ultimately show ?thesis
    using W(2) same next' ub assms(3)
    by (cases "sr_storelist r' = []") (auto simp: delivered_def write_out_output)
qed

lemma deliver_ok:
  assumes inv: "sr_inv S r" and "sr_storelist r \<noteq> []"
  shows "\<exists>r'. deliver r = Inr r' \<and> delivered S r r'"
proof -
  obtain t l where l: "sr_storelist r = t # l" using assms(2) by (cases "sr_storelist r") auto
  have t: "entry_ok S t" using inv l by (simp add: sr_inv_def list_ok_def)
  show ?thesis
  proof (cases "is_first t = sr_firstindex r")
    case True
    note R = sr_inv_front [OF inv l True]
    obtain n r' where tf: "take_front r = Inr (stretch S (next_index r) n, r')"
      and ft: "front_taken S r n r'" and pos: "sr_storelist r' = [] \<Longrightarrow> 0 < n"
    proof (cases "bs_room (sr_output r) < e_hi t - next_index r")
      case True
      obtain r' where tf: "take_front r = Inr (stretch S (next_index r) (bs_room (sr_output r)), r')"
        and ft: "front_taken S r (bs_room (sr_output r)) r'" and ne: "sr_storelist r' \<noteq> []"
        using take_front_partial [OF inv l \<open>is_first t = _\<close> True] by blast
      show ?thesis by (rule that [OF tf ft]) (use ne in blast)
    next
      case False
      then obtain r' where tf: "take_front r = Inr (stretch S (next_index r) (e_hi t - next_index r), r')"
        and ft: "front_taken S r (e_hi t - next_index r) r'"
        using take_front_whole [OF inv l \<open>is_first t = _\<close>] by force
      show ?thesis by (rule that [OF tf ft]) (use entry_okD(1) [OF t] R(3) in simp)
    qed
    have "deliver r = Inr (write_out (stretch S (next_index r) n) r')"
      using tf l True by (simp add: deliver_def)
    with write_out_ok [OF inv ft pos] show ?thesis by blast
  next
    case False
    then have "next_index r < e_lo t"
      using inv l t by (auto simp: sr_inv_def list_ok_def entry_okD(4) word_unat_eq_iff order_le_less)
    then have "next_index r \<notin> known r"
      using inv l entry_okD(1) [OF t] by (fastforce simp: known_def sr_inv_def list_ok_def covers_def)
    then have "delivered S r r" using inv by (simp add: delivered_def)
    with False l show ?thesis by (simp add: deliver_def)
  qed
qed

section \<open>Pushing a substring\<close>

lemma list_okD:
  assumes "list_ok S f c l"
  shows "\<forall>x\<in>set l. entry_ok S x" and "separated l"
    and "\<forall>x\<in>set l. f \<le> e_lo x" and "\<forall>x\<in>set l. e_hi x \<le> f + c"
  using assms by (auto simp: list_ok_def)

lemma window_insert_ok:
  assumes l: "list_ok S (unat f) (unat c) l" and p: "entry_ok S (inforsubstr_new b e d)"
    and lo: "unat b < unat f + unat c" and hi: "unat f < unat b + length d"
    and c: "0 < c" and bound: "unat f + unat c < 2 ^ 64"
  obtains F G H u1 u2 u3 where "insert_pending l (b, e, d) (total_size l) = Inr (F, u1)"
    and "trim_front f (F, u1) = Inr (G, u2)" and "trim_back f c (G, u2) = Inr (H, u3)"
    and "H \<noteq> []" and "list_ok S (unat f) (unat c) H" and "u3 = total_size H"
    and "{..<unat f} \<union> covers H =
      {..<unat f} \<union> covers l \<union> {unat b..<unat b + length d} \<inter> {..<unat f + unat c}"
proof -
  let ?f = "unat f" and ?c = "unat c" and ?p = "inforsubstr_new b e d"
  note L = list_okD [OF l]
  have fc: "unat (f + c) = ?f + ?c" using bound by (simp add: unat_add_nowrap)
  have c0: "0 < ?c" using c by (simp add: word_less_nat_alt)
  obtain F u1 where F: "insert_pending l (b, e, d) (total_size l) = Inr (F, u1)"
      and spec: "insert_spec S l ?p (total_size l) (F, u1)"
    using insert_pending_ok [OF L(1,2) p] by blast
  have Fhi: "\<forall>x\<in>set F. ?f < e_hi x"
    using spec L(1,3) hi by (fastforce simp: insert_spec_def dest: entry_okD(1))
  obtain G u2 where G: "trim_front f (F, u1) = Inr (G, u2)" "G \<noteq> []" "\<forall>x\<in>set G. entry_ok S x"
      "separated G" "covers G = covers F \<inter> {?f..}" "\<forall>x\<in>set G. ?f \<le> e_lo x"
      "e_lo ` set G \<subseteq> insert ?f (e_lo ` set F)" "u2 - total_size G = u1 - total_size F"
    using trim_front_ok [of F S f u1] spec Fhi by (auto simp: insert_spec_def)
  have Flo: "\<forall>x\<in>set F. e_lo x < ?f + ?c"
    using spec L(1,4) lo by (fastforce simp: insert_spec_def dest: entry_okD(1))
  have Glo: "\<forall>x\<in>set G. e_lo x < ?f + ?c"
    using G(7) Flo c0 by fastforce
  obtain H u3 where H: "trim_back f c (G, u2) = Inr (H, u3)" "H \<noteq> []" "\<forall>x\<in>set H. entry_ok S x"
      "separated H" "covers H = covers G \<inter> {..<?f + ?c}" "\<forall>x\<in>set H. e_hi x \<le> ?f + ?c"
      "e_lo ` set H \<subseteq> e_lo ` set G" "u3 - total_size H = u2 - total_size G"
    using trim_back_ok [OF G(2-4) Glo fc] by metis
  have "list_ok S ?f ?c H"
    using H(3,4,6,7) G(6) by (fastforce simp: list_ok_def)
  moreover have "u3 = total_size H"
    using H(8) G(8) spec by (simp add: insert_spec_def)
  moreover have "covers l \<subseteq> {..<?f + ?c}" using L(4) by (fastforce simp: covers_def)
  then have "{..<?f} \<union> covers H = {..<?f} \<union> covers l \<union> {unat b..<unat b + length d} \<inter> {..<?f + ?c}"
    using H(5) G(5) spec by (auto simp: insert_spec_def)
  ultimately show thesis using that [OF F G(1) H(1) H(2)] by blast
qed

text \<open>A pushed substring: bytes of the stream at their index, starting inside the window.\<close>

definition push_ok :: "(nat \<Rightarrow> u8) \<Rightarrow> StreamReassembler \<Rightarrow> bytes \<Rightarrow> u64 \<Rightarrow> bool" where
  "push_ok S r data index \<longleftrightarrow> data \<noteq> [] \<and> data = stretch S (unat index) (length data) \<and>
     unat index + length data < 2 ^ 64 \<and>
     unat index < next_index r + unat (sr_capacity r) \<and>
     next_index r + unat (sr_capacity r) < 2 ^ 64"

lemma push_fresh_ok:
  assumes inv: "sr_inv S r" and ok: "push_ok S r data index"
    and new: "next_index r < unat index + length data"
  obtains r1 r' where "StreamReassembler_push_substring data index eof r = Inr r'"
    and "delivered S r1 r'" and "sr_inv S r1"
    and "known r1 = known r \<union>
      {unat index..<unat index + length data} \<inter> {..<next_index r + unat (sr_capacity r)}"
    and "sr_firstindex r1 = sr_firstindex r" and "sr_output r1 = sr_output r"
    and "sr_capacity r1 = sr_capacity r" and "sr_checkeof r1 = (eof \<or> sr_checkeof r)"
proof -
  let ?e = "index + sz data - 1"
  have d: "data \<noteq> []" "data = stretch S (unat index) (length data)" "fits data"
    using ok by (auto simp: push_ok_def fits_def)
  have s: "unat (index + sz data) = unat index + length data"
    using ok d(3) by (simp add: push_ok_def unat_add_nowrap)
  have pos: "1 \<le> unat index + length data" using d(1) by (cases data) auto
  have e: "unat ?e + 1 = unat index + length data"
    using unat_sub_nowrap [of 1 "index + sz data"] s pos by simp
  have p: "entry_ok S (inforsubstr_new index ?e data)"
    by (rule entry_okI [OF refl e]) (use d(1,2) ok in \<open>auto simp: push_ok_def\<close>)
  have R: "list_ok S (next_index r) (unat (sr_capacity r)) (sr_storelist r)" "0 < sr_capacity r"
      "sr_unassembled r = total_size (sr_storelist r)"
    using inv by (simp_all add: sr_inv_def)
  obtain F G H u1 u2 u3 where
      ins: "insert_pending (sr_storelist r) (index, ?e, data) (sr_unassembled r) = Inr (F, u1)"
        "trim_front (sr_firstindex r) (F, u1) = Inr (G, u2)"
        "trim_back (sr_firstindex r) (sr_capacity r) (G, u2) = Inr (H, u3)"
      and H: "H \<noteq> []" "list_ok S (next_index r) (unat (sr_capacity r)) H" "u3 = total_size H"
        "{..<next_index r} \<union> covers H = {..<next_index r} \<union> covers (sr_storelist r) \<union>
          {unat index..<unat index + length data} \<inter> {..<next_index r + unat (sr_capacity r)}"
    using window_insert_ok [OF R(1) p _ new R(2)] ok R(3) unfolding push_ok_def by metis
  let ?r1 = "r\<lparr>sr_checkeof := (if eof then eof else sr_checkeof r), sr_storelist := H, sr_unassembled := u3\<rparr>"
  have inv1: "sr_inv S ?r1" using inv H by (simp add: sr_inv_def)
  obtain r' where r': "deliver ?r1 = Inr r'" "delivered S ?r1 r'"
    using deliver_ok [OF inv1] H(1) by auto
  have ge: "\<not> ?e < sr_firstindex r" using e new by (simp add: word_less_nat_alt)
  have "StreamReassembler_push_substring data index eof r = Inr r'"
    using ins r'(1) ge d(1,3) by (simp add: StreamReassembler_push_substring_def sz_eq_0_iff)
  from that [OF this r'(2) inv1] H(4) show thesis by (simp add: known_def)
qed

lemma push_old:
  assumes "push_ok S r data index" and "unat index + length data \<le> next_index r"
  shows "StreamReassembler_push_substring data index eof r = Inr (r\<lparr>sr_checkeof := (eof \<or> sr_checkeof r)\<rparr>)"
proof -
  have d: "data \<noteq> []" "fits data" using assms(1) by (auto simp: push_ok_def fits_def)
  have s: "unat (index + sz data) = unat index + length data"
    using assms(1) d(2) by (simp add: push_ok_def unat_add_nowrap)
  have "1 \<le> unat index + length data" using d(1) by (cases data) auto
  then have "unat (index + sz data - 1) < next_index r"
    using unat_sub_nowrap [of 1 "index + sz data"] s assms(2) by simp
  then have "index + sz data - 1 < sr_firstindex r" by (simp add: word_less_nat_alt)
  then show ?thesis
    using d by (simp add: StreamReassembler_push_substring_def sz_eq_0_iff)
qed

lemma push_empty_end:
  "eof \<or> sr_checkeof r \<Longrightarrow> sr_firstindex r = index \<Longrightarrow>
    StreamReassembler_push_substring [] index eof r =
      Inr (r\<lparr>sr_checkeof := True, sr_output := ByteStream_end_input (sr_output r)\<rparr>)"
  by (auto simp: StreamReassembler_push_substring_def)

lemma push_empty_other:
  "\<not> ((eof \<or> sr_checkeof r) \<and> sr_firstindex r = index) \<Longrightarrow>
    StreamReassembler_push_substring [] index eof r =
      Inr (r\<lparr>sr_checkeof := (eof \<or> sr_checkeof r)\<rparr>)"
  by (auto simp: StreamReassembler_push_substring_def)

lemma sr_inv_checkeof [simp]: "sr_inv S (r\<lparr>sr_checkeof := b\<rparr>) = sr_inv S r"
  by (simp add: sr_inv_def)

lemma known_upd [simp]:
  "known (r\<lparr>sr_checkeof := b\<rparr>) = known r"
  "known (r\<lparr>sr_output := s\<rparr>) = known r"
  "known (r\<lparr>sr_checkeof := b, sr_output := s\<rparr>) = known r"
  by (simp_all add: known_def)

lemma sr_inv_upd [simp]:
  "sr_inv S (r\<lparr>sr_checkeof := b, sr_output := ByteStream_end_input (sr_output r)\<rparr>) = sr_inv S r"
  by (simp add: sr_inv_def)


lemma sr_new_fields [simp]:
  "sr_firstindex (StreamReassembler_new c) = 0"
  "sr_storelist (StreamReassembler_new c) = []"
  "sr_capacity (StreamReassembler_new c) = c"
  "sr_checkeof (StreamReassembler_new c) = False"
  "sr_unassembled (StreamReassembler_new c) = 0"
  "sr_output (StreamReassembler_new c) = ByteStream_new c"
  by (simp_all add: StreamReassembler_new_def)

lemma bs_new_fields [simp]:
  "bs_content (ByteStream_new c) = []" "bs_max (ByteStream_new c) = c"
  "bs_alwritten (ByteStream_new c) = 0" "bs_alread (ByteStream_new c) = 0"
  "bs_end (ByteStream_new c) = False" "bs_error (ByteStream_new c) = False"
  by (simp_all add: ByteStream_new_def)

lemma sr_inv_new: "0 < c \<Longrightarrow> sr_inv S (StreamReassembler_new c)"
  by (simp add: sr_inv_def out_ok_def list_ok_def)


section \<open>Histories of a reassembler\<close>

text \<open>
  The states a reassembler of capacity \<open>c\<close> can be in while it receives substrings of a
  stream of length \<open>L\<close>, each starting inside the window, in any order, with any overlaps
  and repetitions, and while the reader takes bytes out; \<open>out\<close> is what it has taken.
  The \<open>eof\<close> flag goes with substrings that reach the end of the stream; \<open>eof_timely\<close>
  says when the code can act on it: the whole substring is inside the window, it brings
  something new, and an empty one arrives only when everything before it has; and no empty
  substring arrives at the next index while the end is known but bytes before it are missing.
\<close>

definition eof_timely :: "nat \<Rightarrow> StreamReassembler \<Rightarrow> bytes \<Rightarrow> u64 \<Rightarrow> bool \<Rightarrow> bool" where
  "eof_timely L r data index eof \<longleftrightarrow>
     (eof \<longrightarrow> unat index + length data = L \<and> L \<le> next_index r + unat (sr_capacity r) \<and>
        (if data = [] then unat index = next_index r else next_index r < L)) \<and>
     (data = [] \<longrightarrow> sr_checkeof r \<longrightarrow> unat index = next_index r \<longrightarrow> next_index r = L)"

inductive sr_reach :: "(nat \<Rightarrow> u8) \<Rightarrow> nat \<Rightarrow> size_t \<Rightarrow> StreamReassembler \<Rightarrow> bytes \<Rightarrow> bool"
  for S :: "nat \<Rightarrow> u8" and L :: nat and c :: size_t where
  start: "sr_reach S L c (StreamReassembler_new c) []"
| push: "sr_reach S L c r out \<Longrightarrow> data = stretch S (unat index) (length data) \<Longrightarrow>
    unat index + length data \<le> L \<Longrightarrow> unat index < next_index r + unat c \<Longrightarrow>
    eof_timely L r data index eof \<Longrightarrow>
    StreamReassembler_push_substring data index eof r = Inr r' \<Longrightarrow> sr_reach S L c r' out"
| take_out: "sr_reach S L c r out \<Longrightarrow> ByteStream_read n (sr_output r) = (d, s') \<Longrightarrow>
    sr_reach S L c (r\<lparr>sr_output := s'\<rparr>) (out @ d)"

definition sr_hist :: "(nat \<Rightarrow> u8) \<Rightarrow> nat \<Rightarrow> size_t \<Rightarrow> StreamReassembler \<Rightarrow> bytes \<Rightarrow> bool" where
  "sr_hist S L c r out \<longleftrightarrow> sr_inv S r \<and> sr_capacity r = c \<and> known r \<subseteq> {..<L} \<and>
     out @ bs_content (sr_output r) = stretch S 0 (next_index r) \<and>
     (sr_checkeof r \<longrightarrow> 0 < L \<longrightarrow> L - 1 \<in> known r) \<and>
     (bs_end (sr_output r) \<longleftrightarrow> sr_checkeof r \<and> next_index r = L)"

lemma next_index_le: "known r \<subseteq> {..<L} \<Longrightarrow> next_index r \<le> L"
  by (simp add: known_def)

lemma no_pending_at_end:
  assumes "sr_inv S r" and "known r \<subseteq> {..<L}" and "next_index r = L"
  shows "sr_storelist r = []"
proof (rule ccontr)
  assume "sr_storelist r \<noteq> []"
  then obtain x where x: "x \<in> set (sr_storelist r)" by (cases "sr_storelist r") auto
  with assms(1) have "L \<le> e_lo x" "e_lo x < e_hi x"
    using assms(3) by (auto simp: sr_inv_def list_ok_def dest: entry_okD(1))
  moreover have "e_lo x \<in> known r" using x \<open>e_lo x < e_hi x\<close> by (auto simp: known_def covers_def)
  ultimately show False using assms(2) by auto
qed

lemma sr_hist_read:
  assumes "sr_hist S L c r out" and "ByteStream_read n (sr_output r) = (d, s')"
  shows "sr_hist S L c (r\<lparr>sr_output := s'\<rparr>) (out @ d)"
proof -
  let ?o = "sr_output r" and ?k = "unat n"
  have inv: "sr_inv S r" and bi: "bs_inv ?o" and ok: "out_ok S (sr_firstindex r) (sr_capacity r) ?o"
    using assms(1) unfolding sr_hist_def sr_inv_def out_ok_def by blast+
  have ds: "d = take ?k (bs_content ?o)" "s' = ByteStream_pop_output n ?o"
    using assms(2) read_eq [OF bi] by simp_all
  have len: "length (bs_content ?o) \<le> next_index r" "bs_max ?o = sr_capacity r"
    "bs_alwritten ?o = sr_firstindex r"
    and cs: "bs_content ?o = stretch S (next_index r - length (bs_content ?o)) (length (bs_content ?o))"
    using ok unfolding out_ok_def by blast+
  have "drop ?k (bs_content ?o) =
      stretch S (next_index r - length (bs_content ?o) + ?k) (length (bs_content ?o) - ?k)"
    by (metis cs stretch_drop)
  also have "\<dots> = stretch S (next_index r - (length (bs_content ?o) - ?k)) (length (bs_content ?o) - ?k)"
    using len(1) by (cases "?k \<le> length (bs_content ?o)") simp_all
  finally have "out_ok S (sr_firstindex r) (sr_capacity r) s'"
    using bi len by (simp add: out_ok_def ds pop_content)
  moreover have "out @ bs_content ?o = stretch S 0 (next_index r)"
    using assms(1) unfolding sr_hist_def by blast
  ultimately show ?thesis
    using assms(1) inv by (simp add: sr_hist_def sr_inv_def ds pop_content [OF bi])
qed

lemma sr_hist_push_empty:
  assumes H: "sr_hist S L c r out" and timely: "eof_timely L r [] index eof"
    and push: "StreamReassembler_push_substring [] index eof r = Inr r'"
    and L: "unat index \<le> L"
  shows "sr_hist S L c r' out"
proof (cases "eof \<or> sr_checkeof r \<and> sr_firstindex r = index")
  case False
  then have "\<not> ((eof \<or> sr_checkeof r) \<and> sr_firstindex r = index)" and "\<not> eof" by auto
  then have "r' = r" using push push_empty_other [of eof r index] by simp
  with H show ?thesis by simp
next
  case True
  have kL: "known r \<subseteq> {..<L}" and ce: "sr_checkeof r \<longrightarrow> 0 < L \<longrightarrow> L - 1 \<in> known r"
    using H unfolding sr_hist_def by blast+
  have idx: "unat index = next_index r" and fi: "sr_firstindex r = index"
    using True timely by (auto simp: eof_timely_def intro: word_eq_unatI)
  have r': "r' = r\<lparr>sr_checkeof := True, sr_output := ByteStream_end_input (sr_output r)\<rparr>"
    using push push_empty_end [of eof r index] True fi by auto
  have "next_index r = L" using True timely idx by (auto simp: eof_timely_def)
  moreover from this have "0 < L \<longrightarrow> L - 1 \<in> known r"
    by (auto simp: known_def)
  ultimately show ?thesis using H unfolding r' sr_hist_def by simp
qed

lemma sr_hist_push:
  assumes H: "sr_hist S L c r out" and d: "data \<noteq> []" "data = stretch S (unat index) (length data)"
    and L: "unat index + length data \<le> L" and w: "unat index < next_index r + unat c"
    and timely: "eof_timely L r data index eof"
    and push: "StreamReassembler_push_substring data index eof r = Inr r'"
    and bound: "L + unat c < 2 ^ 64"
  shows "sr_hist S L c r' out"
proof -
  have inv: "sr_inv S r" and c: "sr_capacity r = c" and kL: "known r \<subseteq> {..<L}"
    and out: "out @ bs_content (sr_output r) = stretch S 0 (next_index r)"
    and ce: "sr_checkeof r \<longrightarrow> 0 < L \<longrightarrow> L - 1 \<in> known r"
    and en: "bs_end (sr_output r) \<longleftrightarrow> sr_checkeof r \<and> next_index r = L"
    using H unfolding sr_hist_def by blast+
  have "unat index + length data < 2 ^ 64" "unat index < next_index r + unat (sr_capacity r)"
    "next_index r + unat (sr_capacity r) < 2 ^ 64"
    using L w bound next_index_le [OF kL] unfolding c by linarith+
  then have ok: "push_ok S r data index"
    unfolding push_ok_def using d by blast
  show ?thesis
  proof (cases "unat index + length data \<le> next_index r")
    case True
    then have "\<not> eof" using timely d(1) by (auto simp: eof_timely_def)
    then have "r' = r" using push push_old [OF ok True, of eof] by simp
    with H show ?thesis by simp
  next
    case False
    then have new: "next_index r < unat index + length data" by simp
    obtain r1 where del: "delivered S r1 r'"
      and k1: "known r1 = known r \<union>
        {unat index..<unat index + length data} \<inter> {..<next_index r + unat (sr_capacity r)}"
      and r1: "sr_firstindex r1 = sr_firstindex r" "sr_output r1 = sr_output r"
        "sr_capacity r1 = sr_capacity r" "sr_checkeof r1 = (eof \<or> sr_checkeof r)"
      by (rule push_fresh_ok [OF inv ok new, of eof]) (use push in auto)
    have k': "known r' = known r1" and le: "next_index r \<le> next_index r'" and inv': "sr_inv S r'"
      and c': "bs_content (sr_output r') =
        bs_content (sr_output r) @ stretch S (next_index r) (next_index r' - next_index r)"
      and en': "bs_end (sr_output r') \<longleftrightarrow> bs_end (sr_output r) \<or>
        next_index r \<noteq> next_index r' \<and> sr_storelist r' = [] \<and> (eof \<or> sr_checkeof r)"
      and same: "sr_capacity r' = c" "sr_checkeof r' = (eof \<or> sr_checkeof r)"
      using deliveredD [OF del] unfolding r1 c by blast+
    obtain n where len: "length data = Suc n" using d(1) by (cases data) auto
    have kL': "known r' \<subseteq> {..<L}" using kL L unfolding k' k1 by auto
    have out': "out @ bs_content (sr_output r') = stretch S 0 (next_index r')"
      using stretch_append [of "next_index r" 0 "next_index r" S "next_index r' - next_index r"] le
      unfolding c' append_assoc [symmetric] out by simp
    have ce': "eof \<or> sr_checkeof r \<longrightarrow> 0 < L \<longrightarrow> L - 1 \<in> known r'"
    proof (cases eof)
      case True
      then have "L = unat index + length data" "L \<le> next_index r + unat (sr_capacity r)"
        using timely by (auto simp: eof_timely_def)
      then have "L - 1 \<in> {unat index..<unat index + length data} \<inter> {..<next_index r + unat (sr_capacity r)}"
        using len by auto
      then show ?thesis unfolding k' k1 by blast
    next
      case False
      with ce show ?thesis unfolding k' k1 by blast
    qed
    have "bs_end (sr_output r') \<longleftrightarrow> (eof \<or> sr_checkeof r) \<and> next_index r' = L"
    proof
      assume "bs_end (sr_output r')"
      then consider "sr_checkeof r" "next_index r = L"
        | "sr_storelist r' = []" "eof \<or> sr_checkeof r" using en en' by blast
      then show "(eof \<or> sr_checkeof r) \<and> next_index r' = L"
      proof cases
        case 1
        with le next_index_le [OF kL'] show ?thesis by simp
      next
        case 2
        then have "L - 1 < next_index r'" using ce' len L by (auto simp: known_def)
        with 2 next_index_le [OF kL'] show ?thesis by simp
      qed
    next
      assume e: "(eof \<or> sr_checkeof r) \<and> next_index r' = L"
      show "bs_end (sr_output r')"
      proof (cases "next_index r = next_index r'")
        case True
        then have "\<not> eof" using e timely d(1) by (auto simp: eof_timely_def)
        with True e en en' show ?thesis by simp
      next
        case False
        then show ?thesis using e en' no_pending_at_end [OF inv' kL'] by simp
      qed
    qed
    with inv' same kL' out' ce' show ?thesis by (simp add: sr_hist_def)
  qed
qed

lemma sr_reach_hist:
  assumes "sr_reach S L c r out" and "0 < c" and "L + unat c < 2 ^ 64"
  shows "sr_hist S L c r out"
  using assms
proof (induction rule: sr_reach.induct)
  case start
  then show ?case by (simp add: sr_hist_def sr_inv_new known_def)
next
  case (push r out data index eof r')
  show ?case
  proof (cases "data = []")
    case True
    with push show ?thesis using sr_hist_push_empty [of S L c r out index eof r'] by simp
  next
    case False
    with push show ?thesis using sr_hist_push [of S L c r out data index eof r'] by blast
  qed
next
  case (take_out r out n d s')
  then show ?case using sr_hist_read by blast
qed



section \<open>Counting the pending bytes\<close>

lemma finite_covers [simp]: "finite (covers l)"
  by (simp add: covers_def)

lemma card_covers:
  assumes "\<forall>x\<in>set l. e_lo x < e_hi x" and "separated l"
  shows "card (covers l) = sum_list (map (\<lambda>e. length (is_data e)) l)"
  using assms
proof (induction l)
  case Nil
  then show ?case by simp
next
  case (Cons e l)
  have "{e_lo e..<e_hi e} \<inter> covers l = {}"
    using Cons.prems by (fastforce simp: covers_def)
  then show ?case
    using Cons by (simp add: card_Un_disjoint) (simp add: e_lo_def e_hi_def)
qed

lemma total_size_of_nat: "total_size l = of_nat (sum_list (map (\<lambda>e. length (is_data e)) l))"
  by (induction l) (simp_all add: sz_def)

lemma pending_count:
  assumes "sr_inv S r"
  shows "unat (StreamReassembler_unassembled_bytes r) = card (known r - {..<next_index r})
    \<and> unat (StreamReassembler_unassembled_bytes r) \<le> unat (sr_capacity r)"
proof -
  let ?l = "sr_storelist r" and ?c = "unat (sr_capacity r)"
  have l: "\<forall>x\<in>set ?l. entry_ok S x" "separated ?l" "\<forall>x\<in>set ?l. next_index r \<le> e_lo x"
    "\<forall>x\<in>set ?l. e_hi x \<le> next_index r + ?c"
    using assms list_okD unfolding sr_inv_def by blast+
  have card: "card (covers ?l) = sum_list (map (\<lambda>e. length (is_data e)) ?l)"
    by (rule card_covers) (use l entry_okD(1) in auto)
  have sub: "covers ?l \<subseteq> {next_index r..<next_index r + ?c}"
    using l by (fastforce simp: covers_def)
  then have le: "card (covers ?l) \<le> ?c" using card_mono [OF _ sub] by simp
  moreover have "known r - {..<next_index r} = covers ?l" using sub by (auto simp: known_def)
  moreover have "sr_unassembled r = of_nat (card (covers ?l))"
    using assms card total_size_of_nat by (simp add: sr_inv_def)
  moreover have "card (covers ?l) < 2 ^ 64"
    using le_less_trans [OF le unat_size_t_bound] by simp
  ultimately show ?thesis
    by (simp add: StreamReassembler_unassembled_bytes_def unat_of_nat)
qed



section \<open>The contract of the reassembler\<close>

text \<open>
  What a receiver may push in a given state, and what it can rely on: such a push does not
  throw, keeps the history, and the number of bytes written never decreases.
\<close>

definition sr_accepts :: "(nat \<Rightarrow> u8) \<Rightarrow> nat \<Rightarrow> StreamReassembler \<Rightarrow> bytes \<Rightarrow> u64 \<Rightarrow> bool \<Rightarrow> bool" where
  "sr_accepts S L r data index eof \<longleftrightarrow> data = stretch S (unat index) (length data) \<and>
     unat index + length data \<le> L \<and> unat index < next_index r + unat (sr_capacity r) \<and>
     L + unat (sr_capacity r) < 2 ^ 64 \<and> eof_timely L r data index eof"

lemma accepted_push_ok:
  assumes H: "sr_hist S L c r out" and acc: "sr_accepts S L r data index eof" and "data \<noteq> []"
  shows "push_ok S r data index"
proof -
  have kL: "known r \<subseteq> {..<L}" using H unfolding sr_hist_def by blast
  have A: "data = stretch S (unat index) (length data)" "unat index + length data \<le> L"
      "unat index < next_index r + unat (sr_capacity r)" "L + unat (sr_capacity r) < 2 ^ 64"
    using acc unfolding sr_accepts_def by blast+
  have "unat index + length data < 2 ^ 64" "next_index r + unat (sr_capacity r) < 2 ^ 64"
    using A next_index_le [OF kL] by linarith+
  then show ?thesis using A assms(3) unfolding push_ok_def by blast
qed

lemma sr_hist_push_total:
  assumes H: "sr_hist S L c r out" and acc: "sr_accepts S L r data index eof"
  shows "\<exists>r'. StreamReassembler_push_substring data index eof r = Inr r' \<and> sr_hist S L c r' out
    \<and> sr_checkeof r' = (eof \<or> sr_checkeof r)"
proof (cases "data = []")
  case True
  have "unat index \<le> L" using acc True by (simp add: sr_accepts_def)
  moreover have "eof_timely L r [] index eof" using acc True by (simp add: sr_accepts_def)
  moreover have "\<exists>r'. StreamReassembler_push_substring [] index eof r = Inr r' \<and> sr_checkeof r' = (eof \<or> sr_checkeof r)"
    using push_empty_end [of eof r index] push_empty_other [of eof r index]
    by (cases "(eof \<or> sr_checkeof r) \<and> sr_firstindex r = index") auto
  ultimately show ?thesis using sr_hist_push_empty [OF H] True by blast
next
  case False
  have c: "sr_capacity r = c" and inv: "sr_inv S r" using H unfolding sr_hist_def by blast+
  have A: "data = stretch S (unat index) (length data)" "unat index + length data \<le> L"
      "unat index < next_index r + unat c" "L + unat c < 2 ^ 64" "eof_timely L r data index eof"
    using acc unfolding sr_accepts_def c by blast+
  have ok: "push_ok S r data index" by (rule accepted_push_ok [OF H acc False])
  have "\<exists>r'. StreamReassembler_push_substring data index eof r = Inr r' \<and> sr_checkeof r' = (eof \<or> sr_checkeof r)"
  proof (cases "unat index + length data \<le> next_index r")
    case True
    then show ?thesis using push_old [OF ok True, of eof] by simp
  next
    case False
    then have new: "next_index r < unat index + length data" by simp
    obtain r1 r' where r': "StreamReassembler_push_substring data index eof r = Inr r'"
      and del: "delivered S r1 r'" and ce: "sr_checkeof r1 = (eof \<or> sr_checkeof r)"
      by (rule push_fresh_ok [OF inv ok new, of eof])
    have "sr_checkeof r' = sr_checkeof r1" using deliveredD [OF del] by blast
    with r' ce show ?thesis by simp
  qed
  then show ?thesis using sr_hist_push [OF H False A(1,2,3,5) _ A(4)] by blast
qed

text \<open>The index of the next byte never moves back.\<close>

lemma push_grows:
  assumes H: "sr_hist S L c r out" and acc: "sr_accepts S L r data index eof"
    and push: "StreamReassembler_push_substring data index eof r = Inr r'"
  shows "next_index r \<le> next_index r'"
proof (cases "data = []")
  case True
  then show ?thesis using push push_empty_end [of eof r index] push_empty_other [of eof r index]
    by (cases "(eof \<or> sr_checkeof r) \<and> sr_firstindex r = index") auto
next
  case False
  have inv: "sr_inv S r" using H unfolding sr_hist_def by blast
  have ok: "push_ok S r data index" by (rule accepted_push_ok [OF H acc False])
  show ?thesis
  proof (cases "unat index + length data \<le> next_index r")
    case True
    then show ?thesis using push push_old [OF ok True, of eof] by auto
  next
    case False
    then have new: "next_index r < unat index + length data" by simp
    obtain r1 r2 where "StreamReassembler_push_substring data index eof r = Inr r2" "delivered S r1 r2"
        "sr_firstindex r1 = sr_firstindex r"
      by (rule push_fresh_ok [OF inv ok new, of eof])
    then show ?thesis using push deliveredD(3) by (metis sum.inject(2))
  qed
qed

lemma sr_hist_end:
  assumes "sr_hist S L c r out"
  shows "bs_end (sr_output r) \<longleftrightarrow> sr_checkeof r \<and> StreamReassembler_unassembled_bytes r = 0"
proof -
  have inv: "sr_inv S r" and kL: "known r \<subseteq> {..<L}" and ce: "sr_checkeof r \<longrightarrow> 0 < L \<longrightarrow> L - 1 \<in> known r"
    and en: "bs_end (sr_output r) \<longleftrightarrow> sr_checkeof r \<and> next_index r = L"
    using assms unfolding sr_hist_def by blast+
  have "next_index r = L" if "sr_checkeof r" "StreamReassembler_unassembled_bytes r = 0"
  proof -
    have "card (known r - {..<next_index r}) = 0" "finite (known r - {..<next_index r})"
      using pending_count [OF inv] that(2) by (simp_all add: known_def)
    then have "known r \<subseteq> {..<next_index r}" by simp
    with ce that(1) have "0 < L \<longrightarrow> L - 1 < next_index r" by blast
    with next_index_le [OF kL] show ?thesis by linarith
  qed
  moreover have "StreamReassembler_unassembled_bytes r = 0" if "next_index r = L"
    using no_pending_at_end [OF inv kL that] inv
    by (simp add: sr_inv_def StreamReassembler_unassembled_bytes_def)
  ultimately show ?thesis using en by blast
qed

locale reassembly =
  fixes hist :: "'r \<Rightarrow> bytes \<Rightarrow> bool" and accepts :: "'r \<Rightarrow> bytes \<Rightarrow> u64 \<Rightarrow> bool \<Rightarrow> bool"
    and push :: "bytes \<Rightarrow> u64 \<Rightarrow> bool \<Rightarrow> 'r \<Rightarrow> 'r result"
    and sink :: "'r \<Rightarrow> ByteStream" and finished :: "'r \<Rightarrow> bool" and S :: "nat \<Rightarrow> u8" and L :: nat
  assumes push_total: "hist r out \<Longrightarrow> accepts r data index eof \<Longrightarrow>
      \<exists>r'. push data index eof r = Inr r' \<and> hist r' out"
    and output_prefix: "hist r out \<Longrightarrow>
      out @ bs_content (sink r) = stretch S 0 (unat (bs_alwritten (sink r)))"
    and output_bound: "hist r out \<Longrightarrow> unat (bs_alwritten (sink r)) \<le> L"
    and output_end: "hist r out \<Longrightarrow> bs_end (sink r) \<longleftrightarrow> finished r"
begin

lemma output_take:
  assumes "hist r out"
  shows "out @ bs_content (sink r) = take (unat (bs_alwritten (sink r))) (stretch S 0 L)"
  using output_prefix [OF assms] output_bound [OF assms] by (simp add: stretch_take)

lemma output_whole:
  assumes "hist r out" and "unat (bs_alwritten (sink r)) = L"
  shows "out @ bs_content (sink r) = stretch S 0 L"
  using output_prefix [OF assms(1)] assms(2) by simp

end

lemma sr_hist_written: "sr_hist S L c r out \<Longrightarrow> bs_alwritten (sr_output r) = sr_firstindex r"
  unfolding sr_hist_def sr_inv_def out_ok_def by blast

interpretation sr: reassembly "sr_hist S L c" "sr_accepts S L" StreamReassembler_push_substring sr_output
  "\<lambda>r. sr_checkeof r \<and> StreamReassembler_unassembled_bytes r = 0" S L
proof unfold_locales
  fix r out assume H: "sr_hist S L c r out"
  show "out @ bs_content (sr_output r) = stretch S 0 (unat (bs_alwritten (sr_output r)))"
    using H sr_hist_written [OF H] unfolding sr_hist_def by simp
  show "unat (bs_alwritten (sr_output r)) \<le> L"
    using H next_index_le [of r L] sr_hist_written [OF H] unfolding sr_hist_def by simp
  show "bs_end (sr_output r) \<longleftrightarrow> sr_checkeof r \<and> StreamReassembler_unassembled_bytes r = 0"
    by (rule sr_hist_end [OF H])
next
  fix r out data index eof assume "sr_hist S L c r out" "sr_accepts S L r data index eof"
  then show "\<exists>r'. StreamReassembler_push_substring data index eof r = Inr r' \<and> sr_hist S L c r' out"
    using sr_hist_push_total by blast
qed

section \<open>Behaviour outside these conditions\<close>

fun push_all :: "(bytes \<times> u64 \<times> bool) list \<Rightarrow> StreamReassembler \<Rightarrow> StreamReassembler result" where
  "push_all [] r = Inr r"
| "push_all ((data, index, eof) # ps) r =
     bindE (StreamReassembler_push_substring data index eof r) (push_all ps)"

text \<open>
  A substring that starts beyond the window is stored, with a wrong last index, and the next
  one that touches it makes \<open>substr\<close> throw.
\<close>

theorem push_beyond_window_throws:
  "push_all [([1, 2, 3], 20, False), ([3, 4, 5], 22, False)] (StreamReassembler_new 8) =
    Inl (OutOfRange ''basic_string::substr'')"
  by (simp add: reassembler_eval)

text \<open>
  An empty substring with the end-of-stream flag that overtakes bytes before it ends the
  output as soon as the list is empty, here after 1 of 10 bytes.
\<close>

theorem early_eof_ends_output:
  "\<exists>r. push_all [([], 10, True), ([7], 0, False)] (StreamReassembler_new 64) = Inr r
    \<and> ByteStream_input_ended (sr_output r) \<and> ByteStream_bytes_written (sr_output r) = 1"
  by (simp add: reassembler_eval)

text \<open>
  While bytes before a pending final substring are missing, an empty substring without the
  flag at the next index ends the output.
\<close>

theorem empty_push_ends_output:
  "\<exists>r. push_all [([9], 5, True), ([], 0, False)] (StreamReassembler_new 64) = Inr r
    \<and> ByteStream_input_ended (sr_output r) \<and> ByteStream_bytes_written (sr_output r) = 0"
  by (simp add: reassembler_eval)

text \<open>
  When the window cuts the end off the final substring, the output is still marked ended.
\<close>

theorem truncated_eof_ends_output:
  "\<exists>r. push_all [([1, 2, 3, 4], 0, True)] (StreamReassembler_new 2) = Inr r
    \<and> ByteStream_input_ended (sr_output r) \<and> bs_content (sr_output r) = [1, 2]"
  by (simp add: reassembler_eval)

text \<open>
  When all bytes have been written before the flag arrives with them, the output is not
  marked ended.
\<close>

theorem late_eof_is_lost:
  "\<exists>r. push_all [([1, 2, 3], 0, False), ([1, 2, 3], 0, True)] (StreamReassembler_new 8) = Inr r
    \<and> \<not> ByteStream_input_ended (sr_output r) \<and> ByteStream_bytes_written (sr_output r) = 3"
  by (simp add: reassembler_eval)

text \<open>
  The window is counted from the first index not yet written, not from the first not yet
  read, so written and pending bytes together can reach twice the capacity.
\<close>

theorem holds_twice_capacity:
  "\<exists>r. push_all [([1, 2], 0, False), ([3, 4], 2, False)] (StreamReassembler_new 2) = Inr r
    \<and> ByteStream_buffer_size (sr_output r) + StreamReassembler_unassembled_bytes r = 4"
  by (simp add: reassembler_eval)

end
