(* ===== verification/TCP_Receiver.thy ===== *)
theory TCP_Receiver
  imports Stream_Reassembler TCP_Segment
begin

text \<open>
  The receiver of \<^verbatim>\<open>src/libsponge/tcp_receiver.hh\<close> and \<^verbatim>\<open>tcp_receiver.cc\<close>: it turns the
  sequence number of each segment into a stream index, pushes the payload into the
  reassembler, and computes the acknowledgment number and the window. The proofs rest on the
  interpretations \<open>sr\<close> of the reassembler's contract and \<open>seqno\<close> of the conversion of
  sequence numbers.
\<close>

section \<open>Definitions\<close>

record TCPReceiver =
  rc_reassembler :: StreamReassembler
  rc_capacity :: size_t
  rc_isn :: WrappingInt32
  rc_isnset :: bool
  rc_finset :: bool

definition TCPReceiver_new :: "size_t \<Rightarrow> TCPReceiver" where
  "TCPReceiver_new capacity = \<lparr>rc_reassembler = StreamReassembler_new capacity, rc_capacity = capacity,
     rc_isn = WrappingInt32 0, rc_isnset = False, rc_finset = False\<rparr>"

definition TCPReceiver_stream_out :: "TCPReceiver \<Rightarrow> ByteStream" where
  "TCPReceiver_stream_out r = sr_output (rc_reassembler r)"

definition TCPReceiver_unassembled_bytes :: "TCPReceiver \<Rightarrow> size_t" where
  "TCPReceiver_unassembled_bytes r = StreamReassembler_unassembled_bytes (rc_reassembler r)"

definition TCPReceiver_ackno :: "TCPReceiver \<Rightarrow> WrappingInt32 option" where
  "TCPReceiver_ackno r =
     (if rc_isnset r then
        let isend = rc_finset r \<and> StreamReassembler_unassembled_bytes (rc_reassembler r) = 0;
            ab_seqno = 1 + ByteStream_bytes_written (sr_output (rc_reassembler r)) + (if isend then 1 else 0)
        in Some (wrap ab_seqno (rc_isn r))
      else None)"

definition TCPReceiver_window_size :: "TCPReceiver \<Rightarrow> size_t" where
  "TCPReceiver_window_size r = ByteStream_remaining_capacity (sr_output (rc_reassembler r))"

text \<open>
  \<open>segment_received\<close> returns whether the segment is acceptable; an exception of the
  reassembler passes through.
\<close>

definition TCPReceiver_segment_received :: "TCPSegment \<Rightarrow> TCPReceiver \<Rightarrow> (bool \<times> TCPReceiver) result" where
  "TCPReceiver_segment_received seg r =
     (let header = ts_header seg
      in if \<not> rc_isnset r then
           if th_syn header then
             let r = r\<lparr>rc_isn := th_seqno header, rc_isnset := True, rc_finset := th_fin header\<rparr>
             in bindE (StreamReassembler_push_substring (ts_payload seg) 0 (th_fin header) (rc_reassembler r))
                  (\<lambda>reassembler. Inr (True, r\<lparr>rc_reassembler := reassembler\<rparr>))
           else if th_fin header then Inr (True, r)
           else Inr (False, r)
         else
           let checkpoint = ByteStream_bytes_written (sr_output (rc_reassembler r));
               abs_n = unwrap (th_seqno header) (rc_isn r) checkpoint;
               abs_n = (if \<not> th_syn header then abs_n - 1 else abs_n);
               win_size = (if TCPReceiver_window_size r = 0 then 1 else TCPReceiver_window_size r);
               len = (if sz (ts_payload seg) = 0 then 1 else sz (ts_payload seg))
           in case TCPReceiver_ackno r of
                None \<Rightarrow> Inl (RuntimeError ''bad_optional_access'')
              | Some ackno \<Rightarrow>
                  let win_begin = unwrap ackno (rc_isn r) checkpoint;
                      wid_end = win_begin + win_size;
                      left = unwrap (th_seqno header) (rc_isn r) checkpoint;
                      right = left + len;
                      inside = (win_begin < right \<and> left < wid_end)
                  in bindE (StreamReassembler_push_substring (ts_payload seg) abs_n (th_fin header) (rc_reassembler r))
                       (\<lambda>reassembler. Inr (inside, r\<lparr>rc_reassembler := reassembler,
                          rc_finset := (if th_fin header \<and> \<not> rc_finset r then True else rc_finset r)\<rparr>)))"

section \<open>Receivers of a given stream\<close>

text \<open>
  A receiver of capacity \<open>c\<close> for a stream of \<open>L\<close> bytes \<open>S\<close> whose sender started at
  \<open>isn\<close>: its history is that of its reassembler, it has recorded the right initial sequence
  number, and its FIN flag agrees with the reassembler's end flag.
\<close>

definition rc_hist :: "(nat \<Rightarrow> u8) \<Rightarrow> nat \<Rightarrow> WrappingInt32 \<Rightarrow> size_t \<Rightarrow> TCPReceiver \<Rightarrow> bytes \<Rightarrow> bool" where
  "rc_hist S L isn c r out \<longleftrightarrow> sr_hist S L c (rc_reassembler r) out
     \<and> rc_finset r = sr_checkeof (rc_reassembler r)
     \<and> (rc_isnset r \<longrightarrow> rc_isn r = isn)
     \<and> (\<not> rc_isnset r \<longrightarrow> rc_reassembler r = StreamReassembler_new c \<and> out = [])"

text \<open>The number of bytes in order so far, and the absolute acknowledgment number.\<close>

definition rc_written :: "TCPReceiver \<Rightarrow> nat" where
  "rc_written r = unat (ByteStream_bytes_written (sr_output (rc_reassembler r)))"

definition rc_ack :: "TCPReceiver \<Rightarrow> nat" where
  "rc_ack r = 1 + rc_written r + (if ByteStream_input_ended (sr_output (rc_reassembler r)) then 1 else 0)"

text \<open>
  A segment of that stream: its payload starts at stream index \<open>i\<close>, which its sequence
  number encodes. It arrives less than half the sequence space away from the bytes written,
  starts inside the window, and its FIN comes in time for the reassembler.
\<close>

definition seg_at :: "WrappingInt32 \<Rightarrow> u64 \<Rightarrow> TCPSegment \<Rightarrow> bool" where
  "seg_at isn i seg \<longleftrightarrow> (if th_syn (ts_header seg) then i = 0 \<and> th_seqno (ts_header seg) = isn
     else th_seqno (ts_header seg) = wrap (i + 1) isn)"

definition seg_abs :: "u64 \<Rightarrow> TCPSegment \<Rightarrow> nat" where
  "seg_abs i seg = unat i + (if th_syn (ts_header seg) then 0 else 1)"

definition rc_accepts :: "(nat \<Rightarrow> u8) \<Rightarrow> nat \<Rightarrow> WrappingInt32 \<Rightarrow> TCPReceiver \<Rightarrow> TCPSegment \<Rightarrow> u64 \<Rightarrow> bool" where
  "rc_accepts S L isn r seg i \<longleftrightarrow> seg_at isn i seg \<and> (rc_isnset r \<or> th_syn (ts_header seg))
     \<and> seg_abs i seg < rc_written r + 2 ^ 31 \<and> rc_written r < seg_abs i seg + 2 ^ 31
     \<and> sr_accepts S L (rc_reassembler r) (ts_payload seg) i (th_fin (ts_header seg))"

inductive rc_reach :: "(nat \<Rightarrow> u8) \<Rightarrow> nat \<Rightarrow> WrappingInt32 \<Rightarrow> size_t \<Rightarrow> TCPReceiver \<Rightarrow> bytes \<Rightarrow> bool"
  for S :: "nat \<Rightarrow> u8" and L :: nat and isn :: WrappingInt32 and c :: size_t where
  start: "rc_reach S L isn c (TCPReceiver_new c) []"
| segment: "rc_reach S L isn c r out \<Longrightarrow> rc_accepts S L isn r seg i \<Longrightarrow>
    TCPReceiver_segment_received seg r = Inr (b, r') \<Longrightarrow> rc_reach S L isn c r' out"
| before_syn: "rc_reach S L isn c r out \<Longrightarrow> \<not> rc_isnset r \<Longrightarrow> \<not> th_syn (ts_header seg) \<Longrightarrow>
    TCPReceiver_segment_received seg r = Inr (b, r') \<Longrightarrow> rc_reach S L isn c r' out"
| take_out: "rc_reach S L isn c r out \<Longrightarrow> rc_isnset r \<Longrightarrow>
    ByteStream_read n (sr_output (rc_reassembler r)) = (d, s') \<Longrightarrow>
    rc_reach S L isn c (r\<lparr>rc_reassembler := (rc_reassembler r)\<lparr>sr_output := s'\<rparr>\<rparr>) (out @ d)"

section \<open>Sequence numbers of the receiver\<close>

lemma wrap_0: "wrap 0 isn = isn"
proof -
  have "unat (raw_value (wrap 0 isn)) = unat (raw_value isn)"
    using unsigned_less [of "raw_value isn", where 'a = nat] by (simp add: unat_wrap)
  then show ?thesis by (simp add: WrappingInt32.expand word_eq_unatI)
qed

lemma rc_hist_bounds:
  assumes "rc_hist S L isn c r out"
  shows "rc_written r \<le> L" and "rc_ack r \<le> L + 2"
  using assms sr.output_bound [of S L c "rc_reassembler r" out]
  by (auto simp: rc_hist_def rc_written_def rc_ack_def ByteStream_bytes_written_def)

lemma seg_abs_word:
  assumes "seg_at isn i seg" and "unat i + 1 < 2 ^ 64"
  shows "th_seqno (ts_header seg) = wrap (of_nat (seg_abs i seg)) isn"
    and "unat (of_nat (seg_abs i seg) :: u64) = seg_abs i seg"
proof -
  show "unat (of_nat (seg_abs i seg) :: u64) = seg_abs i seg"
    using assms(2) unat_add_nowrap [of i 1] by (simp add: seg_abs_def)
  show "th_seqno (ts_header seg) = wrap (of_nat (seg_abs i seg)) isn"
    using assms(1) by (auto simp: seg_at_def seg_abs_def wrap_0 add.commute split: if_splits)
qed

lemma rc_ackno:
  assumes "rc_hist S L isn c r out" and "rc_isnset r"
  shows "TCPReceiver_ackno r = Some (wrap (of_nat (rc_ack r)) isn)"
proof -
  have "ByteStream_input_ended (sr_output (rc_reassembler r))
      \<longleftrightarrow> rc_finset r \<and> StreamReassembler_unassembled_bytes (rc_reassembler r) = 0"
    using assms(1) sr.output_end [of S L c "rc_reassembler r" out]
    by (simp add: rc_hist_def ByteStream_input_ended_def)
  with assms show ?thesis
    by (auto simp: TCPReceiver_ackno_def rc_ack_def rc_written_def rc_hist_def)
qed

lemma rc_window:
  assumes "rc_hist S L isn c r out"
  shows "rc_written r + unat (TCPReceiver_window_size r) = unat c + length out"
    and "unat (TCPReceiver_window_size r) \<le> unat c"
proof -
  let ?o = "sr_output (rc_reassembler r)"
  have H: "sr_hist S L c (rc_reassembler r) out" using assms by (simp add: rc_hist_def)
  have inv: "bs_inv ?o" "bs_max ?o = c"
    using H unfolding sr_hist_def sr_inv_def out_ok_def by blast+
  have "out @ bs_content ?o = stretch S 0 (rc_written r)"
    using sr.output_prefix [OF H] by (simp add: rc_written_def ByteStream_bytes_written_def)
  then have len: "length out + length (bs_content ?o) = rc_written r"
    by (metis length_append stretch_length)
  have win: "unat (TCPReceiver_window_size r) = unat c - length (bs_content ?o)" "length (bs_content ?o) \<le> unat c"
    using inv by (auto simp: TCPReceiver_window_size_def bs_room_def bs_inv_def)
  show "rc_written r + unat (TCPReceiver_window_size r) = unat c + length out"
    using win len by linarith
  show "unat (TCPReceiver_window_size r) \<le> unat c" using win by linarith
qed

lemma unwrap_near:
  assumes "unat (of_nat n :: u64) = n" and "n < unat cp + 2 ^ 31" and "unat cp < n + 2 ^ 31"
  shows "unwrap (wrap (of_nat n) isn) isn cp = of_nat n"
  using assms by (intro seqno.dec_enc) simp_all

lemma rc_unwrap_ack:
  assumes "rc_hist S L isn c r out" and "L + unat c + 2 < 2 ^ 64"
  shows "unwrap (wrap (of_nat (rc_ack r)) isn) isn (ByteStream_bytes_written (sr_output (rc_reassembler r)))
      = of_nat (rc_ack r)"
    and "unat (of_nat (rc_ack r) :: u64) = rc_ack r"
proof -
  show u: "unat (of_nat (rc_ack r) :: u64) = rc_ack r"
    using rc_hist_bounds(2) [OF assms(1)] assms(2) by (simp add: unat_of_nat)
  show "unwrap (wrap (of_nat (rc_ack r)) isn) isn (ByteStream_bytes_written (sr_output (rc_reassembler r)))
      = of_nat (rc_ack r)"
    by (rule unwrap_near [OF u]) (simp_all add: rc_ack_def rc_written_def)
qed

lemma rc_acceptsD:
  assumes "rc_accepts S L isn r seg i"
  shows "seg_at isn i seg" and "rc_isnset r \<or> th_syn (ts_header seg)"
    and "seg_abs i seg < rc_written r + 2 ^ 31" and "rc_written r < seg_abs i seg + 2 ^ 31"
    and "sr_accepts S L (rc_reassembler r) (ts_payload seg) i (th_fin (ts_header seg))"
    and "unat i + length (ts_payload seg) \<le> L"
  using assms unfolding rc_accepts_def sr_accepts_def by blast+

text \<open>The arithmetic of the window test, on naturals.\<close>

definition overlaps_window :: "TCPReceiver \<Rightarrow> u64 \<Rightarrow> TCPSegment \<Rightarrow> bool" where
  "overlaps_window r i seg \<longleftrightarrow> rc_ack r < seg_abs i seg + max 1 (length (ts_payload seg))
     \<and> seg_abs i seg < rc_ack r + max 1 (unat (TCPReceiver_window_size r))"

lemma inside_eq:
  assumes H: "rc_hist S L isn c r out" and bound: "L + unat c + 2 < 2 ^ 64"
    and len: "unat i + length (ts_payload seg) \<le> L" and abs: "unat (of_nat (seg_abs i seg) :: u64) = seg_abs i seg"
  shows "(of_nat (rc_ack r) < (of_nat (seg_abs i seg) :: u64)
        + (if sz (ts_payload seg) = 0 then 1 else sz (ts_payload seg))
      \<and> of_nat (seg_abs i seg) < (of_nat (rc_ack r) :: u64)
        + (if TCPReceiver_window_size r = 0 then 1 else TCPReceiver_window_size r))
    \<longleftrightarrow> overlaps_window r i seg"
proof -
  let ?p = "ts_payload seg" and ?w = "TCPReceiver_window_size r"
  have p: "fits ?p" using len bound by (simp add: fits_def)
  have lw: "unat (if sz ?p = 0 then 1 else sz ?p) = max 1 (length ?p)"
    using p sz_eq_0_iff [OF p] by (cases ?p) (auto simp: max_def)
  have ww: "unat (if ?w = 0 then 1 else ?w) = max 1 (unat ?w)"
    by (auto simp: max_def unat_eq_0 not_le)
  have a: "unat (of_nat (rc_ack r) :: u64) = rc_ack r" by (rule rc_unwrap_ack(2) [OF H bound])
  have "seg_abs i seg + max 1 (length ?p) < 2 ^ 64"
    using len bound by (auto simp: seg_abs_def)
  then have r: "unat (of_nat (seg_abs i seg) + (if sz ?p = 0 then 1 else sz ?p) :: u64)
      = seg_abs i seg + max 1 (length ?p)"
    using abs lw by (simp add: unat_add_nowrap)
  have "rc_ack r + max 1 (unat ?w) < 2 ^ 64 \<or> 0 < unat c \<and> unat ?w \<le> unat c \<longrightarrow> rc_ack r + max 1 (unat ?w) < 2 ^ 64"
    using rc_hist_bounds(2) [OF H] bound by (auto simp: max_def)
  moreover have "0 < unat c"
    using H unfolding rc_hist_def sr_hist_def sr_inv_def by (auto simp: word_less_nat_alt)
  ultimately have e: "unat (of_nat (rc_ack r) + (if ?w = 0 then 1 else ?w) :: u64) = rc_ack r + max 1 (unat ?w)"
    using rc_window(2) [OF H] a ww by (simp add: unat_add_nowrap)
  show ?thesis
    unfolding overlaps_window_def word_less_nat_alt r e a abs by simp
qed

lemma rc_segment_ok:
  assumes H: "rc_hist S L isn c r out" and acc: "rc_accepts S L isn r seg i" and bound: "L + unat c + 2 < 2 ^ 64"
  shows "\<exists>b r'. TCPReceiver_segment_received seg r = Inr (b, r') \<and> rc_hist S L isn c r' out \<and> rc_isnset r'
    \<and> (b \<longleftrightarrow> \<not> rc_isnset r \<or> overlaps_window r i seg)
    \<and> StreamReassembler_push_substring (ts_payload seg) i (th_fin (ts_header seg)) (rc_reassembler r) = Inr (rc_reassembler r')"
proof -
  note A = rc_acceptsD [OF acc]
  have sr: "sr_hist S L c (rc_reassembler r) out" and fin: "rc_finset r = sr_checkeof (rc_reassembler r)"
    using H by (simp_all add: rc_hist_def)
  obtain ra where ra: "StreamReassembler_push_substring (ts_payload seg) i (th_fin (ts_header seg)) (rc_reassembler r) = Inr ra"
      and hist: "sr_hist S L c ra out" and ce: "sr_checkeof ra = (th_fin (ts_header seg) \<or> sr_checkeof (rc_reassembler r))"
    using sr_hist_push_total [OF sr A(5)] by blast
  show ?thesis
  proof (cases "rc_isnset r")
    case False
    then have syn: "th_syn (ts_header seg)" and i: "i = 0" and sq: "th_seqno (ts_header seg) = isn"
      using A(1,2) by (auto simp: seg_at_def split: if_splits)
    have "\<not> sr_checkeof (rc_reassembler r)" using H False by (simp add: rc_hist_def)
    with False syn sq hist ce i ra [unfolded i] show ?thesis
      by (intro exI [of _ True]) (simp add: TCPReceiver_segment_received_def Let_def rc_hist_def)
  next
    case True
    have isn: "rc_isn r = isn" using H True by (simp add: rc_hist_def)
    have "unat i + 1 < 2 ^ 64" using A(6) bound by linarith
    note w = seg_abs_word [OF A(1) this]
    let ?cp = "ByteStream_bytes_written (sr_output (rc_reassembler r))"
    have left: "unwrap (th_seqno (ts_header seg)) isn ?cp = of_nat (seg_abs i seg)"
      unfolding w(1) by (rule unwrap_near [OF w(2)]) (use A(3,4) in \<open>simp_all add: rc_written_def\<close>)
    have idx: "(if \<not> th_syn (ts_header seg) then of_nat (seg_abs i seg) - 1 else of_nat (seg_abs i seg)) = i"
      by (simp add: seg_abs_def)
    have ack: "TCPReceiver_ackno r = Some (wrap (of_nat (rc_ack r)) isn)" by (rule rc_ackno [OF H True])
    show ?thesis
      unfolding TCPReceiver_segment_received_def Let_def isn left idx ack option.case rc_unwrap_ack(1) [OF H bound]
        inside_eq [OF H bound A(6) w(2)]
      using True hist ce ra fin isn by (auto simp: rc_hist_def)
  qed
qed

lemma rc_before_syn:
  assumes "\<not> rc_isnset r" and "\<not> th_syn (ts_header seg)"
  shows "TCPReceiver_segment_received seg r = Inr (th_fin (ts_header seg), r)"
  using assms by (simp add: TCPReceiver_segment_received_def)

lemma rc_reach_hist:
  assumes "rc_reach S L isn c r out" and "0 < c" and "L + unat c + 2 < 2 ^ 64"
  shows "rc_hist S L isn c r out"
  using assms
proof (induction rule: rc_reach.induct)
  case start
  then show ?case
    using sr_reach_hist [OF sr_reach.start, of c L S] by (simp add: rc_hist_def TCPReceiver_new_def)
next
  case (segment r out seg i b r')
  then show ?case using rc_segment_ok [of S L isn c r out seg i] by auto
next
  case (before_syn r out seg b r')
  then show ?case using rc_before_syn [of r seg] by simp
next
  case (take_out r out n d s')
  then show ?case
    using sr_hist_read [of S L c "rc_reassembler r" out n d s'] by (simp add: rc_hist_def)
qed

section \<open>Properties\<close>


definition syn_segment :: TCPSegment where
  "syn_segment = \<lparr>ts_header = TCPHeader_new\<lparr>th_syn := True, th_seqno := WrappingInt32 4294967295\<rparr>,
     ts_payload = [5, 6]\<rparr>"



definition data_segment :: TCPSegment where
  "data_segment = \<lparr>ts_header = TCPHeader_new\<lparr>th_seqno := WrappingInt32 2\<rparr>, ts_payload = [7]\<rparr>"


section \<open>Behaviour outside these conditions\<close>

fun receive_all :: "TCPSegment list \<Rightarrow> TCPReceiver \<Rightarrow> TCPReceiver result" where
  "receive_all [] r = Inr r"
| "receive_all (seg # segs) r = bindE (TCPReceiver_segment_received seg r) (\<lambda>(b, r). receive_all segs r)"

definition plain_segment :: "u32 \<Rightarrow> bool \<Rightarrow> bool \<Rightarrow> bytes \<Rightarrow> TCPSegment" where
  "plain_segment seqno syn fin payload =
     \<lparr>ts_header = TCPHeader_new\<lparr>th_seqno := WrappingInt32 seqno, th_syn := syn, th_fin := fin\<rparr>, ts_payload = payload\<rparr>"

lemmas receiver_eval = TCPReceiver_segment_received_def TCPReceiver_new_def TCPReceiver_ackno_def
  TCPReceiver_window_size_def TCPReceiver_stream_out_def TCPReceiver_unassembled_bytes_def plain_segment_def TCPHeader_new_def
  wrap_def unwrap_def reassembler_eval

text \<open>
  A FIN without payload that overtakes three bytes is acknowledged at once, although the
  bytes before it are missing.
\<close>

theorem early_fin_acknowledged:
  "\<exists>r. receive_all [plain_segment 0 True False [], plain_segment 4 False True []] (TCPReceiver_new 64) = Inr r
    \<and> TCPReceiver_ackno r = Some (WrappingInt32 2) \<and> ByteStream_bytes_written (TCPReceiver_stream_out r) = 0"
  by (simp add: receiver_eval)

text \<open>
  A segment without SYN that carries the initial sequence number is given the stream index
  -1, that is \<open>2 ^ 64 - 1\<close>, and its byte is stored there, past the end of any stream.
\<close>

theorem byte_before_stream_pending:
  "\<exists>r. receive_all [plain_segment 0 True False [], plain_segment 0 False False [9]] (TCPReceiver_new 64) = Inr r
    \<and> sr_storelist (rc_reassembler r) = [\<lparr>is_first = - 1, is_last = - 1, is_data = [9]\<rparr>]
    \<and> TCPReceiver_unassembled_bytes r = 1"
  by (simp add: receiver_eval)

end
