(* ===== verification/TCP_State.thy ===== *)
theory TCP_State
  imports TCP_Sender TCP_Receiver
begin

text \<open>
  The summaries of \<^verbatim>\<open>src/libsponge/tcp_helpers/tcp_state.hh\<close> and \<^verbatim>\<open>tcp_state.cc\<close>: the
  state of a connection as two strings and two flags, computed from a sender and a receiver,
  and the representation of the official states of TCP in the same terms.
\<close>

section \<open>The summaries\<close>

definition ReceiverSummary_ERROR :: string where
  "ReceiverSummary_ERROR = ''error (connection was reset)''"

definition ReceiverSummary_LISTEN :: string where
  "ReceiverSummary_LISTEN = ''waiting for SYN: ackno is empty''"

definition ReceiverSummary_SYN_RECV :: string where
  "ReceiverSummary_SYN_RECV = ''SYN received (ackno exists), and input to stream hasn'' @ [CHR 0x27] @ ''t ended''"

definition ReceiverSummary_FIN_RECV :: string where
  "ReceiverSummary_FIN_RECV = ''input to stream has ended''"

definition SenderSummary_ERROR :: string where
  "SenderSummary_ERROR = ''error (connection was reset)''"

definition SenderSummary_CLOSED :: string where
  "SenderSummary_CLOSED = ''waiting for stream to begin (no SYN sent)''"

definition SenderSummary_SYN_SENT :: string where
  "SenderSummary_SYN_SENT = ''stream started but nothing acknowledged''"

definition SenderSummary_SYN_ACKED :: string where
  "SenderSummary_SYN_ACKED = ''stream ongoing''"

definition SenderSummary_FIN_SENT :: string where
  "SenderSummary_FIN_SENT = ''stream finished (FIN sent) but not fully acknowledged''"

definition SenderSummary_FIN_ACKED :: string where
  "SenderSummary_FIN_ACKED = ''stream finished and fully acknowledged''"

lemmas summary_strings =
  ReceiverSummary_ERROR_def ReceiverSummary_LISTEN_def ReceiverSummary_SYN_RECV_def ReceiverSummary_FIN_RECV_def
  SenderSummary_ERROR_def SenderSummary_CLOSED_def SenderSummary_SYN_SENT_def SenderSummary_SYN_ACKED_def
  SenderSummary_FIN_SENT_def SenderSummary_FIN_ACKED_def

record TCPState =
  st_sender :: string
  st_receiver :: string
  st_active :: bool
  st_linger :: bool

datatype State = LISTEN | SYN_RCVD | SYN_SENT | ESTABLISHED | CLOSE_WAIT | LAST_ACK | FIN_WAIT_1 | FIN_WAIT_2
  | CLOSING | TIME_WAIT | CLOSED | RESET

definition TCPState_eq :: "TCPState \<Rightarrow> TCPState \<Rightarrow> bool" where
  "TCPState_eq x y \<longleftrightarrow> st_active x = st_active y \<and> st_linger x = st_linger y
     \<and> st_sender x = st_sender y \<and> st_receiver x = st_receiver y"

definition TCPState_name :: "TCPState \<Rightarrow> string" where
  "TCPState_name x = ''sender=`'' @ st_sender x @ ''`, receiver=`'' @ st_receiver x @ ''`, active=''
     @ (if st_active x then ''1'' else ''0'') @ '', linger_after_streams_finish=''
     @ (if st_linger x then ''1'' else ''0'')"

text \<open>The constructor for an official state; the flags are true unless it clears them.\<close>

fun TCPState_of_State :: "State \<Rightarrow> TCPState" where
  "TCPState_of_State LISTEN = \<lparr>st_sender = SenderSummary_CLOSED, st_receiver = ReceiverSummary_LISTEN,
     st_active = True, st_linger = True\<rparr>"
| "TCPState_of_State SYN_RCVD = \<lparr>st_sender = SenderSummary_SYN_SENT, st_receiver = ReceiverSummary_SYN_RECV,
     st_active = True, st_linger = True\<rparr>"
| "TCPState_of_State SYN_SENT = \<lparr>st_sender = SenderSummary_SYN_SENT, st_receiver = ReceiverSummary_LISTEN,
     st_active = True, st_linger = True\<rparr>"
| "TCPState_of_State ESTABLISHED = \<lparr>st_sender = SenderSummary_SYN_ACKED, st_receiver = ReceiverSummary_SYN_RECV,
     st_active = True, st_linger = True\<rparr>"
| "TCPState_of_State CLOSE_WAIT = \<lparr>st_sender = SenderSummary_SYN_ACKED, st_receiver = ReceiverSummary_FIN_RECV,
     st_active = True, st_linger = False\<rparr>"
| "TCPState_of_State LAST_ACK = \<lparr>st_sender = SenderSummary_FIN_SENT, st_receiver = ReceiverSummary_FIN_RECV,
     st_active = True, st_linger = False\<rparr>"
| "TCPState_of_State CLOSING = \<lparr>st_sender = SenderSummary_FIN_SENT, st_receiver = ReceiverSummary_FIN_RECV,
     st_active = True, st_linger = True\<rparr>"
| "TCPState_of_State FIN_WAIT_1 = \<lparr>st_sender = SenderSummary_FIN_SENT, st_receiver = ReceiverSummary_SYN_RECV,
     st_active = True, st_linger = True\<rparr>"
| "TCPState_of_State FIN_WAIT_2 = \<lparr>st_sender = SenderSummary_FIN_ACKED, st_receiver = ReceiverSummary_SYN_RECV,
     st_active = True, st_linger = True\<rparr>"
| "TCPState_of_State TIME_WAIT = \<lparr>st_sender = SenderSummary_FIN_ACKED, st_receiver = ReceiverSummary_FIN_RECV,
     st_active = True, st_linger = True\<rparr>"
| "TCPState_of_State RESET = \<lparr>st_sender = SenderSummary_ERROR, st_receiver = ReceiverSummary_ERROR,
     st_active = False, st_linger = False\<rparr>"
| "TCPState_of_State CLOSED = \<lparr>st_sender = SenderSummary_FIN_ACKED, st_receiver = ReceiverSummary_FIN_RECV,
     st_active = False, st_linger = False\<rparr>"

definition receiver_state_summary :: "TCPReceiver \<Rightarrow> string" where
  "receiver_state_summary r =
     (if ByteStream_error (TCPReceiver_stream_out r) then ReceiverSummary_ERROR
      else if TCPReceiver_ackno r = None then ReceiverSummary_LISTEN
      else if ByteStream_input_ended (TCPReceiver_stream_out r) then ReceiverSummary_FIN_RECV
      else ReceiverSummary_SYN_RECV)"

definition sender_state_summary :: "TCPSender \<Rightarrow> string" where
  "sender_state_summary s =
     (if ByteStream_error (sn_stream s) then SenderSummary_ERROR
      else if TCPSender_next_seqno_absolute s = 0 then SenderSummary_CLOSED
      else if TCPSender_next_seqno_absolute s = TCPSender_bytes_in_flight s then SenderSummary_SYN_SENT
      else if \<not> ByteStream_eof (sn_stream s) then SenderSummary_SYN_ACKED
      else if TCPSender_next_seqno_absolute s < ByteStream_bytes_written (sn_stream s) + 2 then SenderSummary_SYN_ACKED
      else if TCPSender_bytes_in_flight s \<noteq> 0 then SenderSummary_FIN_SENT
      else SenderSummary_FIN_ACKED)"

definition TCPState_new :: "TCPSender \<Rightarrow> TCPReceiver \<Rightarrow> bool \<Rightarrow> bool \<Rightarrow> TCPState" where
  "TCPState_new sender receiver active linger =
     \<lparr>st_sender = sender_state_summary sender, st_receiver = receiver_state_summary receiver,
      st_active = active, st_linger = (if active then linger else False)\<rparr>"

section \<open>What the summaries tell\<close>


text \<open>The phases of a sender, in terms of what was sent and acknowledged.\<close>

lemma in_flight_nil:
  assumes "sn_inv S L s"
  shows "TCPSender_bytes_in_flight s = 0 \<longleftrightarrow> sn_unacked s = []"
proof -
  obtain a where a: "seg_chain S L (sn_isn s) a (sn_unacked s) (unat (sn_byte_sent s))" "a \<le> unat (sn_byte_received s)"
      "sn_unacked s \<noteq> [] \<longrightarrow> unat (sn_byte_received s) < a + seg_len (hd (sn_unacked s))"
    and r: "unat (sn_byte_received s) \<le> unat (sn_byte_sent s)"
    using assms unfolding sn_inv_def outstanding_ok_def by blast
  have "TCPSender_bytes_in_flight s = 0 \<longleftrightarrow> unat (sn_byte_received s) = unat (sn_byte_sent s)"
    unfolding TCPSender_bytes_in_flight_def right_minus_eq by (auto dest: word_eq_unatI)
  also have "\<dots> \<longleftrightarrow> sn_unacked s = []"
  proof (cases "sn_unacked s")
    case Nil
    then show ?thesis using a r by simp
  next
    case (Cons seg segs)
    then have "a + seg_len seg \<le> unat (sn_byte_sent s)" using a(1) seg_chain_le by auto
    then show ?thesis using a(3) Cons by simp
  qed
  finally show ?thesis .
qed

lemma fin_written:
  assumes inv: "sn_inv S L s" and L: "L + 2 < 2 ^ 64" and sent: "sn_byte_sent s \<noteq> 0"
  shows "ByteStream_eof (sn_stream s) \<and> \<not> sn_byte_sent s < ByteStream_bytes_written (sn_stream s) + 2 \<longleftrightarrow> sn_eof s"
proof -
  let ?st = "sn_stream s"
  have W: "unat (bs_alwritten ?st) = unat (bs_alread ?st) + length (bs_content ?st)" "unat (bs_alwritten ?st) \<le> L"
    using inv unfolding sn_inv_def out_stream_ok_def by blast+
  have B: "unat (sn_byte_sent s) = 1 + unat (bs_alread ?st) + (if sn_eof s then 1 else 0)"
      "sn_eof s \<longrightarrow> bs_end ?st \<and> bs_content ?st = []"
    using inv sent unfolding sn_inv_def sent_ok_def by auto
  have "unat (bs_alwritten ?st + 2) = unat (bs_alwritten ?st) + 2"
    using W(2) L by (subst unat_add_nowrap) simp_all
  then show ?thesis using B W
    by (auto simp: ByteStream_accessors word_less_nat_alt)
qed

text \<open>
  The sender summary names the phase of the connection: nothing sent, the SYN sent and
  nothing acknowledged, the stream ongoing, the FIN sent and segments outstanding, the FIN
  acknowledged with everything before it.
\<close>

theorem sender_summary_phase:
  assumes "sn_reach S L s" and "L + 2 < 2 ^ 64" and "\<not> ByteStream_error (sn_stream s)"
  shows "sender_state_summary s =
     (if sn_byte_sent s = 0 then SenderSummary_CLOSED
      else if sn_byte_received s = 0 then SenderSummary_SYN_SENT
      else if \<not> TCPSender_fin_sent s then SenderSummary_SYN_ACKED
      else if TCPSender_fin_acked s then SenderSummary_FIN_ACKED
      else SenderSummary_FIN_SENT)"
proof -
  have inv: "sn_inv S L s" by (rule sn_reach_inv [OF assms(1,2)])
  have syn: "sn_byte_sent s = TCPSender_bytes_in_flight s \<longleftrightarrow> sn_byte_received s = 0"
    by (auto simp: TCPSender_bytes_in_flight_def)
  show ?thesis
    unfolding sender_state_summary_def TCPSender_next_seqno_absolute_def syn
    using fin_written [OF inv assms(2)] in_flight_nil [OF inv] assms(3)
    by (auto simp: TCPSender_fin_sent_def TCPSender_fin_acked_def)
qed

theorem sender_summary_phase_witness:
  "sender_state_summary sender_acked = SenderSummary_SYN_ACKED"
proof -
  have "\<not> ByteStream_error (sn_stream sender_acked)" "sn_byte_sent sender_acked \<noteq> 0"
      "sn_byte_received sender_acked \<noteq> 0" "\<not> TCPSender_fin_sent sender_acked"
    by code_simp+
  then show ?thesis using sender_summary_phase [OF sender_acked_reach] by simp
qed

end
