(* ===== verification/TCP_Connection.thy ===== *)
theory TCP_Connection
  imports TCP_State
begin

text \<open>
  An endpoint of a connection, \<^verbatim>\<open>src/libsponge/tcp_connection.hh\<close> and
  \<^verbatim>\<open>tcp_connection.cc\<close>, and its configuration, \<^verbatim>\<open>tcp_helpers/tcp_config.hh\<close>: a sender and a
  receiver, the queue of segments to transmit, and the rules for reset and shutdown.
\<close>

section \<open>The connection\<close>

record TCPConfig =
  cfg_rt_timeout :: u16
  cfg_recv_capacity :: size_t
  cfg_send_capacity :: size_t
  cfg_fixed_isn :: "WrappingInt32 option"

abbreviation MAX_RETX_ATTEMPTS :: u32 where
  "MAX_RETX_ATTEMPTS \<equiv> 8"

definition TCPConfig_default :: TCPConfig where
  "TCPConfig_default = \<lparr>cfg_rt_timeout = 1000, cfg_recv_capacity = 64000, cfg_send_capacity = 64000,
     cfg_fixed_isn = None\<rparr>"

record TCPConnection =
  cn_cfg :: TCPConfig
  cn_receiver :: TCPReceiver
  cn_sender :: TCPSender
  cn_segments_out :: "TCPSegment list"
  cn_linger_after_streams_finish :: bool
  cn_rst :: bool
  cn_active :: bool
  cn_time :: size_t
  cn_last_segment_time :: size_t

definition TCPConnection_new :: "TCPConfig \<Rightarrow> u32 \<Rightarrow> TCPConnection" where
  "TCPConnection_new cfg random =
     \<lparr>cn_cfg = cfg, cn_receiver = TCPReceiver_new (cfg_recv_capacity cfg),
      cn_sender = TCPSender_new (cfg_send_capacity cfg) (cfg_rt_timeout cfg) (cfg_fixed_isn cfg) random,
      cn_segments_out = [], cn_linger_after_streams_finish = True, cn_rst = False, cn_active = False,
      cn_time = 0, cn_last_segment_time = 0\<rparr>"

definition TCPConnection_remaining_outbound_capacity :: "TCPConnection \<Rightarrow> size_t" where
  "TCPConnection_remaining_outbound_capacity c = ByteStream_remaining_capacity (sn_stream (cn_sender c))"

definition TCPConnection_bytes_in_flight :: "TCPConnection \<Rightarrow> size_t" where
  "TCPConnection_bytes_in_flight c = TCPSender_bytes_in_flight (cn_sender c)"

definition TCPConnection_unassembled_bytes :: "TCPConnection \<Rightarrow> size_t" where
  "TCPConnection_unassembled_bytes c = TCPReceiver_unassembled_bytes (cn_receiver c)"

definition TCPConnection_time_since_last_segment_received :: "TCPConnection \<Rightarrow> size_t" where
  "TCPConnection_time_since_last_segment_received c = cn_time c - cn_last_segment_time c"

definition TCPConnection_inbound_stream :: "TCPConnection \<Rightarrow> ByteStream" where
  "TCPConnection_inbound_stream c = TCPReceiver_stream_out (cn_receiver c)"

text \<open>The acknowledgment number and the window, which is cut to 16 bits, on an outgoing segment.\<close>

definition TCPConnection_receiver_info :: "TCPConnection \<Rightarrow> TCPSegment \<Rightarrow> TCPSegment" where
  "TCPConnection_receiver_info c seg =
     (case TCPReceiver_ackno (cn_receiver c) of
        None \<Rightarrow> seg
      | Some ackno \<Rightarrow> seg\<lparr>ts_header := (ts_header seg)\<lparr>th_ack := True, th_ackno := ackno,
          th_win := ucast (TCPReceiver_window_size (cn_receiver c))\<rparr>\<rparr>)"

function TCPConnection_segment_out :: "TCPConnection \<Rightarrow> TCPConnection" where
  "TCPConnection_segment_out c =
     (case sn_segments_out (cn_sender c) of
        [] \<Rightarrow> c
      | seg # segs \<Rightarrow> TCPConnection_segment_out
          (c\<lparr>cn_segments_out := cn_segments_out c @ [TCPConnection_receiver_info c seg],
             cn_sender := (cn_sender c)\<lparr>sn_segments_out := segs\<rparr>\<rparr>))"
  by pat_completeness auto

termination TCPConnection_segment_out
  by (relation "measure (\<lambda>c. length (sn_segments_out (cn_sender c)))") simp_all

declare TCPConnection_segment_out.simps [simp del]

definition TCPConnection_rst_segment :: "TCPConnection \<Rightarrow> TCPConnection" where
  "TCPConnection_rst_segment c =
     (let c = (if sn_segments_out (cn_sender c) = []
               then c\<lparr>cn_sender := TCPSender_send_empty_segment (cn_sender c)\<rparr> else c);
          segment = TCPConnection_receiver_info c (hd (sn_segments_out (cn_sender c)));
          segment = segment\<lparr>ts_header := (ts_header segment)\<lparr>th_rst := True\<rparr>\<rparr>
      in c\<lparr>cn_segments_out := cn_segments_out c @ [segment],
          cn_sender := (cn_sender c)\<lparr>sn_segments_out := tl (sn_segments_out (cn_sender c))\<rparr>\<rparr>)"

text \<open>Both streams in the error state, and the connection marked as reset.\<close>

definition TCPReceiver_set_error :: "TCPReceiver \<Rightarrow> TCPReceiver" where
  "TCPReceiver_set_error r = r\<lparr>rc_reassembler := (rc_reassembler r)\<lparr>sr_output :=
     ByteStream_set_error (sr_output (rc_reassembler r))\<rparr>\<rparr>"

definition TCPConnection_unclean :: "TCPConnection \<Rightarrow> TCPConnection" where
  "TCPConnection_unclean c = c\<lparr>cn_rst := True, cn_receiver := TCPReceiver_set_error (cn_receiver c),
     cn_sender := (cn_sender c)\<lparr>sn_stream := ByteStream_set_error (sn_stream (cn_sender c))\<rparr>\<rparr>"

definition TCPConnection_segment_received :: "TCPSegment \<Rightarrow> TCPConnection \<Rightarrow> TCPConnection result" where
  "TCPConnection_segment_received seg c =
     (let c = c\<lparr>cn_last_segment_time := cn_time c\<rparr>; header = ts_header seg
      in if th_rst header then Inr (TCPConnection_unclean c)
         else if TCPReceiver_ackno (cn_receiver c) = None \<and> TCPSegment_length_in_sequence_space seg = 0 then Inr c
         else
           let c = (if ByteStream_input_ended (TCPReceiver_stream_out (cn_receiver c)) \<and> \<not> TCPSender_fin_sent (cn_sender c)
                    then c\<lparr>cn_linger_after_streams_finish := False\<rparr> else c);
               (ack_no_check, sender) =
                 (if th_ack header then TCPSender_ack_received (th_ackno header) (th_win header) (cn_sender c)
                  else (True, TCPSender_fill_window (cn_sender c)));
               c = c\<lparr>cn_sender := sender\<rparr>
           in bindE (TCPReceiver_segment_received seg (cn_receiver c)) (\<lambda>(payload_check, receiver).
                let c = c\<lparr>cn_receiver := receiver\<rparr>
                in if TCPSegment_length_in_sequence_space seg = 0 \<and> payload_check \<and> ack_no_check then Inr c
                   else
                     let c = (if sn_segments_out (cn_sender c) = [] \<and> TCPReceiver_ackno (cn_receiver c) \<noteq> None
                              then c\<lparr>cn_sender := TCPSender_send_empty_segment (cn_sender c)\<rparr> else c)
                     in Inr (TCPConnection_segment_out c)))"

definition TCPConnection_active :: "TCPConnection \<Rightarrow> bool" where
  "TCPConnection_active c \<longleftrightarrow>
     (if cn_rst c then False
      else if \<not> TCPSender_fin_sent (cn_sender c) \<or> \<not> TCPSender_fin_acked (cn_sender c)
        \<or> \<not> ByteStream_input_ended (TCPReceiver_stream_out (cn_receiver c)) then True
      else if cn_linger_after_streams_finish c then
        \<not> TCPConnection_time_since_last_segment_received c \<ge> 10 * ucast (cfg_rt_timeout (cn_cfg c))
      else False)"

definition TCPConnection_state :: "TCPConnection \<Rightarrow> TCPState" where
  "TCPConnection_state c = TCPState_new (cn_sender c) (cn_receiver c) (TCPConnection_active c)
     (cn_linger_after_streams_finish c)"

definition TCPConnection_write :: "bytes \<Rightarrow> TCPConnection \<Rightarrow> size_t \<times> TCPConnection" where
  "TCPConnection_write data c =
     (let (n, stream) = ByteStream_write data (sn_stream (cn_sender c));
          sender = TCPSender_fill_window ((cn_sender c)\<lparr>sn_stream := stream\<rparr>)
      in (n, TCPConnection_segment_out (c\<lparr>cn_sender := sender\<rparr>)))"

definition TCPConnection_tick :: "size_t \<Rightarrow> TCPConnection \<Rightarrow> TCPConnection result" where
  "TCPConnection_tick ms_since_last_tick c =
     bindE (TCPSender_tick ms_since_last_tick (cn_sender c)) (\<lambda>sender.
       let c = c\<lparr>cn_sender := sender, cn_time := cn_time c + ms_since_last_tick\<rparr>;
           c = (if TCPSender_consecutive_retransmissions (cn_sender c) > MAX_RETX_ATTEMPTS
                then TCPConnection_rst_segment (TCPConnection_unclean c) else c)
       in Inr (TCPConnection_segment_out c))"

definition TCPConnection_end_input_stream :: "TCPConnection \<Rightarrow> TCPConnection" where
  "TCPConnection_end_input_stream c =
     (let sender = (cn_sender c)\<lparr>sn_stream := ByteStream_end_input (sn_stream (cn_sender c))\<rparr>
      in TCPConnection_segment_out (c\<lparr>cn_sender := TCPSender_fill_window sender\<rparr>))"

definition TCPConnection_connect :: "TCPConnection \<Rightarrow> TCPConnection" where
  "TCPConnection_connect c = TCPConnection_segment_out (c\<lparr>cn_sender := TCPSender_fill_window (cn_sender c)\<rparr>)"

text \<open>What the destructor leaves in the queue.\<close>

definition TCPConnection_delete :: "TCPConnection \<Rightarrow> TCPConnection" where
  "TCPConnection_delete c = (if TCPConnection_active c then TCPConnection_rst_segment c else c)"

section \<open>The outgoing queue\<close>

lemma segment_out_eq:
  "TCPConnection_segment_out c = c\<lparr>cn_segments_out := cn_segments_out c
       @ map (TCPConnection_receiver_info c) (sn_segments_out (cn_sender c)),
     cn_sender := (cn_sender c)\<lparr>sn_segments_out := []\<rparr>\<rparr>"
proof (induction "sn_segments_out (cn_sender c)" arbitrary: c)
  case Nil
  then show ?case by (cases c; cases "cn_sender c") (simp add: TCPConnection_segment_out.simps)
next
  case (Cons seg segs)
  let ?c = "c\<lparr>cn_segments_out := cn_segments_out c @ [TCPConnection_receiver_info c seg],
             cn_sender := (cn_sender c)\<lparr>sn_segments_out := segs\<rparr>\<rparr>"
  have info: "TCPConnection_receiver_info ?c = TCPConnection_receiver_info c"
    by (simp add: TCPConnection_receiver_info_def fun_eq_iff cong: option.case_cong)
  have "TCPConnection_segment_out c = TCPConnection_segment_out ?c"
    by (subst TCPConnection_segment_out.simps) (simp flip: Cons.hyps(2))
  also have "\<dots> = ?c\<lparr>cn_segments_out := cn_segments_out ?c @ map (TCPConnection_receiver_info c) segs,
      cn_sender := (cn_sender c)\<lparr>sn_segments_out := []\<rparr>\<rparr>"
    using Cons.hyps(1) [of ?c] by (simp add: info)
  also have "\<dots> = c\<lparr>cn_segments_out := cn_segments_out c @ map (TCPConnection_receiver_info c) (seg # segs),
      cn_sender := (cn_sender c)\<lparr>sn_segments_out := []\<rparr>\<rparr>" by simp
  finally show ?case by (simp flip: Cons.hyps(2))
qed

lemma receiver_info_piece [simp]:
  "seg_len (TCPConnection_receiver_info c seg) = seg_len seg"
  "seg_genuine S L isn a (TCPConnection_receiver_info c seg) = seg_genuine S L isn a seg"
  by (simp_all add: TCPConnection_receiver_info_def seg_genuine_def seg_len_def split: option.splits)

section \<open>Runs of a connection\<close>

text \<open>
  \<open>cn_reach S L c\<close>: the endpoint \<open>c\<close> results from a new one by any sequence of calls in which
  its application writes the stream \<open>S\<close> and ends it after \<open>L\<close> bytes. Segments of any content
  arrive at any time, and the owner takes segments out of the queue.
\<close>

inductive cn_reach :: "(nat \<Rightarrow> u8) \<Rightarrow> nat \<Rightarrow> TCPConnection \<Rightarrow> bool" for S L where
  new: "cn_reach S L (TCPConnection_new cfg random)"
| connect: "cn_reach S L c \<Longrightarrow> cn_reach S L (TCPConnection_connect c)"
| put: "cn_reach S L c \<Longrightarrow> \<not> bs_end (sn_stream (cn_sender c)) \<Longrightarrow>
    data = stretch S (unat (bs_alwritten (sn_stream (cn_sender c)))) n \<Longrightarrow>
    unat (bs_alwritten (sn_stream (cn_sender c))) + n \<le> L \<Longrightarrow>
    cn_reach S L (snd (TCPConnection_write data c))"
| end_input: "cn_reach S L c \<Longrightarrow> unat (bs_alwritten (sn_stream (cn_sender c))) = L \<Longrightarrow>
    cn_reach S L (TCPConnection_end_input_stream c)"
| segment: "cn_reach S L c \<Longrightarrow> TCPConnection_segment_received seg c = Inr c' \<Longrightarrow> cn_reach S L c'"
| tick: "cn_reach S L c \<Longrightarrow> TCPConnection_tick ms c = Inr c' \<Longrightarrow> cn_reach S L c'"
| pop: "cn_reach S L c \<Longrightarrow> cn_reach S L (c\<lparr>cn_segments_out := drop n (cn_segments_out c)\<rparr>)"
| read: "cn_reach S L c \<Longrightarrow> ByteStream_read n (TCPConnection_inbound_stream c) = (data, stream) \<Longrightarrow>
    cn_reach S L (c\<lparr>cn_receiver := (cn_receiver c)\<lparr>rc_reassembler :=
      (rc_reassembler (cn_receiver c))\<lparr>sr_output := stream\<rparr>\<rparr>\<rparr>)"

definition cn_inv :: "(nat \<Rightarrow> u8) \<Rightarrow> nat \<Rightarrow> TCPConnection \<Rightarrow> bool" where
  "cn_inv S L c \<longleftrightarrow> sn_reach S L (cn_sender c) \<and> (\<forall>seg \<in> set (cn_segments_out c). piece S L (cn_sender c) seg)"

lemma cn_inv_irrelevant [simp]:
  "cn_inv S L (c\<lparr>cn_receiver := r\<rparr>) = cn_inv S L c"
  "cn_inv S L (c\<lparr>cn_linger_after_streams_finish := b\<rparr>) = cn_inv S L c"
  "cn_inv S L (c\<lparr>cn_rst := b\<rparr>) = cn_inv S L c"
  "cn_inv S L (c\<lparr>cn_time := t\<rparr>) = cn_inv S L c"
  "cn_inv S L (c\<lparr>cn_last_segment_time := t\<rparr>) = cn_inv S L c"
  by (simp_all add: cn_inv_def)

lemma cn_inv_sender:
  "cn_inv S L c \<Longrightarrow> sn_reach S L s' \<Longrightarrow> sn_adv (cn_sender c) s' \<Longrightarrow> cn_inv S L (c\<lparr>cn_sender := s'\<rparr>)"
  by (auto simp: cn_inv_def intro: piece_adv)

lemma sn_reach_clear: "sn_reach S L s \<Longrightarrow> sn_reach S L (s\<lparr>sn_segments_out := []\<rparr>)"
  using sn_reach.pop [of S L s "length (sn_segments_out s)"] by simp

lemma piece_queue [simp]: "piece S L (s\<lparr>sn_segments_out := q\<rparr>) = piece S L s"
  by (simp add: piece_def fun_eq_iff)

lemma piece_info [simp]: "piece S L s (TCPConnection_receiver_info c seg) = piece S L s seg"
  by (simp add: piece_def)

lemma cn_inv_segment_out:
  assumes "cn_inv S L c" and L: "L + 2 < 2 ^ 64"
  shows "cn_inv S L (TCPConnection_segment_out c)"
  using assms queued_piece [OF sn_reach_inv [OF _ L]]
  by (auto simp: cn_inv_def segment_out_eq sn_reach_clear)

lemma cn_inv_unclean:
  assumes "cn_inv S L c"
  shows "cn_inv S L (TCPConnection_unclean c)"
  using assms cn_inv_sender [OF assms sn_reach.set_error, of "cn_sender c"]
  by (simp add: cn_inv_def TCPConnection_unclean_def sn_adv_def)

lemma cn_inv_rst_segment:
  assumes inv: "cn_inv S L c" and L: "L + 2 < 2 ^ 64"
  shows "cn_inv S L (TCPConnection_rst_segment c)"
proof -
  define c1 where "c1 = (if sn_segments_out (cn_sender c) = []
      then c\<lparr>cn_sender := TCPSender_send_empty_segment (cn_sender c)\<rparr> else c)"
  have sn: "sn_reach S L (cn_sender c)" using inv by (simp add: cn_inv_def)
  have "cn_inv S L (c\<lparr>cn_sender := TCPSender_send_empty_segment (cn_sender c)\<rparr>)"
    by (rule cn_inv_sender [OF inv sn_reach.empty [OF sn]])
      (simp add: sn_adv_def TCPSender_send_empty_segment_def Let_def)
  with inv have inv1: "cn_inv S L c1" by (simp add: c1_def)
  then have sn1: "sn_reach S L (cn_sender c1)" by (simp add: cn_inv_def)
  have ne: "sn_segments_out (cn_sender c1) \<noteq> []"
    by (simp add: c1_def TCPSender_send_empty_segment_def Let_def)
  let ?seg = "TCPConnection_receiver_info c1 (hd (sn_segments_out (cn_sender c1)))"
  have "piece S L (cn_sender c1) ?seg"
    using queued_piece [OF sn_reach_inv [OF sn1 L] hd_in_set [OF ne]] by simp
  then have "piece S L (cn_sender c1) (?seg\<lparr>ts_header := (ts_header ?seg)\<lparr>th_rst := True\<rparr>\<rparr>)"
    by (simp add: piece_def seg_genuine_def seg_len_def)
  moreover have "sn_reach S L ((cn_sender c1)\<lparr>sn_segments_out := tl (sn_segments_out (cn_sender c1))\<rparr>)"
    using sn_reach.pop [OF sn1, of 1] by (simp add: drop_Suc)
  ultimately show ?thesis
    using inv1 unfolding TCPConnection_rst_segment_def Let_def c1_def [symmetric] by (simp add: cn_inv_def)
qed

lemma cn_inv_fill:
  assumes inv: "cn_inv S L c" and L: "L + 2 < 2 ^ 64" and s: "sn_reach S L s" "sn_adv (cn_sender c) s"
  shows "cn_inv S L (TCPConnection_segment_out (c\<lparr>cn_sender := TCPSender_fill_window s\<rparr>))"
proof (intro cn_inv_segment_out [OF _ L] cn_inv_sender [OF inv])
  show "sn_reach S L (TCPSender_fill_window s)" by (rule sn_reach.fill [OF s(1)])
  show "sn_adv (cn_sender c) (TCPSender_fill_window s)"
    using fill_window_adv [OF sn_reach_inv [OF s(1) L] L] s(2) by (simp add: sn_adv_def)
qed

text \<open>The steps of \<open>segment_received\<close> on the sender keep the invariant.\<close>

lemma cn_inv_ack:
  assumes inv: "cn_inv S L c" and L: "L + 2 < 2 ^ 64"
    and "(b, s) = (if th_ack h then TCPSender_ack_received (th_ackno h) (th_win h) (cn_sender c)
      else (True, TCPSender_fill_window (cn_sender c)))"
  shows "cn_inv S L (c\<lparr>cn_sender := s\<rparr>)"
proof -
  have sn: "sn_reach S L (cn_sender c)" using inv by (simp add: cn_inv_def)
  note I = sn_reach_inv [OF sn L]
  have "s = (if th_ack h then snd (TCPSender_ack_received (th_ackno h) (th_win h) (cn_sender c))
      else TCPSender_fill_window (cn_sender c))"
    using assms(3) by (auto simp: prod_eq_iff split: if_splits)
  then show ?thesis
    using cn_inv_sender [OF inv] sn_reach.ack [OF sn] sn_reach.fill [OF sn] ack_received_adv [OF I L] fill_window_adv [OF I L]
    by auto
qed

lemma segment_received_inv:
  assumes inv: "cn_inv S L c" and L: "L + 2 < 2 ^ 64" and res: "TCPConnection_segment_received seg c = Inr c'"
  shows "cn_inv S L c'"
proof -
  define c0 where "c0 = c\<lparr>cn_last_segment_time := cn_time c\<rparr>"
  define c1 where "c1 = (if ByteStream_input_ended (TCPReceiver_stream_out (cn_receiver c0)) \<and> \<not> TCPSender_fin_sent (cn_sender c0)
      then c0\<lparr>cn_linger_after_streams_finish := False\<rparr> else c0)"
  obtain b s where bs: "(b, s) = (if th_ack (ts_header seg)
      then TCPSender_ack_received (th_ackno (ts_header seg)) (th_win (ts_header seg)) (cn_sender c1)
      else (True, TCPSender_fill_window (cn_sender c1)))"
    by (metis surj_pair)
  have "cn_inv S L c0" "cn_inv S L c1" using inv by (simp_all add: c0_def c1_def)
  then have s: "cn_inv S L (c1\<lparr>cn_sender := s\<rparr>)" using cn_inv_ack [OF _ L bs] by blast
  have sn: "sn_reach S L s" using s by (simp add: cn_inv_def)
  have "cn_inv S L (c1\<lparr>cn_sender := TCPSender_send_empty_segment s\<rparr>)"
    using cn_inv_sender [OF s sn_reach.empty [OF sn]]
    by (simp add: sn_adv_def TCPSender_send_empty_segment_def Let_def)
  then have empty: "cn_inv S L (c1\<lparr>cn_receiver := r, cn_sender := TCPSender_send_empty_segment s\<rparr>)" for r
    by (simp add: cn_inv_def)
  show ?thesis
    using res \<open>cn_inv S L c0\<close> s cn_inv_unclean [of S L c0] cn_inv_segment_out [OF empty L]
      cn_inv_segment_out [OF _ L]
    unfolding TCPConnection_segment_received_def Let_def c0_def [symmetric] c1_def [symmetric] bs [symmetric]
    by (auto simp: bindE_Inr_iff split: if_splits)
qed

lemma tick_unfold:
  assumes "sn_inv S L (cn_sender c)"
  obtains s where "TCPSender_tick ms (cn_sender c) = Inr s"
    and "TCPConnection_tick ms c = Inr (let c' = c\<lparr>cn_sender := s, cn_time := cn_time c + ms\<rparr> in
      TCPConnection_segment_out (if sn_consecutive_retrans s > MAX_RETX_ATTEMPTS
        then TCPConnection_rst_segment (TCPConnection_unclean c') else c'))"
proof -
  obtain s where "TCPSender_tick ms (cn_sender c) = Inr s" using tick_inv [OF assms, of ms] by blast
  then show ?thesis
    by (intro that [of s]) (simp_all add: TCPConnection_tick_def TCPSender_consecutive_retransmissions_def Let_def)
qed

lemma connection_tick_inv:
  assumes inv: "cn_inv S L c" and L: "L + 2 < 2 ^ 64"
  shows "\<exists>c'. TCPConnection_tick ms c = Inr c' \<and> cn_inv S L c'"
proof -
  have sn: "sn_reach S L (cn_sender c)" using inv by (simp add: cn_inv_def)
  obtain s where s: "TCPSender_tick ms (cn_sender c) = Inr s"
      "TCPConnection_tick ms c = Inr (let c' = c\<lparr>cn_sender := s, cn_time := cn_time c + ms\<rparr> in
        TCPConnection_segment_out (if sn_consecutive_retrans s > MAX_RETX_ATTEMPTS
          then TCPConnection_rst_segment (TCPConnection_unclean c') else c'))"
    by (rule tick_unfold [OF sn_reach_inv [OF sn L], of ms])
  have "cn_inv S L (c\<lparr>cn_sender := s, cn_time := cn_time c + ms\<rparr>)"
    using cn_inv_sender [OF inv sn_reach.tick [OF sn s(1)] tick_adv [OF s(1)]] by simp
  then show ?thesis
    using cn_inv_segment_out [OF _ L] cn_inv_rst_segment [OF cn_inv_unclean L] by (auto simp: s(2) Let_def)
qed

lemma cn_reach_inv:
  assumes "cn_reach S L c" and L: "L + 2 < 2 ^ 64"
  shows "cn_inv S L c"
  using assms(1)
proof induction
  case (new cfg random)
  show ?case by (simp add: cn_inv_def TCPConnection_new_def sn_reach.new)
next
  case (connect c)
  then show ?case using cn_inv_fill [OF connect.IH L, of "cn_sender c"]
    by (simp add: TCPConnection_connect_def cn_inv_def sn_adv_def)
next
  case (put c data n)
  let ?s = "(cn_sender c)\<lparr>sn_stream := snd (ByteStream_write data (sn_stream (cn_sender c)))\<rparr>"
  have "sn_reach S L (cn_sender c)" using put.IH by (simp add: cn_inv_def)
  from sn_reach.put [OF this put.hyps(2-4)] have "sn_reach S L ?s" .
  then show ?case using cn_inv_fill [OF put.IH L, of ?s]
    by (simp add: TCPConnection_write_def Let_def sn_adv_def split_beta)
next
  case (end_input c)
  let ?s = "(cn_sender c)\<lparr>sn_stream := ByteStream_end_input (sn_stream (cn_sender c))\<rparr>"
  have "sn_reach S L ?s" using end_input by (auto simp: cn_inv_def intro: sn_reach.end_input)
  then show ?case using cn_inv_fill [OF end_input.IH L, of ?s]
    by (simp add: TCPConnection_end_input_stream_def Let_def sn_adv_def)
next
  case (segment c seg c')
  then show ?case using segment_received_inv [OF _ L] by blast
next
  case (tick c ms c')
  then show ?case using connection_tick_inv [OF tick.IH L, of ms] by auto
next
  case (pop c n)
  then show ?case by (auto simp: cn_inv_def dest: in_set_dropD)
next
  case (read c n data stream)
  then show ?case by simp
qed

section \<open>Opening a connection\<close>

text \<open>One endpoint hands the first segment of its queue to the other.\<close>

definition hand_over :: "TCPConnection \<times> TCPConnection \<Rightarrow> (TCPConnection \<times> TCPConnection) result" where
  "hand_over = (\<lambda>(a, b). case cn_segments_out a of
       [] \<Rightarrow> Inr (a, b)
     | seg # segs \<Rightarrow> bindE (TCPConnection_segment_received seg b) (\<lambda>b'. Inr (a\<lparr>cn_segments_out := segs\<rparr>, b')))"

definition hand_back :: "TCPConnection \<times> TCPConnection \<Rightarrow> (TCPConnection \<times> TCPConnection) result" where
  "hand_back = (\<lambda>(a, b). bindE (hand_over (b, a)) (\<lambda>(b', a'). Inr (a', b')))"

lemma fill_window_idle: "fill_done s \<Longrightarrow> TCPSender_fill_window s = s"
  by (subst fill_window_unfold) simp

definition syn_of :: "WrappingInt32 \<Rightarrow> TCPSegment" where
  "syn_of isn = \<lparr>ts_header = TCPHeader_new\<lparr>th_seqno := isn, th_syn := True\<rparr>, ts_payload = []\<rparr>"

text \<open>A sender that has sent its SYN, and one whose SYN is acknowledged.\<close>

definition sender_opening :: "size_t \<Rightarrow> u16 \<Rightarrow> WrappingInt32 \<Rightarrow> TCPSender" where
  "sender_opening capacity rt isn = (TCPSender_new capacity rt (Some isn) 0)\<lparr>sn_unacked := [syn_of isn], sn_byte_sent := 1,
     sn_timer := Timer_start 0 (Timer_new (ucast rt))\<rparr>"

definition sender_open :: "size_t \<Rightarrow> u16 \<Rightarrow> WrappingInt32 \<Rightarrow> u16 \<Rightarrow> TCPSender" where
  "sender_open capacity rt isn win = (TCPSender_new capacity rt (Some isn) 0)\<lparr>sn_byte_sent := 1, sn_byte_received := 1,
     sn_window_size := win\<rparr>"

lemmas sender_fields = TCPSender_new_def ByteStream_new_def Timer_new_def Timer_start_def Timer_rto_reset_def

lemma fill_new:
  "TCPSender_fill_window (TCPSender_new capacity rt (Some isn) r)
    = (sender_opening capacity rt isn)\<lparr>sn_segments_out := [syn_of isn]\<rparr>"
proof -
  let ?s = "TCPSender_new capacity rt (Some isn) r" and ?t = "(sender_opening capacity rt isn)\<lparr>sn_segments_out := [syn_of isn]\<rparr>"
  have len: "fill_len ?s = 0" "syn_len ?s = 1" "in_flight ?s = 0" "send_window ?s = 1" "\<not> fill_fin ?s"
    by (simp_all add: fill_len_def syn_len_def fill_fin_def in_flight_def send_window_def TCPSender_bytes_in_flight_def
        sender_fields ByteStream_buffer_size_def)
  then have "\<not> fill_done ?s" by (simp add: fill_done_def) (simp add: sender_fields)
  moreover have "fill_next ?s = ?t"
    using len by (simp add: fill_next_def fill_total_def fill_seg_def)
      (simp add: sender_opening_def sender_fields syn_of_def TCPHeader_new_def TCPSender_next_seqno_def wrap_0)
  moreover have "fill_done ?t"
    by (simp add: fill_done_def in_flight_def send_window_def TCPSender_bytes_in_flight_def sender_opening_def sender_fields)
  ultimately show ?thesis by (subst fill_window_unfold) (simp add: fill_window_idle)
qed

lemma fill_open: "TCPSender_fill_window (sender_open capacity rt isn win) = sender_open capacity rt isn win"
proof (rule fill_window_idle)
  have "fill_len (sender_open capacity rt isn win) = 0" "syn_len (sender_open capacity rt isn win) = 0"
    by (simp_all add: fill_len_def syn_len_def sender_open_def sender_fields ByteStream_buffer_size_def)
  then show "fill_done (sender_open capacity rt isn win)"
    by (simp add: fill_done_def) (simp add: sender_open_def sender_fields ByteStream_eof_def)
qed

lemma ack_opening:
  "TCPSender_ack_received (wrap 1 isn) win (sender_opening capacity rt isn) = (True, sender_open capacity rt isn win)"
proof -
  have n: "unwrap (wrap 1 isn) isn 0 = 1" "unwrap isn isn 1 = 0"
    using unwrap_wrap [of 1 0 isn] unwrap_wrap [of 0 1 isn] by (simp_all add: wrap_0)
  have "ack_advance 1 win (sender_opening capacity rt isn) = sender_open capacity rt isn win"
    by (simp add: ack_advance_def Let_def sender_opening_def sender_open_def sender_fields n syn_of_def TCPHeader_new_def
        TCPSegment_length_in_sequence_space_def)
  moreover have "sn_byte_received (sender_opening capacity rt isn) = 0" "sn_byte_sent (sender_opening capacity rt isn) = 1"
      "sn_isn (sender_opening capacity rt isn) = isn"
    by (simp_all add: sender_opening_def sender_fields)
  ultimately show ?thesis by (simp add: ack_received_cases n Let_def fill_open)
qed

text \<open>A receiver that has seen a SYN, and an empty segment after it.\<close>

definition receiver_open :: "size_t \<Rightarrow> WrappingInt32 \<Rightarrow> TCPReceiver" where
  "receiver_open capacity isn = (TCPReceiver_new capacity)\<lparr>rc_isn := isn, rc_isnset := True\<rparr>"

lemma push_nothing:
  "\<not> sr_checkeof r \<Longrightarrow> StreamReassembler_push_substring [] i False r = Inr r"
  using push_empty_other [of False r i] by simp

lemma receive_syn:
  assumes "th_syn (ts_header seg)" "\<not> th_fin (ts_header seg)" "ts_payload seg = []"
  shows "TCPReceiver_segment_received seg (TCPReceiver_new capacity) = Inr (True, receiver_open capacity (th_seqno (ts_header seg)))"
  using assms by (simp add: TCPReceiver_segment_received_def TCPReceiver_new_def receiver_open_def push_nothing StreamReassembler_new_def)

lemma ackno_open: "TCPReceiver_ackno (receiver_open capacity isn) = Some (wrap 1 isn)"
  by (simp add: TCPReceiver_ackno_def receiver_open_def TCPReceiver_new_def StreamReassembler_new_def ByteStream_new_def
      ByteStream_bytes_written_def)

lemma receive_empty:
  assumes "\<not> th_syn (ts_header seg)" "\<not> th_fin (ts_header seg)" "ts_payload seg = []" "th_seqno (ts_header seg) = wrap 1 isn"
    and cap: "unat capacity + 1 < 2 ^ 64"
  shows "TCPReceiver_segment_received seg (receiver_open capacity isn) = Inr (True, receiver_open capacity isn)"
proof -
  have n: "unwrap (wrap 1 isn) isn 0 = 1" using unwrap_wrap [of 1 0 isn] by simp
  have "unat (1 + capacity) = 1 + unat capacity" using cap by (subst unat_add_nowrap) simp_all
  then have w: "capacity \<noteq> 0 \<longrightarrow> 1 < 1 + capacity" by (auto simp: word_less_nat_alt unat_gt_0)
  have fields: "rc_isnset (receiver_open capacity isn)" "rc_isn (receiver_open capacity isn) = isn"
      "ByteStream_bytes_written (sr_output (rc_reassembler (receiver_open capacity isn))) = 0"
      "TCPReceiver_window_size (receiver_open capacity isn) = capacity"
      "\<not> sr_checkeof (rc_reassembler (receiver_open capacity isn))"
    by (simp_all add: receiver_open_def TCPReceiver_new_def StreamReassembler_new_def ByteStream_new_def
        ByteStream_bytes_written_def TCPReceiver_window_size_def ByteStream_remaining_capacity_def)
  show ?thesis
    using assms(1-4) w by (simp add: TCPReceiver_segment_received_def Let_def ackno_open fields n push_nothing)
qed

text \<open>The endpoint after its SYN, and after the handshake.\<close>

definition opened :: "TCPConfig \<Rightarrow> WrappingInt32 \<Rightarrow> WrappingInt32 \<Rightarrow> u16 \<Rightarrow> TCPConnection \<Rightarrow> bool" where
  "opened cfg isn peer win c \<longleftrightarrow> cn_sender c = sender_open (cfg_send_capacity cfg) (cfg_rt_timeout cfg) isn win
     \<and> cn_receiver c = receiver_open (cfg_recv_capacity cfg) peer \<and> \<not> cn_rst c \<and> cn_linger_after_streams_finish c"

lemma opened_established:
  assumes "opened cfg isn peer win c"
  shows "TCPConnection_state c = TCPState_of_State ESTABLISHED"
proof -
  have c: "cn_sender c = sender_open (cfg_send_capacity cfg) (cfg_rt_timeout cfg) isn win"
      "cn_receiver c = receiver_open (cfg_recv_capacity cfg) peer" "\<not> cn_rst c" "cn_linger_after_streams_finish c"
    using assms by (auto simp: opened_def)
  have "sender_state_summary (cn_sender c) = SenderSummary_SYN_ACKED"
    by (simp add: c sender_state_summary_def sender_open_def sender_fields ByteStream_accessors
        TCPSender_next_seqno_absolute_def TCPSender_bytes_in_flight_def)
  moreover have "receiver_state_summary (cn_receiver c) = ReceiverSummary_SYN_RECV"
    by (simp add: c receiver_state_summary_def ackno_open)
      (simp add: receiver_open_def TCPReceiver_stream_out_def TCPReceiver_new_def StreamReassembler_new_def
        ByteStream_new_def ByteStream_accessors)
  moreover have "TCPConnection_active c"
    using c(3) by (simp add: TCPConnection_active_def TCPSender_fin_sent_def c sender_open_def sender_fields)
  ultimately show ?thesis using c(4) by (simp add: TCPConnection_state_def TCPState_new_def)
qed

lemma new_receiver_fields [simp]:
  "TCPReceiver_ackno (TCPReceiver_new c) = None" "\<not> ByteStream_input_ended (TCPReceiver_stream_out (TCPReceiver_new c))"
  "\<not> ByteStream_input_ended (TCPReceiver_stream_out (receiver_open c isn))"
  by (simp_all add: TCPReceiver_ackno_def TCPReceiver_new_def receiver_open_def TCPReceiver_stream_out_def
      StreamReassembler_new_def ByteStream_new_def ByteStream_accessors)

definition three_way_handshake :: "TCPConfig \<Rightarrow> TCPConfig \<Rightarrow> (TCPConnection \<times> TCPConnection) result" where
  "three_way_handshake cfg_a cfg_b =
     bindE (hand_over (TCPConnection_connect (TCPConnection_new cfg_a 0), TCPConnection_new cfg_b 0)) (\<lambda>p.
     bindE (hand_back p) hand_over)"

lemma connect_new:
  assumes "cfg_fixed_isn cfg = Some isn"
  shows "TCPConnection_connect (TCPConnection_new cfg 0) = (TCPConnection_new cfg 0)\<lparr>cn_segments_out := [syn_of isn],
     cn_sender := sender_opening (cfg_send_capacity cfg) (cfg_rt_timeout cfg) isn\<rparr>"
  using assms
  by (simp add: TCPConnection_connect_def segment_out_eq TCPConnection_new_def fill_new TCPConnection_receiver_info_def)
    (simp add: sender_opening_def sender_fields)

text \<open>The reply to a SYN, with its acknowledgment.\<close>

definition syn_ack :: "WrappingInt32 \<Rightarrow> WrappingInt32 \<Rightarrow> u16 \<Rightarrow> TCPSegment" where
  "syn_ack isn peer win = (syn_of isn)\<lparr>ts_header := (ts_header (syn_of isn))\<lparr>th_ack := True, th_ackno := wrap 1 peer, th_win := win\<rparr>\<rparr>"

lemma syn_lengths [simp]: "TCPSegment_length_in_sequence_space (syn_of isn) = 1"
  "TCPSegment_length_in_sequence_space (syn_ack isn peer win) = 1"
  by (simp_all add: TCPSegment_length_in_sequence_space_def syn_ack_def syn_of_def TCPHeader_new_def)

lemma syn_fields [simp]: "th_syn (ts_header (syn_of isn))" "\<not> th_fin (ts_header (syn_of isn))" "ts_payload (syn_of isn) = []"
  "\<not> th_rst (ts_header (syn_of isn))" "\<not> th_ack (ts_header (syn_of isn))" "th_seqno (ts_header (syn_of isn)) = isn"
  by (simp_all add: syn_of_def TCPHeader_new_def)

lemma answer_syn:
  assumes "cfg_fixed_isn cfg = Some isn"
  shows "TCPConnection_segment_received (syn_of peer) (TCPConnection_new cfg 0) =
    Inr ((TCPConnection_new cfg 0)\<lparr>cn_segments_out := [syn_ack isn peer (ucast (cfg_recv_capacity cfg))],
      cn_sender := sender_opening (cfg_send_capacity cfg) (cfg_rt_timeout cfg) isn,
      cn_receiver := receiver_open (cfg_recv_capacity cfg) peer\<rparr>)"
proof -
  have win: "TCPReceiver_window_size (receiver_open capacity peer) = capacity" for capacity
    by (simp add: receiver_open_def TCPReceiver_new_def StreamReassembler_new_def ByteStream_new_def
        TCPReceiver_window_size_def ByteStream_remaining_capacity_def)
  show ?thesis
    using assms
    by (simp add: TCPConnection_segment_received_def Let_def TCPConnection_new_def fill_new receive_syn segment_out_eq
        TCPConnection_receiver_info_def ackno_open win syn_ack_def)
      (simp add: sender_opening_def sender_fields)
qed

text \<open>The acknowledgment of the reply.\<close>

definition ack_of :: "WrappingInt32 \<Rightarrow> WrappingInt32 \<Rightarrow> u16 \<Rightarrow> TCPSegment" where
  "ack_of isn peer win = \<lparr>ts_header = TCPHeader_new\<lparr>th_seqno := wrap 1 isn, th_ack := True, th_ackno := wrap 1 peer,
     th_win := win\<rparr>, ts_payload = []\<rparr>"

lemma answer_syn_ack:
  assumes c: "cn_sender c = sender_opening (cfg_send_capacity cfg) (cfg_rt_timeout cfg) isn"
    "cn_receiver c = TCPReceiver_new (cfg_recv_capacity cfg)" "\<not> cn_rst c" "cn_linger_after_streams_finish c"
    "cn_segments_out c = []"
  shows "\<exists>c'. TCPConnection_segment_received (syn_ack peer isn win) c = Inr c' \<and> opened cfg isn peer win c'
    \<and> cn_segments_out c' = [ack_of isn peer (ucast (cfg_recv_capacity cfg))]"
proof -
  have win: "TCPReceiver_window_size (receiver_open capacity peer) = capacity" for capacity
    by (simp add: receiver_open_def TCPReceiver_new_def StreamReassembler_new_def ByteStream_new_def
        TCPReceiver_window_size_def ByteStream_remaining_capacity_def)
  have h: "th_syn (ts_header (syn_ack peer isn win))" "\<not> th_fin (ts_header (syn_ack peer isn win))"
      "ts_payload (syn_ack peer isn win) = []" "th_seqno (ts_header (syn_ack peer isn win)) = peer"
      "th_ack (ts_header (syn_ack peer isn win))" "th_ackno (ts_header (syn_ack peer isn win)) = wrap 1 isn"
      "th_win (ts_header (syn_ack peer isn win)) = win" "\<not> th_rst (ts_header (syn_ack peer isn win))"
    by (simp_all add: syn_ack_def)
  have q: "sn_segments_out (sender_open capacity rt isn w) = []" for capacity rt w
    by (simp add: sender_open_def sender_fields)
  have idle: "\<not> TCPSender_fin_sent (sender_opening capacity rt isn)" for capacity rt
    by (simp add: sender_opening_def sender_fields TCPSender_fin_sent_def)
  show ?thesis
    using c h
    by (simp add: TCPConnection_segment_received_def Let_def ack_opening receive_syn segment_out_eq q idle
        TCPConnection_receiver_info_def ackno_open win opened_def TCPSender_send_empty_segment_def ack_of_def
        TCPSegment_new_def TCPHeader_new_def)
      (simp add: sender_open_def sender_fields TCPSender_next_seqno_def)
qed

lemma answer_ack:
  assumes c: "cn_sender c = sender_opening (cfg_send_capacity cfg) (cfg_rt_timeout cfg) isn"
    "cn_receiver c = receiver_open (cfg_recv_capacity cfg) peer" "\<not> cn_rst c" "cn_linger_after_streams_finish c"
    and cap: "unat (cfg_recv_capacity cfg) + 1 < 2 ^ 64"
  shows "\<exists>c'. TCPConnection_segment_received (ack_of peer isn win) c = Inr c' \<and> opened cfg isn peer win c'"
proof -
  have len: "TCPSegment_length_in_sequence_space (ack_of peer isn win) = 0"
    by (simp add: TCPSegment_length_in_sequence_space_def ack_of_def TCPHeader_new_def)
  have h: "\<not> th_syn (ts_header (ack_of peer isn win))" "\<not> th_fin (ts_header (ack_of peer isn win))"
      "ts_payload (ack_of peer isn win) = []" "th_seqno (ts_header (ack_of peer isn win)) = wrap 1 peer"
      "th_ack (ts_header (ack_of peer isn win))" "th_ackno (ts_header (ack_of peer isn win)) = wrap 1 isn"
      "th_win (ts_header (ack_of peer isn win)) = win" "\<not> th_rst (ts_header (ack_of peer isn win))"
    by (simp_all add: ack_of_def TCPHeader_new_def)
  show ?thesis
    using c h
    by (simp add: TCPConnection_segment_received_def Let_def ack_opening receive_empty [OF h(1-4) cap] len ackno_open opened_def)
qed

text \<open>
  C22. For all initial sequence numbers, timeouts and capacities, the three segments of the
  handshake - SYN, SYN with acknowledgment, acknowledgment - bring a connecting and a
  listening endpoint to the state ESTABLISHED, with nothing left in flight.
\<close>

theorem handshake_establishes:
  assumes "cfg_fixed_isn cfg_a = Some isn_a" and "cfg_fixed_isn cfg_b = Some isn_b"
    and "unat (cfg_recv_capacity cfg_b) + 1 < 2 ^ 64"
  shows "\<exists>a b. three_way_handshake cfg_a cfg_b = Inr (a, b)
    \<and> TCPConnection_state a = TCPState_of_State ESTABLISHED \<and> TCPConnection_state b = TCPState_of_State ESTABLISHED
    \<and> TCPConnection_bytes_in_flight a = 0 \<and> TCPConnection_bytes_in_flight b = 0"
proof -
  define a0 where "a0 = (TCPConnection_new cfg_a 0)\<lparr>cn_sender :=
    sender_opening (cfg_send_capacity cfg_a) (cfg_rt_timeout cfg_a) isn_a\<rparr>"
  define b0 where "b0 = (TCPConnection_new cfg_b 0)\<lparr>
      cn_sender := sender_opening (cfg_send_capacity cfg_b) (cfg_rt_timeout cfg_b) isn_b,
      cn_receiver := receiver_open (cfg_recv_capacity cfg_b) isn_a\<rparr>"
  obtain a where a: "TCPConnection_segment_received (syn_ack isn_b isn_a (ucast (cfg_recv_capacity cfg_b))) a0 = Inr a"
      "opened cfg_a isn_a isn_b (ucast (cfg_recv_capacity cfg_b)) a"
      "cn_segments_out a = [ack_of isn_a isn_b (ucast (cfg_recv_capacity cfg_a))]"
    using answer_syn_ack [of a0 cfg_a isn_a isn_b "ucast (cfg_recv_capacity cfg_b)"]
    by (auto simp: a0_def TCPConnection_new_def)
  obtain b where b: "TCPConnection_segment_received (ack_of isn_a isn_b (ucast (cfg_recv_capacity cfg_a))) b0 = Inr b"
      "opened cfg_b isn_b isn_a (ucast (cfg_recv_capacity cfg_a)) b"
    using answer_ack [of b0 cfg_b isn_b isn_a] assms(3) by (auto simp: b0_def TCPConnection_new_def)
  have "three_way_handshake cfg_a cfg_b = Inr (a\<lparr>cn_segments_out := []\<rparr>, b)"
    using a b unfolding a0_def b0_def three_way_handshake_def hand_over_def hand_back_def connect_new [OF assms(1)]
    by (simp add: answer_syn [OF assms(2)]) (simp add: TCPConnection_new_def)
  moreover have "opened cfg_a isn_a isn_b (ucast (cfg_recv_capacity cfg_b)) (a\<lparr>cn_segments_out := []\<rparr>)"
    using a(2) by (simp add: opened_def)
  moreover have "TCPConnection_bytes_in_flight c = 0" if "opened cfg isn peer win c" for cfg isn peer win c
    using that by (simp add: opened_def TCPConnection_bytes_in_flight_def TCPSender_bytes_in_flight_def sender_open_def)
  ultimately show ?thesis using b(2) opened_established by blast
qed

theorem handshake_establishes_witness:
  "\<exists>a b. three_way_handshake (TCPConfig_default\<lparr>cfg_fixed_isn := Some (WrappingInt32 4294967295)\<rparr>)
      (TCPConfig_default\<lparr>cfg_fixed_isn := Some (WrappingInt32 7)\<rparr>) = Inr (a, b)
    \<and> TCPConnection_state a = TCPState_of_State ESTABLISHED"
  using handshake_establishes
    [of "TCPConfig_default\<lparr>cfg_fixed_isn := Some (WrappingInt32 4294967295)\<rparr>" "WrappingInt32 4294967295"
        "TCPConfig_default\<lparr>cfg_fixed_isn := Some (WrappingInt32 7)\<rparr>" "WrappingInt32 7"]
  by (auto simp: TCPConfig_default_def)

section \<open>What the connection promises\<close>

text \<open>
  C23. Whatever segments arrive and whenever time passes, every segment in the outgoing queue
  of an endpoint whose application writes the stream \<open>S\<close> of \<open>L\<close> bytes is empty or a piece of
  that stream with the sequence number of its position; also a segment with the reset flag.
\<close>

theorem connection_sends_pieces:
  assumes "cn_reach S L c" and "L + 2 < 2 ^ 64" and "seg \<in> set (cn_segments_out c)"
  shows "TCPSegment_length_in_sequence_space seg = 0
    \<or> (\<exists>a. seg_genuine S L (sn_isn (cn_sender c)) a seg \<and> a + seg_len seg \<le> unat (sn_byte_sent (cn_sender c)))"
  using cn_reach_inv [OF assms(1,2)] assms(3)
  by (auto simp: cn_inv_def piece_def length_in_sequence_space_word)

text \<open>
  The loop that moves the sender's segments to the outgoing queue ends; it empties the
  sender's queue, keeps the order, and changes of each segment only the acknowledgment
  flag, the acknowledgment number and the window, once the peer's SYN has arrived.
\<close>

theorem segment_out_stamps:
  assumes "c' = TCPConnection_segment_out c"
  shows "sn_segments_out (cn_sender c') = []
    \<and> length (cn_segments_out c') = length (cn_segments_out c) + length (sn_segments_out (cn_sender c))
    \<and> take (length (cn_segments_out c)) (cn_segments_out c') = cn_segments_out c
    \<and> (\<forall>i < length (sn_segments_out (cn_sender c)).
        let seg = sn_segments_out (cn_sender c) ! i; out = cn_segments_out c' ! (length (cn_segments_out c) + i)
        in case TCPReceiver_ackno (cn_receiver c) of
             None \<Rightarrow> out = seg
           | Some n \<Rightarrow> ts_payload out = ts_payload seg \<and> ts_header out = (ts_header seg)\<lparr>th_ack := True, th_ackno := n,
               th_win := of_nat (unat (TCPReceiver_window_size (cn_receiver c)) mod 65536)\<rparr>)"
proof -
  have w: "of_nat (unat x mod 65536) = (ucast x :: u16)" for x :: size_t
    by (rule word_eq_unatI) (simp add: unat_of_nat unsigned_ucast_eq take_bit_eq_mod)
  show ?thesis
    unfolding assms segment_out_eq
    by (auto simp: nth_append TCPConnection_receiver_info_def Let_def w split: option.splits)
qed

theorem segment_out_stamps_witness:
  "sn_segments_out (cn_sender (TCPConnection_segment_out ((TCPConnection_new TCPConfig_default 0)\<lparr>cn_sender := sender_acked\<rparr>))) = []"
  using segment_out_stamps [OF refl] by simp

lemma segment_out_fields [simp]:
  "cn_rst (TCPConnection_segment_out c) = cn_rst c" "cn_time (TCPConnection_segment_out c) = cn_time c"
  "cn_cfg (TCPConnection_segment_out c) = cn_cfg c" "cn_receiver (TCPConnection_segment_out c) = cn_receiver c"
  "cn_last_segment_time (TCPConnection_segment_out c) = cn_last_segment_time c"
  "cn_linger_after_streams_finish (TCPConnection_segment_out c) = cn_linger_after_streams_finish c"
  "cn_sender (TCPConnection_segment_out c) = (cn_sender c)\<lparr>sn_segments_out := []\<rparr>"
  by (simp_all add: segment_out_eq)

lemma rst_segment_fields [simp]:
  "cn_rst (TCPConnection_rst_segment c) = cn_rst c" "cn_receiver (TCPConnection_rst_segment c) = cn_receiver c"
  "sn_stream (cn_sender (TCPConnection_rst_segment c)) = sn_stream (cn_sender c)"
  by (simp_all add: TCPConnection_rst_segment_def Let_def TCPSender_send_empty_segment_def)

lemma unclean_fields [simp]:
  "cn_rst (TCPConnection_unclean c)" "cn_segments_out (TCPConnection_unclean c) = cn_segments_out c"
  "ByteStream_error (TCPConnection_inbound_stream (TCPConnection_unclean c))"
  "ByteStream_error (sn_stream (cn_sender (TCPConnection_unclean c)))"
  by (simp_all add: TCPConnection_unclean_def TCPConnection_inbound_stream_def TCPReceiver_stream_out_def
      TCPReceiver_set_error_def ByteStream_error_def)

lemma segment_received_rst:
  assumes "cn_rst c" and "TCPConnection_segment_received seg c = Inr c'"
  shows "cn_rst c'"
  using assms
  by (auto simp: TCPConnection_segment_received_def Let_def bindE_Inr_iff split: if_splits prod.splits)


text \<open>An endpoint that connects, ends its empty stream and receives the peer's FIN.\<close>

definition received :: "TCPSegment \<Rightarrow> TCPConnection \<Rightarrow> TCPConnection" where
  "received seg c = (case TCPConnection_segment_received seg c of Inl e \<Rightarrow> c | Inr c' \<Rightarrow> c')"

definition connecting :: TCPConnection where
  "connecting = TCPConnection_connect (TCPConnection_new (TCPConfig_default\<lparr>cfg_fixed_isn := Some (WrappingInt32 4294967295)\<rparr>) 0)"

definition connected :: TCPConnection where
  "connected = received (syn_ack (WrappingInt32 7) (WrappingInt32 4294967295) 1000) connecting"

definition closing :: TCPConnection where
  "closing = TCPConnection_end_input_stream connected"

definition lingering :: TCPConnection where
  "lingering = received \<lparr>ts_header = TCPHeader_new\<lparr>th_seqno := WrappingInt32 8, th_fin := True, th_ack := True,
     th_ackno := WrappingInt32 1, th_win := 1000\<rparr>, ts_payload = []\<rparr> closing"

lemma received_reach: "cn_reach S L c \<Longrightarrow> cn_reach S L (received seg c)"
  by (auto simp: received_def split: sum.splits intro: cn_reach.segment)

lemma connecting_reach: "cn_reach S L connecting"
  unfolding connecting_def by (intro cn_reach.intros)

lemma connected_reach: "cn_reach S L connected"
  unfolding connected_def by (intro received_reach connecting_reach)

lemma connected_written: "unat (bs_alwritten (sn_stream (cn_sender connected))) = 0"
  by code_simp

lemma closing_reach: "cn_reach S 0 closing"
  unfolding closing_def using connected_written by (intro cn_reach.end_input connected_reach) simp

lemma lingering_reach: "cn_reach S 0 lingering"
  unfolding lingering_def by (intro received_reach closing_reach)

theorem connection_sends_pieces_witness:
  "\<exists>seg a. seg \<in> set (cn_segments_out connecting) \<and> seg_genuine (\<lambda>i. 0) 0 (sn_isn (cn_sender connecting)) a seg"
proof -
  have "cn_segments_out connecting = [syn_of (WrappingInt32 4294967295)]" by code_simp
  then have m: "syn_of (WrappingInt32 4294967295) \<in> set (cn_segments_out connecting)" by simp
  have "\<exists>a. seg_genuine (\<lambda>i. 0) 0 (sn_isn (cn_sender connecting)) a (syn_of (WrappingInt32 4294967295))"
    using connection_sends_pieces [OF connecting_reach [of "\<lambda>i. 0" 0] _ m] by auto
  with m show ?thesis by blast
qed


text \<open>
  C25. \<open>tick\<close> always succeeds on a reachable endpoint. When it makes the ninth retransmission
  in a row, the endpoint aborts: the next segment it queues has the reset flag, both streams
  are in the error state and it is inactive. Before that it queues what the sender queued,
  with the receiver's information, and is not reset.
\<close>

theorem tick_aborts:
  assumes "cn_reach S L c" and "L + 2 < 2 ^ 64"
  shows "\<exists>s' c'. TCPSender_tick ms (cn_sender c) = Inr s' \<and> TCPConnection_tick ms c = Inr c' \<and> cn_time c' = cn_time c + ms
    \<and> (if TCPSender_consecutive_retransmissions s' > 8
       then (\<exists>seg segs. cn_segments_out c' = cn_segments_out c @ seg # segs \<and> th_rst (ts_header seg))
         \<and> \<not> TCPConnection_active c'
         \<and> ByteStream_error (TCPConnection_inbound_stream c') \<and> ByteStream_error (sn_stream (cn_sender c'))
       else cn_segments_out c' = cn_segments_out c @ map (TCPConnection_receiver_info c) (sn_segments_out s')
         \<and> cn_rst c' = cn_rst c)"
proof -
  have "sn_inv S L (cn_sender c)"
    using cn_reach_inv [OF assms] sn_reach_inv [OF _ assms(2)] by (simp add: cn_inv_def)
  then obtain s where s: "TCPSender_tick ms (cn_sender c) = Inr s"
      "TCPConnection_tick ms c = Inr (let c' = c\<lparr>cn_sender := s, cn_time := cn_time c + ms\<rparr> in
        TCPConnection_segment_out (if sn_consecutive_retrans s > MAX_RETX_ATTEMPTS
          then TCPConnection_rst_segment (TCPConnection_unclean c') else c'))"
    by (rule tick_unfold [where ms = ms])
  let ?c = "c\<lparr>cn_sender := s, cn_time := cn_time c + ms\<rparr>"
  show ?thesis
  proof (cases "sn_consecutive_retrans s > 8")
    case True
    let ?r = "TCPConnection_rst_segment (TCPConnection_unclean ?c)"
    have "cn_time ?r = cn_time c + ms"
      by (simp add: TCPConnection_rst_segment_def Let_def TCPConnection_unclean_def)
    moreover have "\<exists>seg. cn_segments_out ?r = cn_segments_out c @ [seg] \<and> th_rst (ts_header seg)"
      by (simp add: TCPConnection_rst_segment_def Let_def)
    moreover have "TCPConnection_tick ms c = Inr (TCPConnection_segment_out ?r)"
      using True s(2) by (simp add: Let_def)
    moreover have "\<not> TCPConnection_active (TCPConnection_segment_out ?r)" by (simp add: TCPConnection_active_def)
    moreover have "ByteStream_error (TCPConnection_inbound_stream (TCPConnection_segment_out ?r))"
        "ByteStream_error (sn_stream (cn_sender (TCPConnection_segment_out ?r)))"
      using unclean_fields(3,4) [of ?c] by (simp_all add: TCPConnection_inbound_stream_def)
    ultimately show ?thesis
      using True s(1) by (auto simp: TCPSender_consecutive_retransmissions_def segment_out_eq)
  next
    case False
    have "TCPConnection_receiver_info ?c = TCPConnection_receiver_info c"
      by (simp add: TCPConnection_receiver_info_def fun_eq_iff cong: option.case_cong)
    then show ?thesis using False s by (simp add: TCPSender_consecutive_retransmissions_def segment_out_eq)
  qed
qed

theorem tick_aborts_witness:
  "\<exists>c'. TCPConnection_tick 5 connecting = Inr c' \<and> cn_time c' = 5"
proof -
  have "cn_time connecting = 0" by code_simp
  then show ?thesis using tick_aborts [OF connecting_reach, of 0 5] by auto
qed

text \<open>
  C26. When both streams are finished, the FIN acknowledged and the inbound stream ended, an
  endpoint that has to linger stays active for exactly ten times the retransmission timeout
  after the last segment, and one that has not to is inactive at once.
\<close>

theorem time_wait_ends:
  assumes "cn_reach S L c" and "L + 2 < 2 ^ 64" and "\<not> cn_rst c" and "TCPSender_fin_acked (cn_sender c)"
    and "ByteStream_input_ended (TCPConnection_inbound_stream c)"
    and "unat (TCPConnection_time_since_last_segment_received c) + unat ms < 2 ^ 64"
  shows "\<exists>c'. TCPConnection_tick ms c = Inr c'
    \<and> (TCPConnection_active c' \<longleftrightarrow> cn_linger_after_streams_finish c
        \<and> unat (TCPConnection_time_since_last_segment_received c) + unat ms < 10 * unat (cfg_rt_timeout (cn_cfg c)))"
proof -
  have inv: "sn_inv S L (cn_sender c)"
    using cn_reach_inv [OF assms(1,2)] sn_reach_inv [OF _ assms(2)] by (simp add: cn_inv_def)
  have ua: "sn_unacked (cn_sender c) = []" "sn_eof (cn_sender c)"
    using assms(4) by (simp_all add: TCPSender_fin_acked_def TCPSender_fin_sent_def)
  then have idle: "\<not> tm_active (sn_timer (cn_sender c))" "sn_consecutive_retrans (cn_sender c) = 0"
    using inv unfolding sn_inv_def timer_ok_def by auto
  then have t: "TCPConnection_tick ms c = Inr (TCPConnection_segment_out (c\<lparr>cn_sender := (cn_sender c)\<lparr>sn_time :=
      sn_time (cn_sender c) + ms\<rparr>, cn_time := cn_time c + ms\<rparr>))"
    by (simp add: TCPConnection_tick_def TCPSender_tick_def Let_def TCPSender_consecutive_retransmissions_def)
  have sum: "cn_time c + ms - cn_last_segment_time c = TCPConnection_time_since_last_segment_received c + ms"
    by (simp add: TCPConnection_time_since_last_segment_received_def)
  have time: "unat (cn_time c + ms - cn_last_segment_time c)
      = unat (TCPConnection_time_since_last_segment_received c) + unat ms"
    unfolding sum using assms(6) by (simp add: unat_add_nowrap)
  have "unat (cfg_rt_timeout (cn_cfg c)) < 65536" by (rule unat_u16_bound)
  then have rt: "unat (10 * ucast (cfg_rt_timeout (cn_cfg c)) :: size_t) = 10 * unat (cfg_rt_timeout (cn_cfg c))"
    by (simp add: unat_word_ariths unat_ucast_up)
  show ?thesis
    using assms(3-5) ua time rt
    by (simp add: t TCPConnection_active_def TCPSender_fin_acked_def TCPSender_fin_sent_def
        TCPConnection_inbound_stream_def word_le_nat_alt not_le)
      (simp add: TCPConnection_time_since_last_segment_received_def)
qed

theorem time_wait_ends_witness:
  "(\<exists>c'. TCPConnection_tick 9999 lingering = Inr c' \<and> TCPConnection_active c')
    \<and> (\<exists>c'. TCPConnection_tick 10000 lingering = Inr c' \<and> \<not> TCPConnection_active c')"
proof -
  have "\<not> cn_rst lingering" "TCPSender_fin_acked (cn_sender lingering)" "cn_linger_after_streams_finish lingering"
      "ByteStream_input_ended (TCPConnection_inbound_stream lingering)"
      "TCPConnection_time_since_last_segment_received lingering = 0" "cfg_rt_timeout (cn_cfg lingering) = 1000"
    by code_simp+
  then show ?thesis
    using time_wait_ends [OF lingering_reach, of 9999] time_wait_ends [OF lingering_reach, of 10000] by auto
qed

section \<open>Behaviour with a large receive buffer\<close>

text \<open>A capacity of 65536 is announced as the closed window, since the field has 16 bits.\<close>

theorem large_window_announced_closed:
  "TCPReceiver_window_size (receiver_open 65536 isn) = 65536
    \<and> th_win (ts_header (TCPConnection_receiver_info ((TCPConnection_new TCPConfig_default 0)\<lparr>cn_receiver :=
        receiver_open 65536 isn\<rparr>) (syn_of isn))) = 0"
proof -
  have "TCPReceiver_window_size (receiver_open 65536 isn) = 65536"
    by (simp add: receiver_open_def TCPReceiver_new_def StreamReassembler_new_def ByteStream_new_def
        TCPReceiver_window_size_def ByteStream_remaining_capacity_def)
  moreover have "(ucast (65536 :: size_t) :: u16) = 0" by simp
  ultimately show ?thesis by (simp add: TCPConnection_receiver_info_def ackno_open)
qed

end
