(* ===== verification/Connection_Run.thy ===== *)
theory Connection_Run
  imports TCP_Connection
begin

text \<open>
  The runs of a \<open>TCPConnection\<close> in the hands of an owner that writes to it, ends its input,
  takes its segments out and reads from its inbound stream, while segments of any content
  arrive and time passes. The run records what the owner wrote, whether it ended the input,
  and what it read. The theory relates such runs to the invariants of the connection; the
  sockets built on the connection are shown to be such owners.
\<close>

section \<open>Runs\<close>

definition set_inbound :: "ByteStream \<Rightarrow> TCPConnection \<Rightarrow> TCPConnection" where
  "set_inbound stream c = c\<lparr>cn_receiver := (cn_receiver c)\<lparr>rc_reassembler :=
     (rc_reassembler (cn_receiver c))\<lparr>sr_output := stream\<rparr>\<rparr>\<rparr>"

inductive cn_run :: "TCPConnection \<Rightarrow> bytes \<Rightarrow> bool \<Rightarrow> bytes \<Rightarrow> bool" where
  new: "cn_run (TCPConnection_new cfg random) [] False []"
| connect: "cn_run c inp e out \<Longrightarrow> cn_run (TCPConnection_connect c) inp e out"
| put: "cn_run c inp False out \<Longrightarrow> length data \<le> unat (TCPConnection_remaining_outbound_capacity c) \<Longrightarrow>
    cn_run (snd (TCPConnection_write data c)) (inp @ data) False out"
| end_input: "cn_run c inp e out \<Longrightarrow> cn_run (TCPConnection_end_input_stream c) inp True out"
| segment: "cn_run c inp e out \<Longrightarrow> TCPConnection_segment_received seg c = Inr c' \<Longrightarrow> cn_run c' inp e out"
| tick: "cn_run c inp e out \<Longrightarrow> TCPConnection_tick ms c = Inr c' \<Longrightarrow> cn_run c' inp e out"
| pop: "cn_run c inp e out \<Longrightarrow> cn_run (c\<lparr>cn_segments_out := drop n (cn_segments_out c)\<rparr>) inp e out"
| take_out: "cn_run c inp e out \<Longrightarrow> ByteStream_read n (TCPConnection_inbound_stream c) = (data, stream) \<Longrightarrow>
    cn_run (set_inbound stream c) inp e (out @ data)"

section \<open>What the outbound stream has seen\<close>

definition fed :: "bytes \<Rightarrow> bool \<Rightarrow> TCPSender \<Rightarrow> bool" where
  "fed inp e s \<longleftrightarrow> bs_inv (sn_stream s) \<and> bs_alwritten (sn_stream s) = of_nat (length inp) \<and> bs_end (sn_stream s) = e"

lemma fed_stream: "sn_stream s' = sn_stream s \<Longrightarrow> fed inp e s' = fed inp e s"
  by (simp add: fed_def)

lemma fed_fill:
  assumes "fed inp e s"
  shows "fed inp e (TCPSender_fill_window s)"
  using assms
proof (induction rule: fill_window_induct)
  case (step s)
  then have inv: "bs_inv (sn_stream s)" by (simp add: fed_def)
  have n: "fill_len s \<le> length (bs_content (sn_stream s))" by (rule fill_len_bounds)
  then have "sz (bs_content (sn_stream s)) = of_nat (fill_len s) + sz (drop (fill_len s) (bs_content (sn_stream s)))"
    by (simp add: sz_def of_nat_diff)
  with step inv show ?case by (auto simp: fed_def bs_inv_def fill_next_def)
qed

lemma fed_ack:
  assumes "fed inp e s"
  shows "fed inp e (snd (TCPSender_ack_received ackno win s))"
  using assms
  by (auto simp: ack_received_cases Let_def ack_advance_def intro!: fed_fill) (simp_all add: fed_def)

lemma fed_tick: "fed inp e s \<Longrightarrow> TCPSender_tick ms s = Inr s' \<Longrightarrow> fed inp e s'"
  by (auto simp: TCPSender_tick_def Let_def fed_def split: if_splits list.splits)

lemma fed_queue [simp]:
  "fed inp e (s\<lparr>sn_segments_out := q\<rparr>) = fed inp e s"
  "fed inp e (TCPSender_send_empty_segment s) = fed inp e s"
  by (simp_all add: fed_def TCPSender_send_empty_segment_def Let_def)

lemma fed_segment_out [simp]: "fed inp e (cn_sender (TCPConnection_segment_out c)) = fed inp e (cn_sender c)"
  by (simp add: segment_out_eq)

lemma fed_unclean [simp]: "fed inp e (cn_sender (TCPConnection_unclean c)) = fed inp e (cn_sender c)"
  by (simp add: TCPConnection_unclean_def fed_def ByteStream_set_error_def bs_inv_def)

lemma fed_rst [simp]: "fed inp e (cn_sender (TCPConnection_rst_segment c)) = fed inp e (cn_sender c)"
  by (simp add: TCPConnection_rst_segment_def Let_def)

lemma fed_segment:
  assumes fed: "fed inp e (cn_sender c)" and res: "TCPConnection_segment_received seg c = Inr c'"
  shows "fed inp e (cn_sender c')"
proof -
  define c0 where "c0 = c\<lparr>cn_last_segment_time := cn_time c\<rparr>"
  define c1 where "c1 = (if ByteStream_input_ended (TCPReceiver_stream_out (cn_receiver c0)) \<and> \<not> TCPSender_fin_sent (cn_sender c0)
    then c0\<lparr>cn_linger_after_streams_finish := False\<rparr> else c0)"
  obtain b s where bs: "(if th_ack (ts_header seg) then TCPSender_ack_received (th_ackno (ts_header seg)) (th_win (ts_header seg)) (cn_sender c1)
      else (True, TCPSender_fill_window (cn_sender c1))) = (b, s)" by (metis prod.exhaust)
  have "fed inp e (cn_sender c0)" "fed inp e (cn_sender c1)" using fed by (simp_all add: c0_def c1_def)
  moreover from this bs have "fed inp e s"
    using fed_fill [of inp e "cn_sender c1"] fed_ack [of inp e "cn_sender c1" "th_ackno (ts_header seg)" "th_win (ts_header seg)"]
    by (auto split: if_splits)
  ultimately show ?thesis
    using res unfolding TCPConnection_segment_received_def Let_def c0_def [symmetric] c1_def [symmetric] bs
    by (auto simp: bindE_Inr_iff split: if_splits)
qed

lemma fed_write:
  assumes "fed inp False s" and "length data \<le> unat (ByteStream_remaining_capacity (sn_stream s))"
  shows "fst (ByteStream_write data (sn_stream s)) = sz data"
    and "fed (inp @ data) False (s\<lparr>sn_stream := snd (ByteStream_write data (sn_stream s))\<rparr>)"
proof -
  have inv: "bs_inv (sn_stream s)" using assms(1) by (simp add: fed_def)
  have fits: "fits data" using assms(2) by (rule fits_le_unat)
  have n: "bs_accepted data (sn_stream s) = length data" using assms(2) inv by (simp add: bs_accepted_def)
  then show "fst (ByteStream_write data (sn_stream s)) = sz data"
    using write_size [OF inv fits] fits by (simp add: word_eq_unatI)
  show "fed (inp @ data) False (s\<lparr>sn_stream := snd (ByteStream_write data (sn_stream s))\<rparr>)"
    using assms n by (auto simp: fed_def bs_inv_def write_eq [OF inv fits] bs_room_def sz_def unat_remaining_capacity [OF inv])
qed

lemma cn_run_fed: "cn_run c inp e out \<Longrightarrow> fed inp e (cn_sender c)"
proof (induction rule: cn_run.induct)
  case (new cfg random)
  show ?case by (simp add: fed_def TCPConnection_new_def TCPSender_new_def ByteStream_new_def bs_inv_def)
next
  case (put c inp out data)
  then show ?case
    using fed_fill [OF fed_write(2) [OF put.IH, of data]]
    by (simp add: TCPConnection_write_def TCPConnection_remaining_outbound_capacity_def Let_def case_prod_beta)
next
  case (end_input c inp e out)
  then have "fed inp True ((cn_sender c)\<lparr>sn_stream := ByteStream_end_input (sn_stream (cn_sender c))\<rparr>)"
    by (auto simp: fed_def bs_inv_def ByteStream_end_input_def)
  from fed_fill [OF this] show ?case by (simp add: TCPConnection_end_input_stream_def Let_def)
next
  case (tick c inp e out ms c')
  then show ?case
    using fed_tick [OF tick.IH] by (auto simp: TCPConnection_tick_def Let_def bindE_Inr_iff)
qed (simp_all add: TCPConnection_connect_def fed_fill fed_segment set_inbound_def)

text \<open>A write that fits is taken as a whole.\<close>

lemma cn_run_accepts:
  assumes "cn_run c inp False out" and "length data \<le> unat (TCPConnection_remaining_outbound_capacity c)"
  shows "fst (TCPConnection_write data c) = sz data"
  using fed_write(1) [OF cn_run_fed [OF assms(1)], of data] assms(2)
  by (simp add: TCPConnection_write_def TCPConnection_remaining_outbound_capacity_def case_prod_beta)

section \<open>Runs and the stream of the owner\<close>

lemma cn_run_reach:
  assumes "cn_run c inp e out" and "inp = stretch S 0 (length inp)" and "length inp \<le> L" and "e \<longrightarrow> length inp = L"
    and "L < 2 ^ 64"
  shows "cn_reach S L c"
  using assms
proof (induction rule: cn_run.induct)
  case (put c inp out data)
  let ?stream = "sn_stream (cn_sender c)"
  have len: "unat (bs_alwritten ?stream) = length inp"
    using cn_run_fed [OF put.hyps(1)] put.prems by (simp add: fed_def unat_of_nat)
  have split: "stretch S 0 (length (inp @ data)) = stretch S 0 (length inp) @ stretch S (length inp) (length data)"
    by (simp add: stretch_append)
  then have "inp = stretch S 0 (length inp)" "data = stretch S (length inp) (length data)"
    using put.prems(1) by (metis append_eq_append_conv stretch_length)+
  moreover have "\<not> bs_end ?stream" using cn_run_fed [OF put.hyps(1)] by (simp add: fed_def)
  ultimately show ?case using put.prems len by (intro cn_reach.put [where n = "length data"] put.IH) auto
next
  case (end_input c inp e out)
  then have "unat (bs_alwritten (sn_stream (cn_sender c))) = L"
    using cn_run_fed [OF end_input.hyps] by (simp add: fed_def unat_of_nat)
  then show ?case using end_input by (intro cn_reach.end_input end_input.IH) auto
qed (auto simp: set_inbound_def intro: cn_reach.intros)

text \<open>Every segment in the queue is empty or a piece of what the owner wrote.\<close>

lemma cn_run_pieces:
  assumes "cn_run c inp e out" and "length inp + 2 < 2 ^ 64" and "seg \<in> set (cn_segments_out c)"
  shows "piece ((!) inp) (length inp) (cn_sender c) seg"
proof -
  have "inp = stretch ((!) inp) 0 (length inp)" by (rule nth_equalityI) (simp_all add: stretch_def)
  with assms have "cn_reach ((!) inp) (length inp) c" by (intro cn_run_reach [OF assms(1)]) auto
  from cn_reach_inv [OF this assms(2)] assms(3) show ?thesis by (simp add: cn_inv_def)
qed

end
