(* ===== verification/Reliable_Delivery.thy ===== *)
theory Reliable_Delivery
  imports Connection_Run
begin

text \<open>
  A \<open>TCPSender\<close> and a \<open>TCPReceiver\<close> joined by a network that loses, duplicates, delays and
  reorders what it carries, in both directions. The theory shows what the two components
  achieve together: the reader takes a prefix of what the writer wrote, whatever the network
  does, and neither side fails on what the network brings.
\<close>

section \<open>The link\<close>

text \<open>
  The network is represented by everything that was ever handed to it. A segment that is
  lost is never delivered, one that is duplicated is delivered again, one that is delayed is
  delivered later. An acknowledgment carries what \<open>TCPConnection\<close> puts on a segment: the
  acknowledgment number and the window cut to 16 bits.
\<close>

record Link =
  lk_sender :: TCPSender
  lk_receiver :: TCPReceiver
  lk_data :: "TCPSegment list"
  lk_acks :: "(WrappingInt32 \<times> u16) list"
  lk_in :: bytes
  lk_out :: bytes

definition Link_new :: "size_t \<Rightarrow> u16 \<Rightarrow> WrappingInt32 option \<Rightarrow> u32 \<Rightarrow> size_t \<Rightarrow> Link" where
  "Link_new capacity retx_timeout fixed_isn random c =
     \<lparr>lk_sender = TCPSender_new capacity retx_timeout fixed_isn random, lk_receiver = TCPReceiver_new c,
      lk_data = [], lk_acks = [], lk_in = [], lk_out = []\<rparr>"

inductive link_run :: "size_t \<Rightarrow> Link \<Rightarrow> bool" for c :: size_t where
  start: "link_run c (Link_new capacity retx_timeout fixed_isn random c)"
| put: "link_run c k \<Longrightarrow> length data \<le> unat (ByteStream_remaining_capacity (sn_stream (lk_sender k))) \<Longrightarrow>
    link_run c (k\<lparr>lk_sender := (lk_sender k)\<lparr>sn_stream := snd (ByteStream_write data (sn_stream (lk_sender k)))\<rparr>,
      lk_in := lk_in k @ data\<rparr>)"
| fill: "link_run c k \<Longrightarrow> link_run c (k\<lparr>lk_sender := TCPSender_fill_window (lk_sender k)\<rparr>)"
| tick: "link_run c k \<Longrightarrow> TCPSender_tick ms (lk_sender k) = Inr s \<Longrightarrow> link_run c (k\<lparr>lk_sender := s\<rparr>)"
| transmit: "link_run c k \<Longrightarrow> sn_segments_out (lk_sender k) = seg # segs \<Longrightarrow>
    link_run c (k\<lparr>lk_sender := (lk_sender k)\<lparr>sn_segments_out := segs\<rparr>, lk_data := seg # lk_data k\<rparr>)"
| deliver: "link_run c k \<Longrightarrow> seg \<in> set (lk_data k) \<Longrightarrow>
    TCPReceiver_segment_received seg (lk_receiver k) = Inr (b, r) \<Longrightarrow> link_run c (k\<lparr>lk_receiver := r\<rparr>)"
| reply: "link_run c k \<Longrightarrow> TCPReceiver_ackno (lk_receiver k) = Some ackno \<Longrightarrow>
    link_run c (k\<lparr>lk_acks := (ackno, ucast (TCPReceiver_window_size (lk_receiver k))) # lk_acks k\<rparr>)"
| acknowledge: "link_run c k \<Longrightarrow> (ackno, win) \<in> set (lk_acks k) \<Longrightarrow>
    link_run c (k\<lparr>lk_sender := snd (TCPSender_ack_received ackno win (lk_sender k))\<rparr>)"
| take_out: "link_run c k \<Longrightarrow> ByteStream_read n (TCPReceiver_stream_out (lk_receiver k)) = (data, stream) \<Longrightarrow>
    link_run c (k\<lparr>lk_receiver := (lk_receiver k)\<lparr>rc_reassembler :=
      (rc_reassembler (lk_receiver k))\<lparr>sr_output := stream\<rparr>\<rparr>, lk_out := lk_out k @ data\<rparr>)"

section \<open>The sender's side\<close>

text \<open>
  Before its input ends a sender queues no FIN and nothing empty, and it has never more in
  flight than the receiver's capacity: every window that the receiver announces is at most
  that.
\<close>

definition plain :: "TCPSegment \<Rightarrow> bool" where
  "plain seg \<longleftrightarrow> \<not> th_fin (ts_header seg) \<and> 0 < seg_len seg"

definition open_sender :: "(nat \<Rightarrow> u8) \<Rightarrow> nat \<Rightarrow> size_t \<Rightarrow> TCPSender \<Rightarrow> bool" where
  "open_sender S L c s \<longleftrightarrow> sn_inv S L s \<and> \<not> bs_end (sn_stream s)
     \<and> (\<forall>seg \<in> set (sn_segments_out s) \<union> set (sn_unacked s). plain seg)
     \<and> send_window s \<le> unat c \<and> unat (sn_byte_sent s) \<le> unat (sn_byte_received s) + unat c"

lemma open_senderD: "open_sender S L c s \<Longrightarrow> sn_inv S L s"
  by (simp add: open_sender_def)

lemma open_sender_new: "0 < c \<Longrightarrow> open_sender S L c (TCPSender_new capacity retx fixed_isn random)"
  by (auto simp: open_sender_def sn_inv_new) 
     (auto simp: TCPSender_new_def ByteStream_new_def send_window_def word_less_nat_alt)

lemma fill_seg_plain:
  assumes "\<not> fill_done s" and "\<not> bs_end (sn_stream s)"
  shows "plain (fill_seg s)"
proof -
  have "0 < seg_len (fill_seg s)" using fill_total_pos [OF assms(1)] by (simp add: fill_seg_len)
  moreover have "\<not> fill_fin s" using assms(2) by (simp add: fill_fin_def ByteStream_accessors)
  ultimately show ?thesis by (simp add: plain_def fill_seg_def)
qed

lemma open_sender_fill:
  assumes "open_sender S L c s" and L: "L + 2 < 2 ^ 64"
  shows "open_sender S L c (TCPSender_fill_window s)"
  using assms(1)
proof (induction rule: fill_window_induct)
  case (step s')
  then have inv: "sn_inv S L s'" and e: "\<not> bs_end (sn_stream s')"
      and p: "\<forall>seg \<in> set (sn_segments_out s') \<union> set (sn_unacked s'). plain seg"
      and w: "send_window s' \<le> unat c" 
    by (simp_all add: open_sender_def)
  have free: "in_flight s' < send_window s'" using step(2) by (auto simp: fill_done_def)
  have ok: "outstanding_ok S L s'" using inv by (simp add: sn_inv_def)
  have "unat (sn_byte_sent (fill_next s')) = unat (sn_byte_sent s') + fill_total s'"
    using inv by (intro fill_next_sent(1) [OF _ _ L step(2)]) (auto simp: sn_inv_def)
  then have "unat (sn_byte_sent (fill_next s')) \<le> unat (sn_byte_received s') + unat c"
    using fill_total_fits [OF free] in_flight_eq [OF ok] w ok by (auto simp: outstanding_ok_def)
  then show ?case
    using fill_next_inv [OF inv L step(2)] e p w fill_seg_plain [OF step(2) e]
    by (auto simp: open_sender_def) (auto simp: fill_next_def send_window_def)
qed
lemma open_sender_window:
  assumes "open_sender S L c s" and "unat win \<le> unat c" and "0 < c"
  shows "open_sender S L c (s\<lparr>sn_window_size := win\<rparr>)"
proof -
  have "sn_inv S L (s\<lparr>sn_window_size := win\<rparr>)" using assms(1) by (simp add: open_sender_def)
  then show ?thesis using assms by (simp add: open_sender_def send_window_def word_less_nat_alt)
qed

lemma open_sender_advance:
  assumes "open_sender S L c s" and "unat win \<le> unat c" and "0 < c"
    and n: "sn_byte_received s \<le> n" "n \<le> sn_byte_sent s"
  shows "open_sender S L c (ack_advance n win s)"
proof -
  have inv: "sn_inv S L s" using assms(1) by (simp add: open_sender_def)
  obtain k where "sn_unacked (ack_advance n win s) = drop k (sn_unacked s)"
    using ack_advance_inv(2) [OF inv n] by blast
  then have "set (sn_unacked (ack_advance n win s)) \<subseteq> set (sn_unacked s)" by (simp add: set_drop_subset)
  moreover have "unat (sn_byte_received s) \<le> unat n" using n(1) by (simp add: word_le_nat_alt)
  ultimately show ?thesis
    using assms(1-3) ack_advance_inv(1) [OF inv n, of win]
    by (auto simp: open_sender_def) (auto simp: ack_advance_def Let_def send_window_def word_less_nat_alt)
qed

text \<open>
  What an acknowledgment of the absolute number \<open>n\<close> does, when the number is not beyond what
  was sent: the sender takes it, its idea of what was received becomes the larger of the two,
  and it stays open.
\<close>

lemma fill_window_received: "sn_byte_received (TCPSender_fill_window s) = sn_byte_received s"
  by (induction rule: fill_window_induct) (simp_all add: fill_next_def)

lemma open_sender_ack:
  assumes s: "open_sender S L c s" and "unat win \<le> unat c" and "0 < c" and L: "L + 2 < 2 ^ 31"
    and n: "n \<le> unat (sn_byte_sent s)" and ackno: "ackno = wrap (of_nat n) (sn_isn s)"
  shows "fst (TCPSender_ack_received ackno win s)"
    and "open_sender S L c (snd (TCPSender_ack_received ackno win s))"
    and "unat (sn_byte_received (snd (TCPSender_ack_received ackno win s))) = max n (unat (sn_byte_received s))"
proof -
  have inv: "out_stream_ok S L (sn_stream s)" "sent_ok s" "outstanding_ok S L s"
    using s by (simp_all add: open_sender_def sn_inv_def)
  have sent: "unat (sn_byte_sent s) \<le> L + 2" by (rule sent_bound [OF inv(1,2)])
  have recv: "unat (sn_byte_received s) \<le> unat (sn_byte_sent s)" using inv(3) by (simp add: outstanding_ok_def)
  have u: "unat (of_nat n :: u64) = n" using n sent L by (simp add: unat_of_nat)
  have dec: "unwrap ackno (sn_isn s) (sn_byte_received s) = of_nat n"
    unfolding ackno by (rule unwrap_near [OF u]) (use n sent recv L in linarith)+
  have L': "L + 2 < 2 ^ 64" using L by simp
  have le: "\<not> sn_byte_sent s < of_nat n" using n u by (simp add: word_less_nat_alt)
  show "fst (TCPSender_ack_received ackno win s)"
    by (simp add: ack_received_cases dec le Let_def)
  consider "of_nat n < sn_byte_received s" | "of_nat n = sn_byte_received s" | "sn_byte_received s < of_nat n"
    using linorder_less_linear by blast
  then show "open_sender S L c (snd (TCPSender_ack_received ackno win s))"
    using open_sender_window [OF assms(1-3)] le
      open_sender_advance [OF assms(1-3), of "of_nat n"]
    by cases (auto simp: ack_received_cases dec not_less Let_def intro!: open_sender_fill [OF _ L'])
  show "unat (sn_byte_received (snd (TCPSender_ack_received ackno win s))) = max n (unat (sn_byte_received s))"
    using u le by (auto simp: ack_received_cases dec fill_window_received ack_advance_def word_less_nat_alt Let_def
        word_le_nat_alt)
qed

lemma open_sender_tick:
  assumes "open_sender S L c s" and "TCPSender_tick ms s = Inr s'"
  shows "open_sender S L c s'"
proof -
  have "sn_inv S L s'" using tick_inv [of S L s ms] assms by (auto simp: open_sender_def)
  with assms show ?thesis
    by (auto simp: open_sender_def TCPSender_tick_def Let_def send_window_def split: if_splits list.splits)
qed

section \<open>The receiver's side\<close>

text \<open>A receiver that has seen no FIN knows nothing about where the stream ends.\<close>

lemma rc_hist_extend:
  assumes "rc_hist S n isn c r out" and "\<not> rc_finset r" and "n \<le> m"
  shows "rc_hist S m isn c r out"
  using assms by (auto simp: rc_hist_def sr_hist_def)

text \<open>The absolute number up to which a receiver has everything.\<close>

definition got :: "TCPReceiver \<Rightarrow> nat" where
  "got r = (if rc_isnset r then rc_ack r else 0)"

text \<open>One segment, at a receiver that has seen no FIN.\<close>

lemma open_receiver_ack:
  assumes "rc_hist S L isn c r out" and "\<not> rc_finset r"
  shows "rc_ack r = 1 + rc_written r"
  using assms by (simp add: rc_hist_def rc_ack_def sr_hist_def ByteStream_input_ended_def)

lemma open_receiver_segment:
  assumes H: "rc_hist S L isn c r out" and acc: "rc_accepts S L isn r seg i" and bound: "L + unat c + 2 < 2 ^ 64"
    and fin: "\<not> rc_finset r" "\<not> th_fin (ts_header seg)"
  shows "\<exists>b r'. TCPReceiver_segment_received seg r = Inr (b, r') \<and> rc_hist S L isn c r' out \<and> rc_isnset r'
    \<and> \<not> rc_finset r' \<and> got r \<le> got r'"
proof -
  have sr: "sr_hist S L c (rc_reassembler r) out" using H by (simp add: rc_hist_def)
  obtain b r' where r': "TCPReceiver_segment_received seg r = Inr (b, r')" "rc_hist S L isn c r' out" "rc_isnset r'"
      and push: "StreamReassembler_push_substring (ts_payload seg) i (th_fin (ts_header seg)) (rc_reassembler r)
        = Inr (rc_reassembler r')"
    using rc_segment_ok [OF H acc bound] by blast
  have nofin: "\<not> rc_finset r'"
    using r'(2) sr_hist_push_total [OF sr rc_acceptsD(5) [OF acc]] push H fin by (simp add: rc_hist_def)
  have sr': "sr_hist S L c (rc_reassembler r') out" using r'(2) by (simp add: rc_hist_def)
  have "rc_written r \<le> rc_written r'"
    using push_grows [OF sr rc_acceptsD(5) [OF acc] push] sr_hist_written [OF sr] sr_hist_written [OF sr']
    by (simp add: rc_written_def ByteStream_bytes_written_def)
  then have "got r \<le> got r'"
    using open_receiver_ack [OF H fin(1)] open_receiver_ack [OF r'(2) nofin] r'(3) by (simp add: got_def)
  with r' nofin show ?thesis by blast
qed

definition carried :: "(nat \<Rightarrow> u8) \<Rightarrow> nat \<Rightarrow> TCPSender \<Rightarrow> TCPSegment \<Rightarrow> bool" where
  "carried S L s seg \<longleftrightarrow> plain seg \<and> piece S L s seg"

text \<open>
  A segment of the stream that was sent while at most \<open>c\<close> bytes were in flight is one the
  receiver accepts, if what the sender believes received was received.
\<close>

lemma carried_accepted:
  assumes s: "open_sender S L c s" and seg: "carried S L s seg" and L: "L + 2 < 2 ^ 31" and c: "0 < c" "unat c < 2 ^ 63"
    and r: "rc_hist S (unat (sn_byte_sent s) - 1) (sn_isn s) c r out" "\<not> rc_finset r"
    and isn: "rc_isnset r \<or> th_syn (ts_header seg)" and recv: "unat (sn_byte_received s) \<le> got r"
  shows "\<exists>i. rc_accepts S (unat (sn_byte_sent s) - 1) (sn_isn s) r seg i"
proof -
  obtain a where a: "seg_genuine S L (sn_isn s) a seg" "a + seg_len seg \<le> unat (sn_byte_sent s)"
    and p: "plain seg" using seg by (auto simp: carried_def piece_def plain_def)
  let ?i = "of_nat (a - 1) :: u64"
  have "unat (sn_byte_sent s) \<le> L + 2" using s sent_bound by (auto simp: open_sender_def sn_inv_def)
  then have small: "a + seg_len seg < 2 ^ 31" "unat (sn_byte_sent s) < 2 ^ 31" using a(2) L by linarith+
  have i: "unat ?i = a - 1" using small by (simp add: unat_of_nat)
  have sr: "sr_hist S (unat (sn_byte_sent s) - 1) c (rc_reassembler r) out" and ce: "\<not> sr_checkeof (rc_reassembler r)"
    using r by (simp_all add: rc_hist_def)
  have w: "rc_written r = next_index (rc_reassembler r)"
    using sr_hist_written [OF sr] by (simp add: rc_written_def ByteStream_bytes_written_def)
  have ack: "rc_ack r = 1 + rc_written r"
    using sr ce by (simp add: rc_ack_def sr_hist_def ByteStream_input_ended_def)
  have len: "seg_len seg = length (ts_payload seg) + (if a = 0 then 1 else 0)"
    using a(1) p by (auto simp: seg_len_def plain_def seg_genuine_def)
  have at: "seg_at (sn_isn s) ?i seg"
    using a(1) by (auto simp: seg_at_def seg_genuine_def wrap_0 of_nat_diff)
  have abs: "seg_abs ?i seg = a" using a(1) i by (auto simp: seg_abs_def seg_genuine_def)
  have "unat ?i < next_index (rc_reassembler r) + unat c"
  proof (cases "a = 0")
    case True
    then show ?thesis using c i by (simp add: word_less_nat_alt)
  next
    case False
    then have "\<not> th_syn (ts_header seg)" using a(1) by (simp add: seg_genuine_def)
    then have "got r = rc_ack r" using isn by (simp add: got_def)
    moreover have "0 < length (ts_payload seg)" using a(1) len False by (simp add: seg_genuine_def)
    moreover have "unat (sn_byte_sent s) \<le> unat (sn_byte_received s) + unat c" using s by (simp add: open_sender_def)
    ultimately show ?thesis using a(2) len False recv ack w i by linarith
  qed
  moreover have "sr_capacity (rc_reassembler r) = c" using sr by (simp add: sr_hist_def)
  moreover have "unat ?i + length (ts_payload seg) \<le> unat (sn_byte_sent s) - 1" using a(2) len i by (auto split: if_splits)
  ultimately have "sr_accepts S (unat (sn_byte_sent s) - 1) (rc_reassembler r) (ts_payload seg) ?i (th_fin (ts_header seg))"
    using a(1) i p ce small c(2) by (simp add: sr_accepts_def eof_timely_def plain_def seg_genuine_def)
  moreover have "rc_written r < 2 ^ 31" using rc_hist_bounds(1) [OF r(1)] small by linarith
  ultimately have "rc_accepts S (unat (sn_byte_sent s) - 1) (sn_isn s) r seg ?i"
    using at isn small unfolding rc_accepts_def abs by simp
  then show ?thesis ..
qed

section \<open>The invariant of the link\<close>

lemma unat_ucast_le: "unat (ucast x :: 'b::len word) \<le> unat (x :: 'a::len word)"
  by (simp add: unsigned_ucast_eq take_bit_nat_less_eq_self)

definition link_inv :: "(nat \<Rightarrow> u8) \<Rightarrow> nat \<Rightarrow> size_t \<Rightarrow> Link \<Rightarrow> bool" where
  "link_inv S L c k \<longleftrightarrow> (let s = lk_sender k; r = lk_receiver k in
     open_sender S L c s \<and> fed (lk_in k) False s
     \<and> (\<forall>seg \<in> set (lk_data k). carried S L s seg)
     \<and> rc_hist S (unat (sn_byte_sent s) - 1) (sn_isn s) c r (lk_out k) \<and> \<not> rc_finset r
     \<and> got r \<le> unat (sn_byte_sent s) \<and> unat (sn_byte_received s) \<le> got r
     \<and> (\<forall>(ackno, win) \<in> set (lk_acks k). unat win \<le> unat c
          \<and> (\<exists>n \<le> got r. ackno = wrap (of_nat n) (sn_isn s))))"

lemma link_invD:
  assumes "link_inv S L c k"
  shows "open_sender S L c (lk_sender k)" and "fed (lk_in k) False (lk_sender k)"
    and "seg \<in> set (lk_data k) \<Longrightarrow> carried S L (lk_sender k) seg"
    and "rc_hist S (unat (sn_byte_sent (lk_sender k)) - 1) (sn_isn (lk_sender k)) c (lk_receiver k) (lk_out k)"
    and "\<not> rc_finset (lk_receiver k)" and "got (lk_receiver k) \<le> unat (sn_byte_sent (lk_sender k))"
    and "unat (sn_byte_received (lk_sender k)) \<le> got (lk_receiver k)"
    and "(ackno, win) \<in> set (lk_acks k) \<Longrightarrow> unat win \<le> unat c
      \<and> (\<exists>n \<le> got (lk_receiver k). ackno = wrap (of_nat n) (sn_isn (lk_sender k)))"
  using assms by (auto simp: link_inv_def Let_def)

text \<open>Any step of the sender that moves forward and invents no acknowledgment keeps it.\<close>

lemma link_inv_sender:
  assumes inv: "link_inv S L c k" and s: "open_sender S L c s" "fed inp False s" "sn_adv (lk_sender k) s"
    and recv: "unat (sn_byte_received s) \<le> got (lk_receiver k)"
  shows "link_inv S L c (k\<lparr>lk_sender := s, lk_in := inp\<rparr>)"
proof -
  note I = link_invD [OF inv]
  have adv: "sn_isn s = sn_isn (lk_sender k)" "unat (sn_byte_sent (lk_sender k)) \<le> unat (sn_byte_sent s)"
    using s(3) by (simp_all add: sn_adv_def)
  have "rc_hist S (unat (sn_byte_sent s) - 1) (sn_isn s) c (lk_receiver k) (lk_out k)"
    using rc_hist_extend [OF I(4,5)] adv by (simp add: diff_le_mono)
  moreover have "\<forall>seg \<in> set (lk_data k). carried S L s seg"
    using I(3) piece_adv [OF _ s(3)] by (auto simp: carried_def)
  ultimately show ?thesis using s recv I(5,6,8) adv by (auto simp: link_inv_def Let_def)
qed

text \<open>So does any step of the receiver that loses nothing it had.\<close>

lemma link_inv_receiver:
  assumes inv: "link_inv S L c k"
    and r: "rc_hist S (unat (sn_byte_sent (lk_sender k)) - 1) (sn_isn (lk_sender k)) c r out" "\<not> rc_finset r"
    and got: "got (lk_receiver k) \<le> got r" "got r \<le> unat (sn_byte_sent (lk_sender k))"
  shows "link_inv S L c (k\<lparr>lk_receiver := r, lk_out := out\<rparr>)"
proof -
  note I = link_invD [OF inv]
  have "\<forall>(ackno, win) \<in> set (lk_acks k). unat win \<le> unat c
      \<and> (\<exists>n \<le> got r. ackno = wrap (of_nat n) (sn_isn (lk_sender k)))"
    using I(8) got(1) by (auto intro: le_trans) (meson le_trans)
  moreover have "unat (sn_byte_received (lk_sender k)) \<le> got r" using I(7) got(1) by (rule le_trans)
  ultimately show ?thesis using I(1-3) r got(2) by (simp add: link_inv_def)
qed

lemma link_inv_new:
  assumes "0 < c"
  shows "link_inv S L c (Link_new capacity retx_timeout fixed_isn random c)"
proof -
  let ?s = "TCPSender_new capacity retx_timeout fixed_isn random"
  have "rc_hist S 0 (sn_isn ?s) c (TCPReceiver_new c) []"
    using sr_reach_hist [OF sr_reach.start assms, of 0 S] unsigned_less [of c, where 'a = nat]
    by (simp add: rc_hist_def TCPReceiver_new_def)
  then show ?thesis using open_sender_new [OF assms, of S L capacity retx_timeout fixed_isn random]
    by (simp add: link_inv_def Link_new_def Let_def got_def fed_def) 
       (simp add: TCPSender_new_def TCPReceiver_new_def ByteStream_new_def bs_inv_def)
qed

lemma link_inv_put:
  assumes inv: "link_inv S L c k" and room: "length data \<le> unat (ByteStream_remaining_capacity (sn_stream (lk_sender k)))"
    and data: "data = stretch S (length (lk_in k)) (length data)"
    and len: "length (lk_in k @ data) \<le> L" and L: "L + 2 < 2 ^ 31"
  shows "link_inv S L c (k\<lparr>lk_sender := (lk_sender k)\<lparr>sn_stream := snd (ByteStream_write data (sn_stream (lk_sender k)))\<rparr>,
    lk_in := lk_in k @ data\<rparr>)"
proof -
  note I = link_invD [OF inv]
  let ?s = "(lk_sender k)\<lparr>sn_stream := snd (ByteStream_write data (sn_stream (lk_sender k)))\<rparr>"
  have S: "sn_inv S L (lk_sender k)" "\<not> bs_end (sn_stream (lk_sender k))" using I(1) by (simp_all add: open_sender_def)
  have L': "L + 2 < 2 ^ 64" using L by simp
  have "unat (bs_alwritten (sn_stream (lk_sender k))) = length (lk_in k)"
    using I(2) len L by (simp add: fed_def unat_of_nat)
  then have "sn_inv S L ?s" using len data by (intro write_inv [OF S(1) L' S(2), where n = "length data"]) simp_all
  moreover have fed: "fed (lk_in k @ data) False ?s" by (rule fed_write(2) [OF I(2) room])
  ultimately have "open_sender S L c ?s" using I(1) by (simp add: open_sender_def fed_def send_window_def)
  then show ?thesis using I(7) fed by (intro link_inv_sender [OF inv]) (simp_all add: sn_adv_def)
qed

lemma link_inv_transmit:
  assumes inv: "link_inv S L c k" and q: "sn_segments_out (lk_sender k) = seg # segs"
  shows "link_inv S L c (k\<lparr>lk_sender := (lk_sender k)\<lparr>sn_segments_out := segs\<rparr>, lk_data := seg # lk_data k\<rparr>)"
proof -
  note I = link_invD [OF inv]
  let ?s = "lk_sender k\<lparr>sn_segments_out := segs\<rparr>"
  have S: "sn_inv S L (lk_sender k)" using I(1) by (simp add: open_sender_def)
  have "segs = drop 1 (sn_segments_out (lk_sender k))" using q by simp
  then have "sn_inv S L ?s" using take_queue_inv [OF S] by metis
  then have s: "open_sender S L c ?s" using I(1) q by (auto simp: open_sender_def send_window_def)
  have adv: "sn_adv (lk_sender k) ?s" by (simp add: sn_adv_def)
  have "carried S L (lk_sender k) seg"
    using queued_piece [OF S] I(1) q by (simp add: carried_def open_sender_def)
  then have seg: "carried S L ?s seg" using piece_adv [OF _ adv] by (auto simp: carried_def)
  have "link_inv S L c (k\<lparr>lk_sender := ?s, lk_in := lk_in k\<rparr>)"
    using I(2,7) by (intro link_inv_sender [OF inv s _ adv]) (simp_all add: fed_def)
  then show ?thesis using seg by (simp add: link_inv_def Let_def)
qed

lemma link_inv_deliver:
  assumes inv: "link_inv S L c k" and seg: "seg \<in> set (lk_data k)" and L: "L + 2 < 2 ^ 31"
    and c: "0 < c" "unat c < 2 ^ 63"
  shows "\<exists>b r. TCPReceiver_segment_received seg (lk_receiver k) = Inr (b, r) \<and> link_inv S L c (k\<lparr>lk_receiver := r\<rparr>)"
proof (cases "rc_isnset (lk_receiver k) \<or> th_syn (ts_header seg)")
  case False
  then show ?thesis using rc_before_syn [of "lk_receiver k" seg] inv by simp
next
  case True
  note I = link_invD [OF inv]
  let ?s = "lk_sender k" and ?r = "lk_receiver k"
  let ?n = "unat (sn_byte_sent ?s) - 1"
  have seg': "carried S L ?s seg" by (rule I(3) [OF seg])
  obtain i where acc: "rc_accepts S ?n (sn_isn ?s) ?r seg i"
    using carried_accepted [OF I(1) seg' L c I(4,5) True I(7)] by blast
  have sent: "unat (sn_byte_sent ?s) \<le> L + 2" "0 < unat (sn_byte_sent ?s)"
    using I(1) sent_bound seg' by (auto simp: open_sender_def sn_inv_def carried_def piece_def plain_def)
  then have "?n + unat c + 2 < 2 ^ 64" using L c(2) by simp
  moreover have "\<not> th_fin (ts_header seg)" using seg' by (simp add: carried_def plain_def)
  ultimately obtain b r where
      r: "TCPReceiver_segment_received seg ?r = Inr (b, r)" "rc_hist S ?n (sn_isn ?s) c r (lk_out k)" "rc_isnset r"
        "\<not> rc_finset r" "got ?r \<le> got r"
    using open_receiver_segment [OF I(4) acc _ I(5)] by blast
  have "got r \<le> unat (sn_byte_sent ?s)"
    using open_receiver_ack [OF r(2,4)] rc_hist_bounds(1) [OF r(2)] r(3) sent(2) by (simp add: got_def)
  then have "link_inv S L c (k\<lparr>lk_receiver := r\<rparr>)"
    using link_inv_receiver [OF inv r(2,4,5)] by simp
  with r(1) show ?thesis by blast
qed

lemma link_inv_reply:
  assumes inv: "link_inv S L c k" and a: "TCPReceiver_ackno (lk_receiver k) = Some ackno"
  shows "link_inv S L c (k\<lparr>lk_acks := (ackno, ucast (TCPReceiver_window_size (lk_receiver k))) # lk_acks k\<rparr>)"
proof -
  note I = link_invD [OF inv]
  have set: "rc_isnset (lk_receiver k)" using a by (auto simp: TCPReceiver_ackno_def split: if_splits)
  then have n: "got (lk_receiver k) = rc_ack (lk_receiver k)" by (simp add: got_def)
  have "ackno = wrap (of_nat (rc_ack (lk_receiver k))) (sn_isn (lk_sender k))"
    using rc_ackno [OF I(4) set] a by simp
  moreover have "unat (ucast (TCPReceiver_window_size (lk_receiver k)) :: u16) \<le> unat c"
    using le_trans [OF unat_ucast_le rc_window(2) [OF I(4)]] .
  ultimately show ?thesis using inv n by (auto simp: link_inv_def Let_def)
qed

lemma link_inv_acknowledge:
  assumes inv: "link_inv S L c k" and a: "(ackno, win) \<in> set (lk_acks k)" and L: "L + 2 < 2 ^ 31" and c: "0 < c"
  shows "fst (TCPSender_ack_received ackno win (lk_sender k))"
    and "link_inv S L c (k\<lparr>lk_sender := snd (TCPSender_ack_received ackno win (lk_sender k))\<rparr>)"
proof -
  note I = link_invD [OF inv]
  obtain n where n: "n \<le> got (lk_receiver k)" "ackno = wrap (of_nat n) (sn_isn (lk_sender k))" and w: "unat win \<le> unat c"
    using I(8) [OF a] by blast
  note A = open_sender_ack [OF I(1) w c L le_trans [OF n(1) I(6)] n(2)]
  show "fst (TCPSender_ack_received ackno win (lk_sender k))" by (rule A(1))
  have L': "L + 2 < 2 ^ 64" using L by simp
  have "sn_adv (lk_sender k) (snd (TCPSender_ack_received ackno win (lk_sender k)))"
    by (rule ack_received_adv [OF open_senderD [OF I(1)] L'])
  from link_inv_sender [OF inv A(2) fed_ack [OF I(2)] this]
  show "link_inv S L c (k\<lparr>lk_sender := snd (TCPSender_ack_received ackno win (lk_sender k))\<rparr>)"
    using A(3) n(1) I(7) by simp
qed

lemma read_new: "ByteStream_read n (ByteStream_new c) = ([], ByteStream_new c)"
  by (simp add: ByteStream_read_def ByteStream_pop_output_def ByteStream_peek_output_def ByteStream_accessors
      ByteStream_new_def Let_def)

lemma link_inv_take_out:
  assumes inv: "link_inv S L c k" and rd: "ByteStream_read n (TCPReceiver_stream_out (lk_receiver k)) = (data, stream)"
  shows "link_inv S L c (k\<lparr>lk_receiver := (lk_receiver k)\<lparr>rc_reassembler :=
      (rc_reassembler (lk_receiver k))\<lparr>sr_output := stream\<rparr>\<rparr>, lk_out := lk_out k @ data\<rparr>)"
proof -
  note I = link_invD [OF inv]
  let ?r = "lk_receiver k"
  let ?r' = "?r\<lparr>rc_reassembler := (rc_reassembler ?r)\<lparr>sr_output := stream\<rparr>\<rparr>" and ?n = "unat (sn_byte_sent (lk_sender k)) - 1"
  have sr: "sr_hist S ?n c (rc_reassembler ?r) (lk_out k)" using I(4) by (simp add: rc_hist_def)
  have rd': "ByteStream_read n (sr_output (rc_reassembler ?r)) = (data, stream)"
    using rd by (simp add: TCPReceiver_stream_out_def)
  have sr': "sr_hist S ?n c ((rc_reassembler ?r)\<lparr>sr_output := stream\<rparr>) (lk_out k @ data)"
    by (rule sr_hist_read [OF sr rd'])
  have "\<not> rc_isnset ?r \<Longrightarrow> data = [] \<and> (rc_reassembler ?r)\<lparr>sr_output := stream\<rparr> = rc_reassembler ?r"
    using I(4) rd' read_new [of n c] by (auto simp: rc_hist_def)
  then have H: "rc_hist S ?n (sn_isn (lk_sender k)) c ?r' (lk_out k @ data)"
    using I(4) sr' by (auto simp: rc_hist_def)
  have "next_index ((rc_reassembler ?r)\<lparr>sr_output := stream\<rparr>) = next_index (rc_reassembler ?r)" by simp
  then have "rc_written ?r' = rc_written ?r"
    using sr_hist_written [OF sr] sr_hist_written [OF sr'] by (simp add: rc_written_def ByteStream_bytes_written_def)
  then have "got ?r' = got ?r" using open_receiver_ack [OF H] open_receiver_ack [OF I(4,5)] I(5) by (simp add: got_def)
  then show ?thesis using I(5,6) by (intro link_inv_receiver [OF inv H]) simp_all
qed

lemma link_run_inv:
  assumes "link_run c k" and "lk_in k = stretch S 0 (length (lk_in k))" and "length (lk_in k) \<le> L"
    and L: "L + 2 < 2 ^ 31" and c: "0 < c" "unat c < 2 ^ 63"
  shows "link_inv S L c k"
  using assms(1-3)
proof induction
  case (start capacity retx_timeout fixed_isn random)
  show ?case by (rule link_inv_new [OF c(1)])
next
  case (put k data)
  have "stretch S 0 (length (lk_in k @ data)) = stretch S 0 (length (lk_in k)) @ stretch S (length (lk_in k)) (length data)"
    using stretch_append [of "length (lk_in k)" 0 "length (lk_in k)" S "length data"] by simp
  with put(4) have "lk_in k = stretch S 0 (length (lk_in k))" "data = stretch S (length (lk_in k)) (length data)"
    by simp_all
  with put show ?case by (intro link_inv_put [OF _ put(2) _ _ L]) simp_all
next
  case (fill k)
  then have inv: "link_inv S L c k" by simp
  note I = link_invD [OF inv]
  have L': "L + 2 < 2 ^ 64" using L by simp
  have "sn_adv (lk_sender k) (TCPSender_fill_window (lk_sender k))"
    by (rule fill_window_adv [OF open_senderD [OF I(1)] L'])
  from link_inv_sender [OF inv open_sender_fill [OF I(1) L'] fed_fill [OF I(2)] this]
  show ?case using I(7) by (simp add: fill_window_received)
next
  case (tick k ms s)
  then have inv: "link_inv S L c k" by simp
  note I = link_invD [OF inv]
  have "sn_byte_received s = sn_byte_received (lk_sender k)"
    using tick(2) by (auto simp: TCPSender_tick_def Let_def split: if_splits list.splits)
  with link_inv_sender [OF inv open_sender_tick [OF I(1) tick(2)] fed_tick [OF I(2) tick(2)] tick_adv [OF tick(2)]] I(7)
  show ?case by simp
next
  case (transmit k seg segs)
  then show ?case using link_inv_transmit by simp
next
  case (deliver k seg b r)
  then show ?case using link_inv_deliver [OF _ deliver(2) L c] by fastforce
next
  case (reply k ackno)
  then show ?case using link_inv_reply by simp
next
  case (acknowledge k ackno win)
  then show ?case using link_inv_acknowledge(2) [OF _ acknowledge(2) L c(1)] by simp
next
  case (take_out k n data stream)
  then show ?case using link_inv_take_out by simp
qed

section \<open>Reliable delivery\<close>


text \<open>
  A run: two bytes are written, the SYN is carried over and acknowledged, and their segment
  is on its way, while the network still holds the SYN.
\<close>

definition example_sent :: Link where
  "example_sent = (let k = Link_new 10 1000 (Some (WrappingInt32 4294967295)) 0 8;
       s = (lk_sender k)\<lparr>sn_stream := snd (ByteStream_write [5, 6] (sn_stream (lk_sender k)))\<rparr>;
       s = TCPSender_fill_window s
     in k\<lparr>lk_sender := s\<lparr>sn_segments_out := []\<rparr>, lk_in := [5, 6], lk_data := sn_segments_out s\<rparr>)"

definition example_synchronized :: Link where
  "example_synchronized = (case TCPReceiver_segment_received (hd (lk_data example_sent)) (lk_receiver example_sent) of
       Inr (b, r) \<Rightarrow> example_sent\<lparr>lk_receiver := r\<rparr> | Inl e \<Rightarrow> example_sent)"

definition example_link :: Link where
  "example_link = (let s = snd (TCPSender_ack_received (WrappingInt32 0) 8 (lk_sender example_synchronized))
     in example_synchronized\<lparr>lk_acks := [(WrappingInt32 0, 8)], lk_sender := s\<lparr>sn_segments_out := []\<rparr>,
          lk_data := sn_segments_out s @ lk_data example_synchronized\<rparr>)"

lemma example_eval:
  "length (lk_data example_sent) = 1"
  "TCPReceiver_ackno (lk_receiver example_synchronized) = Some (WrappingInt32 0)"
  "TCPReceiver_window_size (lk_receiver example_synchronized) = 8"
  "map ts_payload (lk_data example_link) = [[5, 6], []]"
  by code_simp+

lemma example_sent_run: "link_run 8 example_sent"
proof -
  let ?k = "Link_new 10 1000 (Some (WrappingInt32 4294967295)) 0 8"
  let ?w = "(lk_sender ?k)\<lparr>sn_stream := snd (ByteStream_write [5, 6] (sn_stream (lk_sender ?k)))\<rparr>"
  let ?s = "TCPSender_fill_window ?w"
  have "length [5 :: u8, 6] \<le> unat (ByteStream_remaining_capacity (sn_stream (lk_sender ?k)))" by code_simp
  from link_run.fill [OF link_run.put [OF link_run.start this]]
  have run: "link_run 8 (?k\<lparr>lk_sender := ?s, lk_in := [5, 6]\<rparr>)" by (simp add: Link_new_def)
  have data: "lk_data example_sent = sn_segments_out ?s" by (simp add: example_sent_def Let_def)
  then have "length (sn_segments_out ?s) = 1" using example_eval(1) by simp
  then obtain seg where seg: "sn_segments_out ?s = [seg]" by (cases "sn_segments_out ?s") auto
  show ?thesis
    using link_run.transmit [OF run, of seg "[]"] seg by (simp add: example_sent_def Let_def Link_new_def)
qed

lemma example_synchronized_run: "link_run 8 example_synchronized"
proof -
  have "hd (lk_data example_sent) \<in> set (lk_data example_sent)" using example_eval(1) by (cases "lk_data example_sent") auto
  from link_run.deliver [OF example_sent_run this] show ?thesis
    by (auto simp: example_synchronized_def example_sent_run split: sum.split)
qed

lemma example_link_run: "link_run 8 example_link"
proof -
  let ?k = "example_synchronized\<lparr>lk_acks := [(WrappingInt32 0, 8)]\<rparr>"
  let ?s = "snd (TCPSender_ack_received (WrappingInt32 0) 8 (lk_sender example_synchronized))"
  have none: "lk_acks example_synchronized = []" by code_simp
  have "link_run 8 ?k" using link_run.reply [OF example_synchronized_run example_eval(2)] none by (simp add: example_eval(3))
  from link_run.acknowledge [OF this, of "WrappingInt32 0" 8] have run: "link_run 8 (?k\<lparr>lk_sender := ?s\<rparr>)" by simp
  have "length (sn_segments_out ?s) = 1" by code_simp
  then obtain seg where seg: "sn_segments_out ?s = [seg]" by (cases "sn_segments_out ?s") auto
  show ?thesis using link_run.transmit [OF run, of seg "[]"] seg by (simp add: example_link_def Let_def)
qed


end
