(* ===== verification/IPv4.thy ===== *)
theory IPv4
  imports Internet_Checksum
begin

text \<open>
  IPv4 headers and datagrams, from \<^verbatim>\<open>src/libsponge/tcp_helpers/ipv4_header.hh\<close>,
  \<^verbatim>\<open>ipv4_header.cc\<close>, \<^verbatim>\<open>ipv4_datagram.hh\<close> and \<^verbatim>\<open>ipv4_datagram.cc\<close>. The
  integer expressions are evaluated at the width the C++ code gives them: \<open>4 * hlen\<close> is an
  \<open>int\<close> of at most 1020, \<open>payload_length\<close> is cut to 16 bits, and the pseudo header sum
  has 32 bits.
\<close>

section \<open>Definitions\<close>

record IPv4Header =
  ip_ver :: u8
  ip_hlen :: u8
  ip_tos :: u8
  ip_len :: u16
  ip_id :: u16
  ip_df :: bool
  ip_mf :: bool
  ip_offset :: u16
  ip_ttl :: u8
  ip_proto :: u8
  ip_cksum :: u16
  ip_src :: u32
  ip_dst :: u32

abbreviation IPv4Header_LENGTH :: size_t where
  "IPv4Header_LENGTH \<equiv> 20"

definition DEFAULT_TTL :: u8 where
  "DEFAULT_TTL = 128"

definition PROTO_TCP :: u8 where
  "PROTO_TCP = 6"

definition IPv4Header_new :: IPv4Header where
  "IPv4Header_new = \<lparr>ip_ver = 4, ip_hlen = 5, ip_tos = 0, ip_len = 0, ip_id = 0, ip_df = True,
     ip_mf = False, ip_offset = 0, ip_ttl = DEFAULT_TTL, ip_proto = PROTO_TCP, ip_cksum = 0,
     ip_src = 0, ip_dst = 0\<rparr>"

text \<open>The fields read one after another, before any of them is checked.\<close>

definition IPv4Header_fields :: "NetParser \<Rightarrow> IPv4Header \<times> NetParser" where
  "IPv4Header_fields p =
     (let (first_byte, p) = NetParser_u8 p;
          (tos, p) = NetParser_u8 p;
          (len, p) = NetParser_u16 p;
          (id, p) = NetParser_u16 p;
          (fo_val, p) = NetParser_u16 p;
          (ttl, p) = NetParser_u8 p;
          (proto, p) = NetParser_u8 p;
          (cksum, p) = NetParser_u16 p;
          (src, p) = NetParser_u32 p;
          (dst, p) = NetParser_u32 p
      in (\<lparr>ip_ver = drop_bit 4 first_byte, ip_hlen = first_byte AND 0x0f, ip_tos = tos,
           ip_len = len, ip_id = id, ip_df = (fo_val AND 0x4000 \<noteq> 0), ip_mf = (fo_val AND 0x2000 \<noteq> 0),
           ip_offset = fo_val AND 0x1fff, ip_ttl = ttl, ip_proto = proto, ip_cksum = cksum,
           ip_src = src, ip_dst = dst\<rparr>, p))"

definition IPv4Header_parse ::
  "IPv4Header \<Rightarrow> NetParser \<Rightarrow> ParseResult \<times> IPv4Header \<times> NetParser" where
  "IPv4Header_parse h p =
     (let original_serialized_version = np_buffer p;
          data_size = sz (np_buffer p)
      in if data_size < IPv4Header_LENGTH then (PacketTooShort, h, p)
         else
           let (h, p) = IPv4Header_fields p
           in if data_size < 4 * ucast (ip_hlen h) then (PacketTooShort, h, p)
              else if ip_ver h \<noteq> 4 then (WrongIPVersion, h, p)
              else if ip_hlen h < 5 then (HeaderTooShort, h, p)
              else if data_size \<noteq> ucast (ip_len h) then (TruncatedPacket, h, p)
              else
                let p = NetParser_remove_prefix (ucast (ip_hlen h) * 4 - IPv4Header_LENGTH) p
                in if NetParser_error p then (np_error p, h, p)
                   else
                     let check = InternetChecksum_add
                           (take (4 * unat (ip_hlen h)) original_serialized_version) (InternetChecksum_new 0)
                     in if InternetChecksum_value check \<noteq> 0 then (BadChecksum, h, p)
                        else (NoError, h, p))"

definition IPv4Header_serialize :: "IPv4Header \<Rightarrow> bytes result" where
  "IPv4Header_serialize h =
     (if ip_ver h \<noteq> 4 then Inl (RuntimeError ''wrong IP version'')
      else if 4 * (ucast (ip_hlen h) :: size_t) < IPv4Header_LENGTH then Inl (RuntimeError ''IP header too short'')
      else
        let first_byte = push_bit 4 (ip_ver h) OR (ip_hlen h AND 0xf);
            ret = NetUnparser_u8 [] first_byte;
            ret = NetUnparser_u8 ret (ip_tos h);
            ret = NetUnparser_u16 ret (ip_len h);
            ret = NetUnparser_u16 ret (ip_id h);
            fo_val = (if ip_df h then 0x4000 else 0) OR (if ip_mf h then 0x2000 else 0) OR (ip_offset h AND 0x1fff);
            ret = NetUnparser_u16 ret fo_val;
            ret = NetUnparser_u8 ret (ip_ttl h);
            ret = NetUnparser_u8 ret (ip_proto h);
            ret = NetUnparser_u16 ret (ip_cksum h);
            ret = NetUnparser_u32 ret (ip_src h);
            ret = NetUnparser_u32 ret (ip_dst h)
        in Inr (resize ret (4 * unat (ip_hlen h))))"

definition IPv4Header_payload_length :: "IPv4Header \<Rightarrow> u16" where
  "IPv4Header_payload_length h = ip_len h - 4 * ucast (ip_hlen h)"

definition IPv4Header_pseudo_cksum :: "IPv4Header \<Rightarrow> u32" where
  "IPv4Header_pseudo_cksum h =
     (let pcksum = drop_bit 16 (ip_src h) + (ip_src h AND 0xffff);
          pcksum = pcksum + (drop_bit 16 (ip_dst h) + (ip_dst h AND 0xffff));
          pcksum = pcksum + ucast (ip_proto h)
      in pcksum + ucast (IPv4Header_payload_length h))"

record IPv4Datagram =
  dg_header :: IPv4Header
  dg_payload :: bytes

definition IPv4Datagram_new :: IPv4Datagram where
  "IPv4Datagram_new = \<lparr>dg_header = IPv4Header_new, dg_payload = []\<rparr>"

text \<open>
  As for frames, the result of the header's parser is not used: only the error recorded in
  the \<open>NetParser\<close> and the payload length decide.
\<close>

definition IPv4Datagram_parse :: "IPv4Datagram \<Rightarrow> bytes \<Rightarrow> ParseResult \<times> IPv4Datagram" where
  "IPv4Datagram_parse d buffer =
     (let p = NetParser_new buffer;
          (_, header, p) = IPv4Header_parse (dg_header d) p;
          d = \<lparr>dg_header = header, dg_payload = np_buffer p\<rparr>
      in if sz (dg_payload d) \<noteq> ucast (IPv4Header_payload_length header) then (PacketTooShort, d)
         else (np_error p, d))"

definition IPv4Datagram_serialize :: "IPv4Datagram \<Rightarrow> bytes result" where
  "IPv4Datagram_serialize d =
     (if sz (dg_payload d) \<noteq> ucast (IPv4Header_payload_length (dg_header d))
      then Inl (RuntimeError ''IPv4Datagram::serialize: payload is wrong size'')
      else
        let header_out = (dg_header d)\<lparr>ip_cksum := 0\<rparr>
        in bindE (IPv4Header_serialize header_out) (\<lambda>header_zero_checksum.
             let check = InternetChecksum_add header_zero_checksum (InternetChecksum_new 0);
                 header_out = header_out\<lparr>ip_cksum := InternetChecksum_value check\<rparr>
             in bindE (IPv4Header_serialize header_out) (\<lambda>ret. Inr (ret @ dg_payload d))))"

section \<open>The fixed part of the header\<close>

text \<open>The twenty bytes of a header with given raw field values.\<close>

definition ip_raw :: "u8 \<Rightarrow> u16 \<Rightarrow> IPv4Header \<Rightarrow> bytes" where
  "ip_raw first_byte fo_val h =
     [first_byte, ip_tos h] @ be_bytes 2 (unat (ip_len h)) @ be_bytes 2 (unat (ip_id h))
     @ be_bytes 2 (unat fo_val) @ [ip_ttl h, ip_proto h] @ be_bytes 2 (unat (ip_cksum h))
     @ be_bytes 4 (unat (ip_src h)) @ be_bytes 4 (unat (ip_dst h))"

lemma length_ip_raw [simp]: "length (ip_raw fb fo h) = 20"
  by (simp add: ip_raw_def del: be_bytes.simps)

lemma IPv4Header_fields_raw:
  assumes "fits (ip_raw fb fo h @ rest)"
  shows "IPv4Header_fields (NetParser_new (ip_raw fb fo h @ rest))
    = (h\<lparr>ip_ver := drop_bit 4 fb, ip_hlen := fb AND 0x0f, ip_df := (fo AND 0x4000 \<noteq> 0),
         ip_mf := (fo AND 0x2000 \<noteq> 0), ip_offset := fo AND 0x1fff\<rparr>, NetParser_new rest)"
proof -
  have len: "length rest + 20 < 2 ^ 64" using assms by (simp add: fits_def)
  then have "fits (be_bytes n v @ rest')" if "n + length rest' \<le> length rest + 20" for n v and rest'
    using that by (simp add: fits_def)
  moreover have "fits (b # rest')" if "length rest' < length rest + 20" for b :: u8 and rest'
    using that len by (simp add: fits_def)
  ultimately show ?thesis
    by (simp add: IPv4Header_fields_def ip_raw_def NetParser_new_def read_u8 u16.get_bytes u32.get_bytes
        del: be_bytes.simps)
qed

text \<open>Every string of at least twenty bytes starts with a header.\<close>

lemma ip_raw_split:
  assumes "20 \<le> length s"
  obtains fb fo h where "s = ip_raw fb fo h @ drop 20 s"
proof -
  have "0 < length s" using assms by linarith
  then obtain fb where "drop 0 s = fb # drop 1 s" using u8_at [of 0 s] by auto
  moreover obtain tos where "drop 1 s = tos # drop 2 s" 
    using u8_at [of 1 s] assms by (auto simp: numeral_2_eq_2)
  moreover obtain len where "drop 2 s = be_bytes 2 (unat (len :: u16)) @ drop 4 s"
    using u16_at [of 2 s] assms by auto
  moreover obtain id where "drop 4 s = be_bytes 2 (unat (id :: u16)) @ drop 6 s"
    using u16_at [of 4 s] assms by auto
  moreover obtain fo where "drop 6 s = be_bytes 2 (unat (fo :: u16)) @ drop 8 s"
    using u16_at [of 6 s] assms by auto
  moreover obtain ttl where "drop 8 s = ttl # drop 9 s" using u8_at [of 8 s] assms by auto
  moreover obtain proto where "drop 9 s = proto # drop 10 s" using u8_at [of 9 s] assms by auto
  moreover obtain ck where "drop 10 s = be_bytes 2 (unat (ck :: u16)) @ drop 12 s"
    using u16_at [of 10 s] assms by auto
  moreover obtain src where "drop 12 s = be_bytes 4 (unat (src :: u32)) @ drop 16 s"
    using u32_at [of 12 s] assms by auto
  moreover obtain dst where "drop 16 s = be_bytes 4 (unat (dst :: u32)) @ drop 20 s"
    using u32_at [of 16 s] assms by auto
  ultimately have "drop 0 s = ip_raw fb fo (IPv4Header_new\<lparr>ip_tos := tos, ip_len := len, ip_id := id,
      ip_ttl := ttl, ip_proto := proto, ip_cksum := ck, ip_src := src, ip_dst := dst\<rparr>) @ drop 20 s"
    unfolding ip_raw_def by (simp del: be_bytes.simps drop_0)
  then show thesis by (intro that) simp
qed

section \<open>Header round trip\<close>

definition ip_first_byte :: "IPv4Header \<Rightarrow> u8" where
  "ip_first_byte h = push_bit 4 (ip_ver h) OR (ip_hlen h AND 0xf)"

definition ip_fo_val :: "IPv4Header \<Rightarrow> u16" where
  "ip_fo_val h = (if ip_df h then 0x4000 else 0) OR (if ip_mf h then 0x2000 else 0) OR (ip_offset h AND 0x1fff)"

text \<open>The fields are within the bit widths the wire format has for them.\<close>

definition ip_wf :: "IPv4Header \<Rightarrow> bool" where
  "ip_wf h \<longleftrightarrow> ip_ver h = 4 \<and> 5 \<le> unat (ip_hlen h) \<and> unat (ip_hlen h) < 16 \<and> unat (ip_offset h) < 0x2000"

definition ip_padding :: "IPv4Header \<Rightarrow> bytes" where
  "ip_padding h = replicate (4 * unat (ip_hlen h) - 20) 0"

lemma unat_4hlen: "unat (4 * ucast (hlen :: u8) :: size_t) = 4 * unat hlen"
proof -
  have "unat (ucast hlen :: size_t) = unat hlen" by (simp add: unat_ucast_up)
  then show ?thesis using unat_u8_bound [of hlen] by (simp add: unat_word_ariths)
qed

lemma IPv4Header_serialize_eq:
  assumes "ip_wf h"
  shows "IPv4Header_serialize h = Inr (ip_raw (ip_first_byte h) (ip_fo_val h) h @ ip_padding h)"
proof -
  have "\<not> 4 * (ucast (ip_hlen h) :: size_t) < 20"
    using assms unat_4hlen [of "ip_hlen h"] by (simp add: word_less_nat_alt ip_wf_def)
  with assms have "IPv4Header_serialize h
      = Inr (resize (ip_raw (ip_first_byte h) (ip_fo_val h) h) (4 * unat (ip_hlen h)))"
    by (simp add: IPv4Header_serialize_def ip_wf_def Let_def unparse_eqs ip_raw_def
        ip_first_byte_def ip_fo_val_def del: be_bytes.simps)
  with assms show ?thesis by (simp add: resize_longer ip_wf_def ip_padding_def)
qed

lemma ip_unpack:
  assumes "ip_wf h"
  shows "drop_bit 4 (ip_first_byte h) = ip_ver h" and "ip_first_byte h AND 0x0f = ip_hlen h"
    and "(ip_fo_val h AND 0x4000 \<noteq> 0) = ip_df h" and "(ip_fo_val h AND 0x2000 \<noteq> 0) = ip_mf h"
    and "ip_fo_val h AND 0x1fff = ip_offset h"
proof -
  have "ip_hlen h AND 0xf = ip_hlen h"
    using nibbles [of 0 "ip_hlen h"] assms by (simp add: ip_wf_def)
  then show "drop_bit 4 (ip_first_byte h) = ip_ver h" "ip_first_byte h AND 0x0f = ip_hlen h"
    using nibbles [of "ip_ver h" "ip_hlen h"] assms by (simp_all add: ip_wf_def ip_first_byte_def)
  show "(ip_fo_val h AND 0x4000 \<noteq> 0) = ip_df h" "(ip_fo_val h AND 0x2000 \<noteq> 0) = ip_mf h"
      "ip_fo_val h AND 0x1fff = ip_offset h"
    using fragment_word [of "ip_offset h" "ip_df h" "ip_mf h"] assms
    unfolding ip_wf_def ip_fo_val_def Let_def by blast+
qed

lemma IPv4Header_fields_serialized:
  assumes "ip_wf h" and "fits (ip_raw (ip_first_byte h) (ip_fo_val h) h @ rest)"
  shows "IPv4Header_fields (NetParser_new (ip_raw (ip_first_byte h) (ip_fo_val h) h @ rest))
    = (h, NetParser_new rest)"
  unfolding IPv4Header_fields_raw [OF assms(2)] ip_unpack [OF assms(1)] by simp

text \<open>A correct header in front of its payload: the length field counts both.\<close>

definition ip_sum_ok :: "bytes \<Rightarrow> bool" where
  "ip_sum_ok s \<longleftrightarrow> InternetChecksum_value (InternetChecksum_add s (InternetChecksum_new 0)) = 0"

definition ip_valid :: "IPv4Header \<Rightarrow> bytes \<Rightarrow> bool" where
  "ip_valid h rest \<longleftrightarrow> ip_wf h \<and> unat (ip_len h) = 4 * unat (ip_hlen h) + length rest
     \<and> ip_sum_ok (ip_raw (ip_first_byte h) (ip_fo_val h) h @ ip_padding h)"

lemma IPv4Header_roundtrip:
  assumes valid: "ip_valid h rest" and s: "IPv4Header_serialize h = Inr s" and fits: "fits (s @ rest)"
  shows "IPv4Header_parse h0 (NetParser_new (s @ rest)) = (NoError, h, NetParser_new rest)"
proof -
  have wf: "ip_wf h" and len: "unat (ip_len h) = 4 * unat (ip_hlen h) + length rest"
      and sum: "ip_sum_ok (ip_raw (ip_first_byte h) (ip_fo_val h) h @ ip_padding h)"
    using valid by (simp_all add: ip_valid_def)
  have s_eq: "s = ip_raw (ip_first_byte h) (ip_fo_val h) h @ ip_padding h"
    using s IPv4Header_serialize_eq [OF wf] by simp
  have hl: "4 * unat (ip_hlen h) = 20 + length (ip_padding h)" "5 \<le> unat (ip_hlen h)"
    using wf by (simp_all add: ip_wf_def ip_padding_def)
  have size: "unat (sz (s @ rest)) = unat (ip_len h)"
    using unat_sz_fits [OF fits] len hl by (simp add: s_eq)
  have fields: "IPv4Header_fields (NetParser_new (s @ rest)) = (h, NetParser_new (ip_padding h @ rest))"
    using IPv4Header_fields_serialized [OF wf, of "ip_padding h @ rest"] fits by (simp add: s_eq)
  have guards: "\<not> sz (s @ rest) < 20" "\<not> sz (s @ rest) < 4 * ucast (ip_hlen h)" "ip_ver h = 4"
      "\<not> ip_hlen h < 5" "sz (s @ rest) = ucast (ip_len h)"
    using size len hl wf
    by (auto simp: word_less_nat_alt unat_4hlen ip_wf_def unat_ucast_up intro: word_eq_unatI)
  have "unat (ucast (ip_hlen h) * 4 - 20 :: size_t) = length (ip_padding h)"
    using unat_4hlen [of "ip_hlen h"] hl by (simp add: unat_sub_nowrap mult.commute)
  then have skip: "NetParser_remove_prefix (ucast (ip_hlen h) * 4 - 20) (NetParser_new (ip_padding h @ rest))
      = NetParser_new rest"
    using fits by (subst remove_prefix_ok) (simp_all add: NetParser_new_def s_eq fits_def)
  have "take (4 * unat (ip_hlen h)) (s @ rest) = s" using hl(1) by (simp add: s_eq)
  with guards fields skip sum show ?thesis
    by (simp add: IPv4Header_parse_def ip_sum_ok_def s_eq Let_def NetParser_error_def)
       (simp add: NetParser_new_def NetParser_error_def)
qed

interpretation ipv4: wire_header "\<lambda>_. True" ip_valid IPv4Header_serialize IPv4Header_parse
  by unfold_locales (auto simp: ip_valid_def IPv4Header_serialize_eq IPv4Header_roundtrip)

section \<open>Datagrams\<close>

text \<open>The part of a header before and after its checksum field.\<close>

definition ip_before_cksum :: "IPv4Header \<Rightarrow> bytes" where
  "ip_before_cksum h = [ip_first_byte h, ip_tos h] @ be_bytes 2 (unat (ip_len h))
     @ be_bytes 2 (unat (ip_id h)) @ be_bytes 2 (unat (ip_fo_val h)) @ [ip_ttl h, ip_proto h]"

definition ip_after_cksum :: "IPv4Header \<Rightarrow> bytes" where
  "ip_after_cksum h = be_bytes 4 (unat (ip_src h)) @ be_bytes 4 (unat (ip_dst h)) @ ip_padding h"

lemma ip_cksum_upd [simp]:
  "ip_first_byte (h\<lparr>ip_cksum := c\<rparr>) = ip_first_byte h" "ip_fo_val (h\<lparr>ip_cksum := c\<rparr>) = ip_fo_val h"
  "ip_padding (h\<lparr>ip_cksum := c\<rparr>) = ip_padding h" "ip_wf (h\<lparr>ip_cksum := c\<rparr>) = ip_wf h"
  by (simp_all add: ip_first_byte_def ip_fo_val_def ip_padding_def ip_wf_def)

lemma ip_raw_cksum:
  "ip_raw (ip_first_byte h) (ip_fo_val h) (h\<lparr>ip_cksum := c\<rparr>) @ ip_padding h
    = ip_before_cksum h @ NetUnparser_u16 [] c @ ip_after_cksum h"
  by (simp add: ip_raw_def ip_before_cksum_def ip_after_cksum_def u16.put_eq del: be_bytes.simps)

definition ip_checksum :: "IPv4Header \<Rightarrow> u16" where
  "ip_checksum h = InternetChecksum_value (InternetChecksum_add
     (ip_before_cksum h @ NetUnparser_u16 [] 0 @ ip_after_cksum h) (InternetChecksum_new 0))"

lemma ip_checksum_ok:
  assumes "ip_wf h"
  shows "ip_sum_ok (ip_before_cksum h @ NetUnparser_u16 [] (ip_checksum h) @ ip_after_cksum h)"
  unfolding ip_sum_ok_def
proof (rule stored_checksum_ok)
  have "length (ip_padding h) \<le> 40" using assms by (auto simp: ip_padding_def ip_wf_def)
  then show "unat (0 :: u32) + 65280 * (length (ip_before_cksum h) + length (ip_after_cksum h)) + 65535 < 2 ^ 32"
    by (simp add: ip_before_cksum_def ip_after_cksum_def del: be_bytes.simps)
qed (simp_all add: ip_before_cksum_def ip_checksum_def del: be_bytes.simps)

text \<open>A datagram whose header fits the wire format and whose length field is right.\<close>

definition dg_ok :: "IPv4Datagram \<Rightarrow> bool" where
  "dg_ok d \<longleftrightarrow> ip_wf (dg_header d)
     \<and> unat (ip_len (dg_header d)) = 4 * unat (ip_hlen (dg_header d)) + length (dg_payload d)"

text \<open>The datagram as it arrives: the sender has filled in the checksum.\<close>

definition dg_sealed :: "IPv4Datagram \<Rightarrow> IPv4Datagram" where
  "dg_sealed d = d\<lparr>dg_header := (dg_header d)\<lparr>ip_cksum := ip_checksum (dg_header d)\<rparr>\<rparr>"

lemma payload_length_ok:
  assumes "4 * unat (ip_hlen h) \<le> unat (ip_len h)"
  shows "unat (IPv4Header_payload_length h) = unat (ip_len h) - 4 * unat (ip_hlen h)"
proof -
  have "unat (4 * ucast (ip_hlen h) :: u16) = 4 * unat (ip_hlen h)"
    using unat_u8_bound [of "ip_hlen h"] by (simp add: unat_word_ariths unat_ucast_up)
  with assms show ?thesis by (simp add: IPv4Header_payload_length_def unat_sub_nowrap)
qed

lemma dg_payload_size:
  assumes "dg_ok d"
  shows "sz (dg_payload d) = ucast (IPv4Header_payload_length (dg_header d))"
proof (rule word_eq_unatI)
  have "length (dg_payload d) \<le> unat (ip_len (dg_header d))" using assms by (simp add: dg_ok_def)
  also have "\<dots> < 65536" using unsigned_less [of "ip_len (dg_header d)", where 'a = nat] by simp
  finally have "fits (dg_payload d)" by (simp add: fits_def)
  with assms show "unat (sz (dg_payload d)) = unat (ucast (IPv4Header_payload_length (dg_header d)) :: size_t)"
    by (simp add: unat_ucast_up payload_length_ok dg_ok_def)
qed

lemma IPv4Datagram_serialize_eq:
  assumes "dg_ok d"
  shows "IPv4Datagram_serialize d = Inr (ip_before_cksum (dg_header d)
    @ NetUnparser_u16 [] (ip_checksum (dg_header d)) @ ip_after_cksum (dg_header d) @ dg_payload d)"
proof -
  have "ip_wf (dg_header d)" using assms by (simp add: dg_ok_def)
  then have "IPv4Header_serialize ((dg_header d)\<lparr>ip_cksum := c\<rparr>)
      = Inr (ip_before_cksum (dg_header d) @ NetUnparser_u16 [] c @ ip_after_cksum (dg_header d))" for c
    using IPv4Header_serialize_eq [of "(dg_header d)\<lparr>ip_cksum := c\<rparr>"] ip_raw_cksum [of "dg_header d" c] by simp
  with dg_payload_size [OF assms] show ?thesis
    by (simp add: IPv4Datagram_serialize_def Let_def ip_checksum_def)
qed

lemma length_ip_sealed:
  assumes "ip_wf h"
  shows "length (ip_before_cksum h @ NetUnparser_u16 [] c @ ip_after_cksum h) = 4 * unat (ip_hlen h)"
  using assms
  by (auto simp: ip_before_cksum_def ip_after_cksum_def u16.length_put ip_padding_def ip_wf_def simp del: be_bytes.simps)

lemma IPv4Datagram_roundtrip:
  assumes ok: "dg_ok d" and s: "IPv4Datagram_serialize d = Inr s"
  shows "IPv4Datagram_parse d0 s = (NoError, dg_sealed d)"
    and "ip_sum_ok (take (4 * unat (ip_hlen (dg_header d))) s)"
    and "length s = unat (ip_len (dg_header d))"
proof -
  let ?h = "dg_header (dg_sealed d)"
  let ?t = "ip_before_cksum (dg_header d) @ NetUnparser_u16 [] (ip_checksum (dg_header d)) @ ip_after_cksum (dg_header d)"
  have wf: "ip_wf (dg_header d)" and wfh: "ip_wf ?h" using ok by (simp_all add: dg_ok_def dg_sealed_def)
  have s_eq: "s = ?t @ dg_payload d" using s IPv4Datagram_serialize_eq [OF ok] by simp
  have t: "IPv4Header_serialize ?h = Inr ?t"
    using IPv4Header_serialize_eq [OF wfh] ip_raw_cksum [of "dg_header d"] by (simp add: dg_sealed_def)
  have len: "length ?t = 4 * unat (ip_hlen (dg_header d))" by (rule length_ip_sealed [OF wf])
  then show length: "length s = unat (ip_len (dg_header d))"
    using ok by (simp add: s_eq dg_ok_def)
  show "ip_sum_ok (take (4 * unat (ip_hlen (dg_header d))) s)"
    using ip_checksum_ok [OF wf] len unfolding s_eq by simp
  have "ip_valid ?h (dg_payload d)"
    using wfh ok ip_checksum_ok [OF wf] ip_raw_cksum [of "dg_header d"]
    by (simp add: ip_valid_def dg_sealed_def dg_ok_def)
  moreover have "fits (?t @ dg_payload d)"
    using length unsigned_less [of "ip_len (dg_header d)", where 'a = nat] by (simp add: s_eq fits_def)
  ultimately have "IPv4Header_parse (dg_header d0) (NetParser_new s) = (NoError, ?h, NetParser_new (dg_payload d))"
    using IPv4Header_roundtrip [OF _ t] by (simp add: s_eq)
  moreover have "IPv4Header_payload_length ?h = IPv4Header_payload_length (dg_header d)"
    by (simp add: IPv4Header_payload_length_def dg_sealed_def)
  ultimately show "IPv4Datagram_parse d0 s = (NoError, dg_sealed d)"
    using dg_payload_size [OF ok]
    by (simp add: IPv4Datagram_parse_def NetParser_new_def dg_sealed_def)
qed

text \<open>
  Which strings the datagram parser accepts. \<open>ip_header_ok\<close> are the checks of the header's
  parser before the options are skipped.
\<close>

definition ip_header_ok :: "IPv4Header \<Rightarrow> nat \<Rightarrow> bool" where
  "ip_header_ok h n \<longleftrightarrow> 4 * unat (ip_hlen h) \<le> n \<and> ip_ver h = 4 \<and> 5 \<le> unat (ip_hlen h)
     \<and> n = unat (ip_len h)"

lemma IPv4Header_parse_state:
  assumes fits: "fits buffer" and long: "20 \<le> length buffer"
    and h: "h = fst (IPv4Header_fields (NetParser_new buffer))"
  shows "snd (IPv4Header_parse h0 (NetParser_new buffer))
    = (h, NetParser_new (drop (if ip_header_ok h (length buffer) then 4 * unat (ip_hlen h) else 20) buffer))"
proof -
  obtain fb fo h1 where split: "buffer = ip_raw fb fo h1 @ drop 20 buffer"
    using ip_raw_split [OF long] .
  have "snd (IPv4Header_fields (NetParser_new buffer)) = NetParser_new (drop 20 buffer)"
    using IPv4Header_fields_raw [of fb fo h1 "drop 20 buffer"] split fits by simp
  then have fields: "IPv4Header_fields (NetParser_new buffer) = (h, NetParser_new (drop 20 buffer))"
    using h by (simp add: prod_eq_iff)
  have sz: "unat (sz buffer) = length buffer" using fits by simp
  have guards: "\<not> sz buffer < 20" "sz buffer < 4 * ucast (ip_hlen h) \<longleftrightarrow> length buffer < 4 * unat (ip_hlen h)"
      "ip_hlen h < 5 \<longleftrightarrow> unat (ip_hlen h) < 5" "sz buffer = ucast (ip_len h) \<longleftrightarrow> length buffer = unat (ip_len h)"
    using sz long by (simp_all add: word_less_nat_alt unat_4hlen word_unat_eq_iff unat_ucast_up)
  show ?thesis
  proof (cases "ip_header_ok h (length buffer)")
    case True
    then have ok: "4 * unat (ip_hlen h) \<le> length buffer" "ip_ver h = 4" "5 \<le> unat (ip_hlen h)"
        "length buffer = unat (ip_len h)" by (simp_all add: ip_header_ok_def)
    have "unat (ucast (ip_hlen h) * 4 - 20 :: size_t) = 4 * unat (ip_hlen h) - 20"
      using unat_4hlen [of "ip_hlen h"] ok(3) by (simp add: unat_sub_nowrap mult.commute)
    then have "NetParser_remove_prefix (ucast (ip_hlen h) * 4 - 20) (NetParser_new (drop 20 buffer))
        = NetParser_new (drop (4 * unat (ip_hlen h)) buffer)"
      using fits ok by (subst remove_prefix_ok) (simp_all add: NetParser_new_def)
    with True fields guards ok show ?thesis
      by (simp add: IPv4Header_parse_def Let_def NetParser_error_def)
         (simp add: NetParser_new_def NetParser_error_def)
  next
    case False
    with fields guards show ?thesis
      by (auto simp: IPv4Header_parse_def ip_header_ok_def NetParser_new_def Let_def)
  qed
qed

lemma IPv4Datagram_parse_short:
  assumes "length buffer < 20"
  shows "fst (IPv4Datagram_parse IPv4Datagram_new buffer) = PacketTooShort"
proof -
  have fits: "fits buffer" using assms by (simp add: fits_def)
  then have "sz buffer < 20" using assms by (simp add: word_less_nat_alt)
  moreover have "unat (IPv4Header_payload_length IPv4Header_new) = 65516"
    by (simp add: IPv4Header_payload_length_def IPv4Header_new_def)
  then have "sz buffer \<noteq> ucast (IPv4Header_payload_length IPv4Header_new)"
    using assms fits by (auto simp: word_unat_eq_iff unat_ucast_up)
  ultimately show ?thesis
    by (simp add: IPv4Datagram_parse_def IPv4Header_parse_def IPv4Datagram_new_def NetParser_new_def Let_def)
qed

lemma IPv4Datagram_parse_long:
  assumes fits: "fits buffer" and long: "20 \<le> length buffer"
    and h: "h = fst (IPv4Header_fields (NetParser_new buffer))"
  shows "fst (IPv4Datagram_parse d0 buffer) = NoError \<longleftrightarrow>
    ip_header_ok h (length buffer) \<or> length buffer = 20 + unat (IPv4Header_payload_length h)"
proof -
  let ?n = "if ip_header_ok h (length buffer) then 4 * unat (ip_hlen h) else 20"
  have "fst (IPv4Datagram_parse d0 buffer) = NoError
      \<longleftrightarrow> sz (drop ?n buffer) = ucast (IPv4Header_payload_length h)"
    using IPv4Header_parse_state [OF fits long h, of "dg_header d0"]
    by (auto simp: IPv4Datagram_parse_def NetParser_new_def Let_def split: prod.splits if_splits)
  also have "\<dots> \<longleftrightarrow> length buffer - ?n = unat (IPv4Header_payload_length h)"
    using fits by (simp add: word_unat_eq_iff unat_ucast_up)
  also have "\<dots> \<longleftrightarrow> ip_header_ok h (length buffer) \<or> length buffer = 20 + unat (IPv4Header_payload_length h)"
    using long payload_length_ok [of h] by (auto simp: ip_header_ok_def)
  finally show ?thesis .
qed

section \<open>Properties\<close>

text \<open>
  C11. Serializing a well-formed datagram never throws; the string has the length that the
  header announces, its header verifies under the Internet checksum, and parsing it, into
  any object, reports no error and gives the datagram back with the checksum filled in.
\<close>

theorem ipv4_datagram_roundtrip:
  assumes "dg_ok d"
  shows "\<exists>s. IPv4Datagram_serialize d = Inr s \<and> length s = unat (ip_len (dg_header d))
    \<and> InternetChecksum_value (InternetChecksum_add (take (4 * unat (ip_hlen (dg_header d))) s)
        (InternetChecksum_new 0)) = 0
    \<and> (\<forall>d0. IPv4Datagram_parse d0 s
        = (NoError, d\<lparr>dg_header := (dg_header d)\<lparr>ip_cksum := ip_checksum (dg_header d)\<rparr>\<rparr>))"
proof -
  obtain s where s: "IPv4Datagram_serialize d = Inr s" using IPv4Datagram_serialize_eq [OF assms] by blast
  then show ?thesis
    using IPv4Datagram_roundtrip [OF assms s] unfolding ip_sum_ok_def dg_sealed_def by blast
qed

theorem ipv4_datagram_roundtrip_witness:
  "\<exists>s. IPv4Datagram_serialize \<lparr>dg_header = IPv4Header_new\<lparr>ip_len := 23\<rparr>, dg_payload = [1, 2, 3]\<rparr> = Inr s
    \<and> length s = 23"
proof -
  have "dg_ok \<lparr>dg_header = IPv4Header_new\<lparr>ip_len := 23\<rparr>, dg_payload = [1, 2, 3]\<rparr>"
    by (simp add: dg_ok_def ip_wf_def IPv4Header_new_def)
  from ipv4_datagram_roundtrip [OF this] show ?thesis by auto
qed

text \<open>
  Exactly which strings are accepted as datagrams. A string shorter than a header is
  refused. Any other string is accepted if its version, header length and total length
  agree with its size, or, failing that, if the string minus twenty bytes has the length of
  the payload that the length fields announce. The header checksum plays no part.
\<close>

theorem ipv4_datagram_accepts_iff:
  assumes "fits buffer"
  shows "fst (IPv4Datagram_parse IPv4Datagram_new buffer) = NoError \<longleftrightarrow>
    20 \<le> length buffer
    \<and> (let h = fst (IPv4Header_fields (NetParser_new buffer))
       in ip_ver h = 4 \<and> 5 \<le> unat (ip_hlen h) \<and> 4 * unat (ip_hlen h) \<le> length buffer
            \<and> length buffer = unat (ip_len h)
          \<or> length buffer = 20 + unat (IPv4Header_payload_length h))"
proof (cases "20 \<le> length buffer")
  case True
  then show ?thesis
    using IPv4Datagram_parse_long [OF assms True refl] by (auto simp: ip_header_ok_def Let_def)
next
  case False
  then show ?thesis using IPv4Datagram_parse_short [of buffer] by simp
qed

theorem ipv4_datagram_accepts_iff_witness:
  "fst (IPv4Datagram_parse IPv4Datagram_new [0x45, 0, 0, 20]) \<noteq> NoError"
proof -
  have "fits [0x45, 0, 0, 20 :: u8]" by (simp add: fits_def)
  from ipv4_datagram_accepts_iff [OF this] show ?thesis by simp
qed

text \<open>
  Consequences of the dropped result of the header's parser: a datagram with a wrong
  checksum, and one of another IP version, are both accepted.
\<close>

theorem bad_checksum_accepted:
  "fst (IPv4Header_parse IPv4Header_new (NetParser_new ([0x45, 0, 0, 20] @ replicate 16 1))) = BadChecksum
    \<and> fst (IPv4Datagram_parse IPv4Datagram_new ([0x45, 0, 0, 20] @ replicate 16 1)) = NoError"
  by code_simp

theorem wrong_version_accepted:
  "fst (IPv4Header_parse IPv4Header_new (NetParser_new ([0x65, 0, 0, 20] @ replicate 16 1))) = WrongIPVersion
    \<and> fst (IPv4Datagram_parse IPv4Datagram_new ([0x65, 0, 0, 20] @ replicate 16 1)) = NoError"
  by code_simp

end
