(* ===== verification/Ethernet.thy ===== *)
theory Ethernet
  imports Net_Parser
begin

text \<open>
  Ethernet headers and frames, from \<^verbatim>\<open>src/libsponge/tcp_helpers/ethernet_header.hh\<close>,
  \<^verbatim>\<open>ethernet_header.cc\<close>, \<^verbatim>\<open>ethernet_frame.hh\<close> and \<^verbatim>\<open>ethernet_frame.cc\<close>. The
  array of six bytes is a list of length six. A payload (\<open>BufferList\<close>) is represented by its
  contents.
\<close>

section \<open>Definitions\<close>

type_synonym EthernetAddress = bytes

definition ETHERNET_BROADCAST :: EthernetAddress where
  "ETHERNET_BROADCAST = [0xff, 0xff, 0xff, 0xff, 0xff, 0xff]"

record EthernetHeader =
  eh_dst :: EthernetAddress
  eh_src :: EthernetAddress
  eh_type :: u16

abbreviation EthernetHeader_LENGTH :: size_t where
  "EthernetHeader_LENGTH \<equiv> 14"

definition TYPE_IPv4 :: u16 where
  "TYPE_IPv4 = 0x800"

definition TYPE_ARP :: u16 where
  "TYPE_ARP = 0x806"

text \<open>\<open>EthernetHeader _header{}\<close> is value-initialised.\<close>

definition EthernetHeader_new :: EthernetHeader where
  "EthernetHeader_new = \<lparr>eh_dst = replicate 6 0, eh_src = replicate 6 0, eh_type = 0\<rparr>"

definition EthernetHeader_parse ::
  "EthernetHeader \<Rightarrow> NetParser \<Rightarrow> ParseResult \<times> EthernetHeader \<times> NetParser" where
  "EthernetHeader_parse h p =
     (if sz (np_buffer p) < EthernetHeader_LENGTH then (PacketTooShort, h, p)
      else
        let (dst, p) = read_bytes (eh_dst h) p;
            (src, p) = read_bytes (eh_src h) p;
            (type, p) = NetParser_u16 p
        in (np_error p, \<lparr>eh_dst = dst, eh_src = src, eh_type = type\<rparr>, p))"

definition EthernetHeader_serialize :: "EthernetHeader \<Rightarrow> bytes" where
  "EthernetHeader_serialize h =
     (let ret = write_bytes [] (eh_dst h);
          ret = write_bytes ret (eh_src h)
      in NetUnparser_u16 ret (eh_type h))"

record EthernetFrame =
  ef_header :: EthernetHeader
  ef_payload :: bytes

definition EthernetFrame_new :: EthernetFrame where
  "EthernetFrame_new = \<lparr>ef_header = EthernetHeader_new, ef_payload = []\<rparr>"

text \<open>The frame's parser does not look at the result of the header's parser.\<close>

definition EthernetFrame_parse :: "EthernetFrame \<Rightarrow> bytes \<Rightarrow> ParseResult \<times> EthernetFrame" where
  "EthernetFrame_parse f buffer =
     (let p = NetParser_new buffer;
          (_, header, p) = EthernetHeader_parse (ef_header f) p
      in (np_error p, \<lparr>ef_header = header, ef_payload = np_buffer p\<rparr>))"

definition EthernetFrame_serialize :: "EthernetFrame \<Rightarrow> bytes" where
  "EthernetFrame_serialize f = EthernetHeader_serialize (ef_header f) @ ef_payload f"

section \<open>Headers\<close>

definition eh_wf :: "EthernetHeader \<Rightarrow> bool" where
  "eh_wf h \<longleftrightarrow> length (eh_dst h) = 6 \<and> length (eh_src h) = 6"

definition ef_wf :: "EthernetFrame \<Rightarrow> bool" where
  "ef_wf f \<longleftrightarrow> eh_wf (ef_header f)"

lemma eh_wf_new [simp]: "eh_wf EthernetHeader_new"
  by (simp add: eh_wf_def EthernetHeader_new_def)

lemma EthernetHeader_serialize_eq:
  "EthernetHeader_serialize h = eh_dst h @ eh_src h @ be_bytes 2 (unat (eh_type h))"
  by (simp add: EthernetHeader_serialize_def Let_def write_bytes_eq u16.put_eq)

lemma EthernetHeader_roundtrip:
  assumes "eh_wf h0" and "eh_wf h" and fits: "fits (EthernetHeader_serialize h @ rest)"
  shows "EthernetHeader_parse h0 (NetParser_new (EthernetHeader_serialize h @ rest))
    = (NoError, h, NetParser_new rest)"
proof -
  have len: "length rest + 14 < 2 ^ 64"
    using fits assms(2) by (simp add: EthernetHeader_serialize_eq eh_wf_def fits_def)
  then have "\<not> sz (EthernetHeader_serialize h @ rest) < 14"
    using unat_sz_fits [OF fits] assms(2)
    by (simp add: word_less_nat_alt EthernetHeader_serialize_eq eh_wf_def)
  moreover have "fits (eh_dst h @ eh_src h @ be_bytes 2 (unat (eh_type h)) @ rest)"
      "fits (eh_src h @ be_bytes 2 (unat (eh_type h)) @ rest)"
      "fits (be_bytes 2 (unat (eh_type h)) @ rest)"
    using len assms(2) by (simp_all add: fits_def eh_wf_def)
  ultimately show ?thesis
    using assms(1,2)
    by (simp add: EthernetHeader_parse_def NetParser_new_def EthernetHeader_serialize_eq
        read_bytes_eq u16.get_bytes eh_wf_def del: be_bytes.simps)
qed

interpretation eth: wire_header eh_wf "\<lambda>h rest. eh_wf h" "\<lambda>h. Inr (EthernetHeader_serialize h)" EthernetHeader_parse
  by unfold_locales (auto simp: EthernetHeader_roundtrip)

section \<open>Frames\<close>

text \<open>What the frame parser does with every buffer, short ones included.\<close>

lemma EthernetFrame_parse_short:
  assumes "length buffer < 14"
  shows "EthernetFrame_parse f buffer = (NoError, \<lparr>ef_header = ef_header f, ef_payload = buffer\<rparr>)"
proof -
  have "fits buffer" using assms by (simp add: fits_def)
  with assms show ?thesis
    by (simp add: EthernetFrame_parse_def EthernetHeader_parse_def NetParser_new_def word_less_nat_alt)
qed

lemma EthernetFrame_roundtrip:
  assumes "ef_wf f0" and "ef_wf f" and "fits (EthernetFrame_serialize f)"
  shows "EthernetFrame_parse f0 (EthernetFrame_serialize f) = (NoError, f)"
  using EthernetHeader_roundtrip [of "ef_header f0" "ef_header f" "ef_payload f"] assms
  by (simp add: EthernetFrame_parse_def EthernetFrame_serialize_def ef_wf_def NetParser_new_def)

lemma eth_header_split:
  assumes "14 \<le> length buffer"
  obtains h where "eh_wf h" and "buffer = EthernetHeader_serialize h @ drop 14 buffer"
proof -
  let ?t = "take 2 (drop 12 buffer)"
  let ?h = "\<lparr>eh_dst = take 6 buffer, eh_src = take 6 (drop 6 buffer), eh_type = of_nat (be_nat ?t)\<rparr>"
  have t: "length ?t = 2" using assms by simp
  then have "be_nat ?t < 65536" using be_nat_bound [of ?t] by simp
  then have "unat (of_nat (be_nat ?t) :: u16) = be_nat ?t" by (simp add: unat_of_nat)
  then have "EthernetHeader_serialize ?h = take 6 buffer @ take 6 (drop 6 buffer) @ ?t"
    using be_bytes_be_nat [OF t] by (simp add: EthernetHeader_serialize_eq del: be_bytes.simps)
  also have "\<dots> = take 14 buffer"
    using take_add [of 6 6 buffer] take_add [of 12 2 buffer] by simp
  finally have "buffer = EthernetHeader_serialize ?h @ drop 14 buffer" by simp
  moreover have "eh_wf ?h" using assms by (simp add: eh_wf_def)
  ultimately show thesis by (rule that [rotated])
qed

section \<open>Properties\<close>

text \<open>
  C10. An Ethernet frame survives the wire, in both directions: parsing a serialized frame
  gives the frame back with no error, whatever object it is parsed into; and for every buffer
  of at least a header's length, parsing reports no error and serializing the parsed frame
  gives back the buffer, byte for byte.
\<close>

theorem ethernet_frame_wire:
  assumes "ef_wf f0" and "ef_wf f" and "fits (EthernetFrame_serialize f)"
    and "fits buffer" and "14 \<le> length buffer"
  shows "EthernetFrame_parse f0 (EthernetFrame_serialize f) = (NoError, f)
    \<and> (\<exists>g. EthernetFrame_parse f0 buffer = (NoError, g) \<and> EthernetFrame_serialize g = buffer)"
proof -
  obtain h where h: "eh_wf h" "buffer = EthernetHeader_serialize h @ drop 14 buffer"
    using eth_header_split assms(5) by blast
  let ?g = "\<lparr>ef_header = h, ef_payload = drop 14 buffer\<rparr>"
  have "EthernetFrame_serialize ?g = buffer" using h by (simp add: EthernetFrame_serialize_def)
  with EthernetFrame_roundtrip [of f0 ?g] EthernetFrame_roundtrip [OF assms(1-3)] assms(1,4) h(1)
  show ?thesis by (auto simp: ef_wf_def)
qed

theorem ethernet_frame_wire_witness:
  "\<exists>g. EthernetFrame_parse EthernetFrame_new (replicate 20 7) = (NoError, g)
    \<and> EthernetFrame_serialize g = replicate 20 7"
  using ethernet_frame_wire [of EthernetFrame_new EthernetFrame_new "replicate 20 7"]
  by (simp add: ef_wf_def EthernetFrame_new_def EthernetFrame_serialize_def
      EthernetHeader_serialize_eq fits_def eh_wf_def EthernetHeader_new_def del: replicate.simps)

text \<open>
  A frame shorter than an Ethernet header is accepted with \<open>NoError\<close>: the header's
  \<open>PacketTooShort\<close> is dropped, and the header keeps the fields it had.
\<close>

theorem short_frame_accepted:
  "EthernetFrame_parse EthernetFrame_new [1, 2, 3]
    = (NoError, \<lparr>ef_header = EthernetHeader_new, ef_payload = [1, 2, 3]\<rparr>)"
  by (simp add: EthernetFrame_parse_short EthernetFrame_new_def)

end
