(* ===== verification/ARP_Message.thy ===== *)
theory ARP_Message
  imports Ethernet
begin

text \<open>
  ARP messages, from \<^verbatim>\<open>src/libsponge/tcp_helpers/arp_message.hh\<close> and
  \<^verbatim>\<open>arp_message.cc\<close>.
\<close>

section \<open>Definitions\<close>

record ARPMessage =
  am_hardware_type :: u16
  am_protocol_type :: u16
  am_hardware_address_size :: u8
  am_protocol_address_size :: u8
  am_opcode :: u16
  am_sender_ethernet_address :: EthernetAddress
  am_sender_ip_address :: u32
  am_target_ethernet_address :: EthernetAddress
  am_target_ip_address :: u32

abbreviation ARPMessage_LENGTH :: size_t where
  "ARPMessage_LENGTH \<equiv> 28"

definition TYPE_ETHERNET :: u16 where
  "TYPE_ETHERNET = 1"

definition OPCODE_REQUEST :: u16 where
  "OPCODE_REQUEST = 1"

definition OPCODE_REPLY :: u16 where
  "OPCODE_REPLY = 2"

definition ARPMessage_new :: ARPMessage where
  "ARPMessage_new = \<lparr>am_hardware_type = TYPE_ETHERNET, am_protocol_type = TYPE_IPv4,
     am_hardware_address_size = 6, am_protocol_address_size = 4, am_opcode = 0,
     am_sender_ethernet_address = replicate 6 0, am_sender_ip_address = 0,
     am_target_ethernet_address = replicate 6 0, am_target_ip_address = 0\<rparr>"

definition ARPMessage_supported :: "ARPMessage \<Rightarrow> bool" where
  "ARPMessage_supported m \<longleftrightarrow> am_hardware_type m = TYPE_ETHERNET \<and> am_protocol_type m = TYPE_IPv4
     \<and> am_hardware_address_size m = 6 \<and> am_protocol_address_size m = 4
     \<and> (am_opcode m = OPCODE_REQUEST \<or> am_opcode m = OPCODE_REPLY)"

definition ARPMessage_parse :: "ARPMessage \<Rightarrow> bytes \<Rightarrow> ParseResult \<times> ARPMessage" where
  "ARPMessage_parse m buffer =
     (let p = NetParser_new buffer
      in if sz (np_buffer p) < ARPMessage_LENGTH then (PacketTooShort, m)
         else
           let (hardware_type, p) = NetParser_u16 p;
               (protocol_type, p) = NetParser_u16 p;
               (hardware_address_size, p) = NetParser_u8 p;
               (protocol_address_size, p) = NetParser_u8 p;
               (opcode, p) = NetParser_u16 p;
               m = m\<lparr>am_hardware_type := hardware_type, am_protocol_type := protocol_type,
                     am_hardware_address_size := hardware_address_size,
                     am_protocol_address_size := protocol_address_size, am_opcode := opcode\<rparr>
           in if \<not> ARPMessage_supported m then (Unsupported, m)
              else
                let (sender_ethernet_address, p) = read_bytes (am_sender_ethernet_address m) p;
                    (sender_ip_address, p) = NetParser_u32 p;
                    (target_ethernet_address, p) = read_bytes (am_target_ethernet_address m) p;
                    (target_ip_address, p) = NetParser_u32 p
                in (np_error p, m\<lparr>am_sender_ethernet_address := sender_ethernet_address,
                      am_sender_ip_address := sender_ip_address,
                      am_target_ethernet_address := target_ethernet_address,
                      am_target_ip_address := target_ip_address\<rparr>))"

definition ARPMessage_serialize :: "ARPMessage \<Rightarrow> bytes result" where
  "ARPMessage_serialize m =
     (if \<not> ARPMessage_supported m
      then Inl (RuntimeError ''ARPMessage::serialize(): unsupported field combination (must be Ethernet/IP, and request or reply)'')
      else
        let ret = NetUnparser_u16 [] (am_hardware_type m);
            ret = NetUnparser_u16 ret (am_protocol_type m);
            ret = NetUnparser_u8 ret (am_hardware_address_size m);
            ret = NetUnparser_u8 ret (am_protocol_address_size m);
            ret = NetUnparser_u16 ret (am_opcode m);
            ret = write_bytes ret (am_sender_ethernet_address m);
            ret = NetUnparser_u32 ret (am_sender_ip_address m);
            ret = write_bytes ret (am_target_ethernet_address m);
            ret = NetUnparser_u32 ret (am_target_ip_address m)
        in Inr ret)"

section \<open>The wire format\<close>

text \<open>The addresses are arrays of six bytes.\<close>

definition am_wf :: "ARPMessage \<Rightarrow> bool" where
  "am_wf m \<longleftrightarrow> length (am_sender_ethernet_address m) = 6 \<and> length (am_target_ethernet_address m) = 6"

lemma am_wf_new [simp]: "am_wf ARPMessage_new"
  by (simp add: am_wf_def ARPMessage_new_def)

definition am_raw :: "ARPMessage \<Rightarrow> bytes" where
  "am_raw m = be_bytes 2 (unat (am_hardware_type m)) @ be_bytes 2 (unat (am_protocol_type m))
     @ [am_hardware_address_size m, am_protocol_address_size m] @ be_bytes 2 (unat (am_opcode m))
     @ am_sender_ethernet_address m @ be_bytes 4 (unat (am_sender_ip_address m))
     @ am_target_ethernet_address m @ be_bytes 4 (unat (am_target_ip_address m))"

lemma length_am_raw: "am_wf m \<Longrightarrow> length (am_raw m) = 28"
  by (simp add: am_raw_def am_wf_def del: be_bytes.simps)

lemma ARPMessage_serialize_eq:
  "ARPMessage_supported m \<Longrightarrow> ARPMessage_serialize m = Inr (am_raw m)"
  by (simp add: ARPMessage_serialize_def Let_def unparse_eqs write_bytes_eq am_raw_def del: be_bytes.simps)

text \<open>
  Parsing a string that starts with the twenty-eight bytes of a message: the message is read
  when its fields are supported; otherwise only the first five fields are.
\<close>

definition am_fixed :: "ARPMessage \<Rightarrow> ARPMessage \<Rightarrow> ARPMessage" where
  "am_fixed m m0 = m0\<lparr>am_hardware_type := am_hardware_type m, am_protocol_type := am_protocol_type m,
     am_hardware_address_size := am_hardware_address_size m,
     am_protocol_address_size := am_protocol_address_size m, am_opcode := am_opcode m\<rparr>"

lemma ARPMessage_parse_raw:
  assumes wf: "am_wf m0" "am_wf m" and fits: "fits (am_raw m @ rest)"
  shows "ARPMessage_parse m0 (am_raw m @ rest) =
    (if ARPMessage_supported m then (NoError, m) else (Unsupported, am_fixed m m0))"
proof -
  have len: "length rest + 28 < 2 ^ 64" using fits length_am_raw [OF wf(2)] by (simp add: fits_def)
  have "\<not> sz (am_raw m @ rest) < 28"
    using unat_sz_fits [OF fits] length_am_raw [OF wf(2)] by (simp add: word_less_nat_alt)
  moreover have "fits (be_bytes n v @ rest')" if "n + length rest' \<le> length rest + 28" for n v and rest'
    using that len by (simp add: fits_def)
  moreover have "fits (b # rest')" if "length rest' < length rest + 28" for b :: u8 and rest'
    using that len by (simp add: fits_def)
  moreover have "fits (a @ rest')" if "length a + length rest' \<le> length rest + 28" for a rest' :: bytes
    using that len by (simp add: fits_def)
  ultimately show ?thesis
    using wf
    by (simp add: ARPMessage_parse_def am_raw_def NetParser_new_def read_u8 u16.get_bytes u32.get_bytes
        read_bytes_eq am_wf_def am_fixed_def ARPMessage_supported_def Let_def del: be_bytes.simps)
qed

lemma am_raw_split:
  assumes "28 \<le> length s"
  obtains m where "am_wf m" and "s = am_raw m @ drop 28 s"
proof -
  have split: "drop k s = take 6 (drop k s) @ drop (k + 6) s" for k
    using append_take_drop_id [of 6 "drop k s"] by (simp add: add.commute)
  obtain ht where "drop 0 s = be_bytes 2 (unat (ht :: u16)) @ drop 2 s"
    using u16_at [of 0 s] assms by (auto simp: numeral_2_eq_2)
  moreover obtain pt where "drop 2 s = be_bytes 2 (unat (pt :: u16)) @ drop 4 s" using u16_at [of 2 s] assms by auto
  moreover obtain hs where "drop 4 s = hs # drop 5 s" using u8_at [of 4 s] assms by auto
  moreover obtain ps where "drop 5 s = ps # drop 6 s" using u8_at [of 5 s] assms by auto
  moreover obtain op where "drop 6 s = be_bytes 2 (unat (op :: u16)) @ drop 8 s" using u16_at [of 6 s] assms by auto
  moreover have "drop 8 s = take 6 (drop 8 s) @ drop 14 s" using split [of 8] by simp
  moreover obtain sip where "drop 14 s = be_bytes 4 (unat (sip :: u32)) @ drop 18 s" using u32_at [of 14 s] assms by auto
  moreover have "drop 18 s = take 6 (drop 18 s) @ drop 24 s" using split [of 18] by simp
  moreover obtain tip where "drop 24 s = be_bytes 4 (unat (tip :: u32)) @ drop 28 s" using u32_at [of 24 s] assms by auto
  ultimately have "drop 0 s = am_raw \<lparr>am_hardware_type = ht, am_protocol_type = pt,
      am_hardware_address_size = hs, am_protocol_address_size = ps, am_opcode = op,
      am_sender_ethernet_address = take 6 (drop 8 s), am_sender_ip_address = sip,
      am_target_ethernet_address = take 6 (drop 18 s), am_target_ip_address = tip\<rparr> @ drop 28 s"
    unfolding am_raw_def ARPMessage.simps append_assoc append_Cons append_Nil by (simp only:)
  then show thesis using assms by (intro that) (simp_all add: am_wf_def)
qed

text \<open>
  ARP messages are self-delimiting, like headers; the parser ignores what follows them.
\<close>

interpretation arp: wire_header am_wf "\<lambda>m rest. am_wf m \<and> ARPMessage_supported m" ARPMessage_serialize
  "\<lambda>m0 p. case ARPMessage_parse m0 (np_buffer p) of
     (r, m) \<Rightarrow> (r, m, NetParser_new (drop 28 (np_buffer p)))"
proof unfold_locales
  fix h0 h rest s
  assume "am_wf h0" "am_wf h \<and> ARPMessage_supported h" "ARPMessage_serialize h = Inr s" "fits (s @ rest)"
  then show "(case ARPMessage_parse h0 (np_buffer (NetParser_new (s @ rest))) of
      (r, m) \<Rightarrow> (r, m, NetParser_new (drop 28 (np_buffer (NetParser_new (s @ rest))))))
      = (NoError, h, NetParser_new rest)"
    using ARPMessage_parse_raw [of h0 h rest]
    by (auto simp: ARPMessage_serialize_eq NetParser_new_def length_am_raw)
qed (simp add: ARPMessage_serialize_eq)

text \<open>The three ways a parse can end.\<close>

lemma ARPMessage_parse_result:
  assumes "fits buffer"
  obtains (short) "length buffer < 28" "ARPMessage_parse ARPMessage_new buffer = (PacketTooShort, ARPMessage_new)"
  | (ok) m where "28 \<le> length buffer" "am_wf m" "take 28 buffer = am_raw m" "ARPMessage_supported m"
      "ARPMessage_parse ARPMessage_new buffer = (NoError, m)"
  | (unsupported) m where "28 \<le> length buffer" "\<not> ARPMessage_supported m"
      "ARPMessage_parse ARPMessage_new buffer = (Unsupported, m)"
proof (cases "28 \<le> length buffer")
  case True
  obtain m where m: "am_wf m" "buffer = am_raw m @ drop 28 buffer" using am_raw_split [OF True] .
  have take: "take 28 buffer = am_raw m" by (subst m(2)) (simp add: length_am_raw [OF m(1)])
  note parse = ARPMessage_parse_raw [OF am_wf_new m(1), of "drop 28 buffer", folded m(2), OF assms]
  show thesis
  proof (cases "ARPMessage_supported m")
    case True
    with ok [OF \<open>28 \<le> length buffer\<close> m(1) take] parse show thesis by simp
  next
    case False
    with parse have bad: "ARPMessage_parse ARPMessage_new buffer = (Unsupported, am_fixed m ARPMessage_new)"
      by simp
    from False have "\<not> ARPMessage_supported (am_fixed m ARPMessage_new)"
      by (simp add: ARPMessage_supported_def am_fixed_def)
    from unsupported [OF True this bad] show thesis .
  qed
next
  case False
  with short assms show thesis
    by (simp add: ARPMessage_parse_def NetParser_new_def word_less_nat_alt Let_def)
qed

section \<open>Properties\<close>



end
