(* ===== verification/Network_Interface.thy ===== *)
theory Network_Interface
  imports IPv4 ARP_Message "HOL-Library.Multiset"
begin

text \<open>
  The network interface of \<^verbatim>\<open>src/libsponge/network_interface.hh\<close> and
  \<^verbatim>\<open>network_interface.cc\<close>: it puts datagrams into Ethernet frames, resolves the Ethernet
  address of the next hop by ARP, keeps datagrams until an answer arrives, and answers
  requests. An IP address is the number that \<open>ipv4_numeric\<close> returns.

  \<open>send_datagram\<close> reads \<open>arp_iter->time_arp\<close> also when no request for the address is
  pending, that is, through the end iterator of the list. The language does not define what
  this read yields, so \<open>past_end\<close>, an argument of the model, stands for it. The read
  \<open>iter->second.time_ethernet\<close> through the end iterator of the map does not matter: the
  condition it occurs in holds in that case whatever it yields.
\<close>

section \<open>The interface\<close>

record ARP =
  arp_addr :: size_t
  time_arp :: u64

record EthernetEntry =
  ethernet_address :: EthernetAddress
  time_ethernet :: u64

record NetworkInterface =
  ni_ethernet_address :: EthernetAddress
  ni_ip_address :: u32
  ni_frames_out :: "EthernetFrame list"
  ni_unsent :: "(IPv4Datagram \<times> size_t) list"
  ni_arp_req :: "ARP list"
  ni_ip_ethernet_map :: "size_t \<rightharpoonup> EthernetEntry"
  ni_time :: u64

definition NetworkInterface_new :: "EthernetAddress \<Rightarrow> u32 \<Rightarrow> NetworkInterface" where
  "NetworkInterface_new address ip = \<lparr>ni_ethernet_address = address, ni_ip_address = ip, ni_frames_out = [],
     ni_unsent = [], ni_arp_req = [], ni_ip_ethernet_map = (\<lambda>_. None), ni_time = 0\<rparr>"

text \<open>The search for a pending request; \<open>None\<close> is the end of the list.\<close>

fun find_arp :: "size_t \<Rightarrow> ARP list \<Rightarrow> ARP option" where
  "find_arp ip [] = None"
| "find_arp ip (a # as) = (if arp_addr a \<noteq> ip then find_arp ip as else Some a)"

text \<open>The request for the address of \<open>next_hop_ip\<close>, and the frame it is sent in.\<close>

definition arp_request :: "size_t \<Rightarrow> NetworkInterface \<Rightarrow> ARPMessage" where
  "arp_request next_hop_ip n = ARPMessage_new\<lparr>am_opcode := OPCODE_REQUEST, am_target_ip_address := ucast next_hop_ip,
     am_sender_ip_address := ni_ip_address n, am_sender_ethernet_address := ni_ethernet_address n\<rparr>"

text \<open>An entry of the cache counts for 30 seconds.\<close>

definition find_ethernet :: "size_t \<Rightarrow> NetworkInterface \<Rightarrow> EthernetAddress option" where
  "find_ethernet ip n =
     (case ni_ip_ethernet_map n ip of
        None \<Rightarrow> None
      | Some e \<Rightarrow> if ni_time n - time_ethernet e > 30000 then None else Some (ethernet_address e))"

definition NetworkInterface_send_datagram :: "u64 \<Rightarrow> IPv4Datagram \<Rightarrow> u32 \<Rightarrow> NetworkInterface \<Rightarrow> NetworkInterface result" where
  "NetworkInterface_send_datagram past_end dgram next_hop n =
     (let next_hop_ip = ucast next_hop :: size_t;
          e_frame = EthernetFrame_new\<lparr>ef_header := (ef_header EthernetFrame_new)\<lparr>eh_src := ni_ethernet_address n\<rparr>\<rparr>
      in case find_ethernet next_hop_ip n of
           None \<Rightarrow>
             let n = n\<lparr>ni_unsent := ni_unsent n @ [(dgram, next_hop_ip)]\<rparr>;
                 arp_iter = find_arp next_hop_ip (ni_arp_req n);
                 time = (case arp_iter of None \<Rightarrow> past_end | Some a \<Rightarrow> time_arp a)
             in if ni_time n - time \<le> 5000 then
                  if arp_iter \<noteq> None then Inr n
                  else Inr (n\<lparr>ni_frames_out := ni_frames_out n @ [e_frame]\<rparr>)
                else
                  bindE (ARPMessage_serialize (arp_request next_hop_ip n)) (\<lambda>payload.
                    let e_frame = e_frame\<lparr>ef_payload := payload, ef_header := (ef_header e_frame)\<lparr>
                          eh_dst := ETHERNET_BROADCAST, eh_type := TYPE_ARP\<rparr>\<rparr>;
                        req = \<lparr>arp_addr = next_hop_ip, time_arp = ni_time n\<rparr>
                    in Inr (n\<lparr>ni_arp_req := ni_arp_req n @ [req], ni_frames_out := ni_frames_out n @ [e_frame]\<rparr>))
         | Some eth_addr \<Rightarrow>
             bindE (IPv4Datagram_serialize dgram) (\<lambda>payload.
               let e_frame = e_frame\<lparr>ef_payload := payload, ef_header := (ef_header e_frame)\<lparr>
                     eh_type := TYPE_IPv4, eh_dst := eth_addr\<rparr>\<rparr>
               in Inr (n\<lparr>ni_frames_out := ni_frames_out n @ [e_frame]\<rparr>)))"

text \<open>The loop over the datagrams that wait: those for the address are sent and removed.\<close>

fun send_waiting :: "EthernetAddress \<Rightarrow> ARPMessage \<Rightarrow> (IPv4Datagram \<times> size_t) list
    \<Rightarrow> (EthernetFrame list \<times> (IPv4Datagram \<times> size_t) list) result" where
  "send_waiting src msg [] = Inr ([], [])"
| "send_waiting src msg ((dgram, ip) # unsent) =
     (if ip = ucast (am_sender_ip_address msg) then
        bindE (IPv4Datagram_serialize dgram) (\<lambda>payload.
          let e_frame = \<lparr>ef_header = \<lparr>eh_dst = am_sender_ethernet_address msg, eh_src = src, eh_type = TYPE_IPv4\<rparr>,
                ef_payload = payload\<rparr>
          in bindE (send_waiting src msg unsent) (\<lambda>(frames, rest). Inr (e_frame # frames, rest)))
      else bindE (send_waiting src msg unsent) (\<lambda>(frames, rest). Inr (frames, (dgram, ip) # rest)))"

text \<open>The answer to a request.\<close>

definition arp_reply :: "ARPMessage \<Rightarrow> NetworkInterface \<Rightarrow> ARPMessage" where
  "arp_reply msg n = ARPMessage_new\<lparr>am_opcode := OPCODE_REPLY, am_target_ip_address := am_sender_ip_address msg,
     am_target_ethernet_address := am_sender_ethernet_address msg, am_sender_ip_address := ni_ip_address n,
     am_sender_ethernet_address := ni_ethernet_address n\<rparr>"

definition recv_arp :: "EthernetHeader \<Rightarrow> ARPMessage \<Rightarrow> NetworkInterface \<Rightarrow> NetworkInterface result" where
  "recv_arp header msg n =
     (let entry = \<lparr>ethernet_address = am_sender_ethernet_address msg, time_ethernet = ni_time n\<rparr>;
          n = n\<lparr>ni_ip_ethernet_map := (ni_ip_ethernet_map n)(ucast (am_sender_ip_address msg) \<mapsto> entry)\<rparr>;
          isvalid_req = (am_opcode msg = OPCODE_REQUEST \<and> am_target_ip_address msg = ni_ip_address n);
          isvalid_res = (am_opcode msg = OPCODE_REPLY)
      in bindE
           (if isvalid_req then
              bindE (ARPMessage_serialize (arp_reply msg n)) (\<lambda>payload.
                let e_frame = \<lparr>ef_header = \<lparr>eh_dst = eh_src header, eh_src = ni_ethernet_address n, eh_type = TYPE_ARP\<rparr>,
                      ef_payload = payload\<rparr>
                in Inr (n\<lparr>ni_frames_out := ni_frames_out n @ [e_frame]\<rparr>))
            else Inr n)
           (\<lambda>n. if isvalid_res then
              bindE (send_waiting (ni_ethernet_address n) msg (ni_unsent n)) (\<lambda>(frames, unsent).
                Inr (n\<lparr>ni_frames_out := ni_frames_out n @ frames, ni_unsent := unsent,
                  ni_arp_req := filter (\<lambda>a. arp_addr a \<noteq> ucast (am_sender_ip_address msg)) (ni_arp_req n)\<rparr>))
            else Inr n))"

definition NetworkInterface_recv_frame ::
  "EthernetFrame \<Rightarrow> NetworkInterface \<Rightarrow> (IPv4Datagram option \<times> NetworkInterface) result" where
  "NetworkInterface_recv_frame frame n =
     (let header = ef_header frame
      in if eh_dst header \<noteq> ETHERNET_BROADCAST \<and> eh_dst header \<noteq> ni_ethernet_address n then Inr (None, n)
         else if eh_type header = TYPE_IPv4 then
           let (r, datagrams) = IPv4Datagram_parse IPv4Datagram_new (ef_payload frame)
           in if r = NoError then Inr (Some datagrams, n) else Inr (None, n)
         else if eh_type header = TYPE_ARP then
           let (r, msg) = ARPMessage_parse ARPMessage_new (ef_payload frame)
           in if r \<noteq> NoError then Inr (None, n)
              else bindE (recv_arp header msg n) (\<lambda>n. Inr (None, n))
         else Inr (None, n))"

definition NetworkInterface_tick :: "size_t \<Rightarrow> NetworkInterface \<Rightarrow> NetworkInterface" where
  "NetworkInterface_tick ms_since_last_tick n = n\<lparr>ni_time := ni_time n + ms_since_last_tick\<rparr>"

section \<open>Sending and receiving\<close>

text \<open>The frame that carries a datagram, and the bytes of a datagram that can be sent.\<close>

definition dg_bytes :: "IPv4Datagram \<Rightarrow> bytes" where
  "dg_bytes d = (case IPv4Datagram_serialize d of Inl e \<Rightarrow> [] | Inr payload \<Rightarrow> payload)"

lemma dg_bytes_ok: "dg_ok d \<Longrightarrow> IPv4Datagram_serialize d = Inr (dg_bytes d)"
  by (simp add: dg_bytes_def IPv4Datagram_serialize_eq)

definition ip_frame :: "EthernetAddress \<Rightarrow> EthernetAddress \<Rightarrow> bytes \<Rightarrow> EthernetFrame" where
  "ip_frame dst src payload = \<lparr>ef_header = \<lparr>eh_dst = dst, eh_src = src, eh_type = TYPE_IPv4\<rparr>, ef_payload = payload\<rparr>"

definition arp_frame :: "EthernetAddress \<Rightarrow> EthernetAddress \<Rightarrow> bytes \<Rightarrow> EthernetFrame" where
  "arp_frame dst src payload = \<lparr>ef_header = \<lparr>eh_dst = dst, eh_src = src, eh_type = TYPE_ARP\<rparr>, ef_payload = payload\<rparr>"

definition blank_frame :: "EthernetAddress \<Rightarrow> EthernetFrame" where
  "blank_frame src = EthernetFrame_new\<lparr>ef_header := (ef_header EthernetFrame_new)\<lparr>eh_src := src\<rparr>\<rparr>"

lemma arp_request_supported: "ARPMessage_supported (arp_request ip n)"
  by (simp add: arp_request_def ARPMessage_supported_def ARPMessage_new_def)

lemma arp_reply_supported: "ARPMessage_supported (arp_reply msg n)"
  by (simp add: arp_reply_def ARPMessage_supported_def ARPMessage_new_def)

lemma arp_request_queue [simp]: "arp_request ip (n\<lparr>ni_unsent := u\<rparr>) = arp_request ip n"
  by (simp add: arp_request_def)

lemma send_known:
  assumes "find_ethernet (ucast hop) n = Some addr" and "dg_ok d"
  shows "NetworkInterface_send_datagram past_end d hop n =
    Inr (n\<lparr>ni_frames_out := ni_frames_out n @ [ip_frame addr (ni_ethernet_address n) (dg_bytes d)]\<rparr>)"
  using assms
  by (simp add: NetworkInterface_send_datagram_def Let_def dg_bytes_ok ip_frame_def EthernetFrame_new_def EthernetHeader_new_def)

text \<open>What a datagram for an unknown address adds to the queue.\<close>

definition request_frames :: "u64 \<Rightarrow> size_t \<Rightarrow> NetworkInterface \<Rightarrow> EthernetFrame list \<times> ARP list" where
  "request_frames past_end ip n =
     (case find_arp ip (ni_arp_req n) of
        Some a \<Rightarrow> if ni_time n - time_arp a \<le> 5000 then ([], [])
          else ([arp_frame ETHERNET_BROADCAST (ni_ethernet_address n) (am_raw (arp_request ip n))],
                [\<lparr>arp_addr = ip, time_arp = ni_time n\<rparr>])
      | None \<Rightarrow> if ni_time n - past_end \<le> 5000 then ([blank_frame (ni_ethernet_address n)], [])
          else ([arp_frame ETHERNET_BROADCAST (ni_ethernet_address n) (am_raw (arp_request ip n))],
                [\<lparr>arp_addr = ip, time_arp = ni_time n\<rparr>]))"

lemma send_unknown:
  assumes "find_ethernet (ucast hop) n = None"
  shows "NetworkInterface_send_datagram past_end d hop n =
    Inr (n\<lparr>ni_unsent := ni_unsent n @ [(d, ucast hop)], ni_arp_req := ni_arp_req n @ snd (request_frames past_end (ucast hop) n),
      ni_frames_out := ni_frames_out n @ fst (request_frames past_end (ucast hop) n)\<rparr>)"
  using assms
  by (cases n; cases "find_arp (ucast hop) (ni_arp_req n)")
    (simp_all add: NetworkInterface_send_datagram_def Let_def request_frames_def arp_frame_def blank_frame_def
      ARPMessage_serialize_eq arp_request_supported EthernetFrame_new_def EthernetHeader_new_def,
     simp_all add: arp_request_def)

lemma send_waiting_eq:
  assumes "\<forall>(d, ip) \<in> set unsent. dg_ok d"
  shows "send_waiting src msg unsent =
    Inr (map (\<lambda>(d, ip). ip_frame (am_sender_ethernet_address msg) src (dg_bytes d))
           (filter (\<lambda>(d, ip). ip = ucast (am_sender_ip_address msg)) unsent),
         filter (\<lambda>(d, ip). ip \<noteq> ucast (am_sender_ip_address msg)) unsent)"
  using assms by (induction unsent) (auto simp: dg_bytes_ok ip_frame_def)

text \<open>The state after a valid ARP message.\<close>

definition learned :: "ARPMessage \<Rightarrow> NetworkInterface \<Rightarrow> NetworkInterface" where
  "learned msg n = n\<lparr>ni_ip_ethernet_map := (ni_ip_ethernet_map n)(ucast (am_sender_ip_address msg) \<mapsto>
     \<lparr>ethernet_address = am_sender_ethernet_address msg, time_ethernet = ni_time n\<rparr>)\<rparr>"

definition answered :: "ARPMessage \<Rightarrow> NetworkInterface \<Rightarrow> NetworkInterface" where
  "answered msg n = (learned msg n)\<lparr>
     ni_frames_out := ni_frames_out n @ map (\<lambda>(d, ip). ip_frame (am_sender_ethernet_address msg) (ni_ethernet_address n) (dg_bytes d))
           (filter (\<lambda>(d, ip). ip = ucast (am_sender_ip_address msg)) (ni_unsent n)),
     ni_unsent := filter (\<lambda>(d, ip). ip \<noteq> ucast (am_sender_ip_address msg)) (ni_unsent n),
     ni_arp_req := filter (\<lambda>a. arp_addr a \<noteq> ucast (am_sender_ip_address msg)) (ni_arp_req n)\<rparr>"

definition replied :: "EthernetHeader \<Rightarrow> ARPMessage \<Rightarrow> NetworkInterface \<Rightarrow> NetworkInterface" where
  "replied header msg n = (learned msg n)\<lparr>ni_frames_out := ni_frames_out n
     @ [arp_frame (eh_src header) (ni_ethernet_address n) (am_raw (arp_reply msg n))]\<rparr>"

lemma recv_arp_eq:
  assumes "\<forall>(d, ip) \<in> set (ni_unsent n). dg_ok d"
  shows "recv_arp header msg n = Inr
    (if am_opcode msg = OPCODE_REPLY then answered msg n
     else if am_opcode msg = OPCODE_REQUEST \<and> am_target_ip_address msg = ni_ip_address n then replied header msg n
     else learned msg n)"
proof -
  have ne: "OPCODE_REQUEST \<noteq> OPCODE_REPLY" by (simp add: OPCODE_REQUEST_def OPCODE_REPLY_def)
  have fields: "ni_ip_address (learned msg n) = ni_ip_address n" "ni_ethernet_address (learned msg n) = ni_ethernet_address n"
      "ni_unsent (learned msg n) = ni_unsent n" "arp_reply msg (learned msg n) = arp_reply msg n"
      "ni_frames_out (learned msg n) = ni_frames_out n" "ni_arp_req (learned msg n) = ni_arp_req n"
    by (simp_all add: arp_reply_def learned_def)
  note unf = recv_arp_def [of header msg n, unfolded Let_def, folded learned_def]
  consider (reply) "am_opcode msg = OPCODE_REPLY" | (request) "am_opcode msg = OPCODE_REQUEST" "am_target_ip_address msg = ni_ip_address n"
    | (other) "am_opcode msg \<noteq> OPCODE_REPLY" "\<not> (am_opcode msg = OPCODE_REQUEST \<and> am_target_ip_address msg = ni_ip_address n)"
    by blast
  then show ?thesis
  proof cases
    case reply
    with ne show ?thesis by (simp add: unf fields send_waiting_eq [OF assms] answered_def)
  next
    case request
    with ne show ?thesis
      by (simp add: unf fields ARPMessage_serialize_eq arp_reply_supported replied_def arp_frame_def)
  next
    case other
    then show ?thesis by (auto simp: unf fields)
  qed
qed

section \<open>Runs of an interface\<close>

datatype ni_op = Send u64 IPv4Datagram u32 | Recv EthernetFrame | Tick size_t

fun ni_step :: "ni_op \<Rightarrow> NetworkInterface \<Rightarrow> NetworkInterface result" where
  "ni_step (Send past_end d hop) n = NetworkInterface_send_datagram past_end d hop n"
| "ni_step (Recv frame) n = bindE (NetworkInterface_recv_frame frame n) (\<lambda>(d, n'). Inr n')"
| "ni_step (Tick ms) n = Inr (NetworkInterface_tick ms n)"

fun ni_run :: "ni_op list \<Rightarrow> NetworkInterface \<Rightarrow> NetworkInterface result" where
  "ni_run [] n = Inr n"
| "ni_run (op # ops) n = bindE (ni_step op n) (ni_run ops)"

fun sends_of :: "ni_op list \<Rightarrow> bytes list" where
  "sends_of [] = []"
| "sends_of (Send past_end d hop # ops) = dg_bytes d # sends_of ops"
| "sends_of (_ # ops) = sends_of ops"

fun op_ok :: "ni_op \<Rightarrow> bool" where
  "op_ok (Send past_end d hop) = dg_ok d"
| "op_ok _ = True"

text \<open>The datagrams on the wire and those that wait.\<close>

definition on_wire :: "NetworkInterface \<Rightarrow> bytes multiset" where
  "on_wire n = mset (map ef_payload (filter (\<lambda>f. eh_type (ef_header f) = TYPE_IPv4) (ni_frames_out n)))"

definition waiting :: "NetworkInterface \<Rightarrow> bytes multiset" where
  "waiting n = mset (map (dg_bytes \<circ> fst) (ni_unsent n))"

definition unsent_ok :: "NetworkInterface \<Rightarrow> bool" where
  "unsent_ok n \<longleftrightarrow> (\<forall>(d, ip) \<in> set (ni_unsent n). dg_ok d)"

lemma types_differ [simp]: "TYPE_ARP \<noteq> TYPE_IPv4" "TYPE_IPv4 \<noteq> TYPE_ARP"
  by (simp_all add: TYPE_ARP_def TYPE_IPv4_def)

lemma frame_types [simp]:
  "eh_type (ef_header (ip_frame dst src payload)) = TYPE_IPv4" "ef_payload (ip_frame dst src payload) = payload"
  "eh_type (ef_header (arp_frame dst src payload)) = TYPE_ARP" "eh_type (ef_header (blank_frame src)) \<noteq> TYPE_IPv4"
  by (simp_all add: ip_frame_def arp_frame_def blank_frame_def EthernetFrame_new_def EthernetHeader_new_def TYPE_IPv4_def)

lemma request_frames_not_ip: "\<forall>f. f \<in> set (fst (request_frames past_end ip n)) \<longrightarrow> eh_type (ef_header f) \<noteq> TYPE_IPv4"
  by (simp add: request_frames_def split: option.splits)

lemma send_ledger:
  assumes "unsent_ok n" and "dg_ok d"
  shows "\<exists>n'. NetworkInterface_send_datagram past_end d hop n = Inr n' \<and> unsent_ok n'
    \<and> on_wire n' + waiting n' = on_wire n + waiting n + {#dg_bytes d#}"
proof (cases "find_ethernet (ucast hop) n")
  case None
  show ?thesis
    using assms unfolding send_unknown [OF None]
    by (simp add: unsent_ok_def on_wire_def waiting_def request_frames_not_ip)
next
  case (Some addr)
  show ?thesis
    using assms unfolding send_known [OF Some assms(2)] by (simp add: unsent_ok_def on_wire_def waiting_def)
qed

lemma split_waiting:
  "mset (map (\<lambda>(d, ip). dg_bytes d) (filter (\<lambda>(d, ip). ip = a) u)) + mset (map (dg_bytes \<circ> fst) (filter (\<lambda>(d, ip). ip \<noteq> a) u))
    = mset (map (dg_bytes \<circ> fst) u)"
  by (induction u) auto

lemma answered_ledger:
  assumes "unsent_ok n"
  shows "unsent_ok (answered msg n) \<and> on_wire (answered msg n) + waiting (answered msg n) = on_wire n + waiting n"
proof -
  have "filter (\<lambda>f. eh_type (ef_header f) = TYPE_IPv4) (map (\<lambda>(d, ip). ip_frame a s (dg_bytes d)) u)
      = map (\<lambda>(d, ip). ip_frame a s (dg_bytes d)) u" for a s u
    by (induction u) auto
  moreover have "ef_payload \<circ> (\<lambda>(d, ip). ip_frame a s (dg_bytes d)) = (\<lambda>(d, ip :: size_t). dg_bytes d)" for a s
    by (auto simp: fun_eq_iff)
  ultimately have "on_wire (answered msg n) = on_wire n + mset (map (\<lambda>(d, ip). dg_bytes d)
      (filter (\<lambda>(d, ip). ip = ucast (am_sender_ip_address msg)) (ni_unsent n)))"
    by (simp add: on_wire_def answered_def)
  moreover have "waiting (answered msg n) = mset (map (dg_bytes \<circ> fst)
      (filter (\<lambda>(d, ip). ip \<noteq> ucast (am_sender_ip_address msg)) (ni_unsent n)))"
    by (simp add: waiting_def answered_def)
  moreover have "unsent_ok (answered msg n)" using assms by (auto simp: unsent_ok_def answered_def)
  ultimately show ?thesis
    using split_waiting [of "ucast (am_sender_ip_address msg)" "ni_unsent n"] unfolding waiting_def [of n]
    by (simp only: add.assoc)
qed

lemma recv_ledger:
  assumes "unsent_ok n"
  shows "\<exists>d n'. NetworkInterface_recv_frame frame n = Inr (d, n') \<and> unsent_ok n'
    \<and> on_wire n' + waiting n' = on_wire n + waiting n"
proof -
  have "\<forall>(d, ip) \<in> set (ni_unsent n). dg_ok d" using assms by (simp add: unsent_ok_def)
  note arp = recv_arp_eq [OF this, of "ef_header frame"]
  have "unsent_ok (learned msg n)" "on_wire (learned msg n) = on_wire n" "waiting (learned msg n) = waiting n" for msg
    using assms by (simp_all add: unsent_ok_def on_wire_def waiting_def learned_def)
  moreover have "unsent_ok (replied h msg n)" "on_wire (replied h msg n) = on_wire n" "waiting (replied h msg n) = waiting n" for h msg
    using assms by (simp_all add: unsent_ok_def on_wire_def waiting_def learned_def replied_def)
  moreover note answered_ledger [OF assms]
  ultimately show ?thesis
    using assms by (auto simp: NetworkInterface_recv_frame_def Let_def arp split_beta)
qed

lemma step_ledger:
  assumes "unsent_ok n" and "op_ok op"
  shows "\<exists>n'. ni_step op n = Inr n' \<and> unsent_ok n'
    \<and> on_wire n' + waiting n' = on_wire n + waiting n + mset (sends_of [op])"
proof (cases op)
  case (Send past_end d hop)
  then show ?thesis using send_ledger [of n d past_end hop] assms by simp
next
  case (Recv frame)
  then show ?thesis using recv_ledger [OF assms(1), of frame] by auto
next
  case (Tick ms)
  then show ?thesis using assms(1) by (simp add: NetworkInterface_tick_def unsent_ok_def on_wire_def waiting_def)
qed

lemma sends_of_Cons: "mset (sends_of (op # ops)) = mset (sends_of [op]) + mset (sends_of ops)"
  by (cases op) simp_all

lemma run_ledger:
  assumes "unsent_ok n" and "list_all op_ok ops"
  shows "\<exists>n'. ni_run ops n = Inr n' \<and> unsent_ok n'
    \<and> on_wire n' + waiting n' = on_wire n + waiting n + mset (sends_of ops)"
  using assms
proof (induction ops arbitrary: n)
  case (Cons op ops)
  obtain n1 where n1: "ni_step op n = Inr n1" "unsent_ok n1"
      "on_wire n1 + waiting n1 = on_wire n + waiting n + mset (sends_of [op])"
    using step_ledger [of n op] Cons.prems by auto
  obtain n2 where n2: "ni_run ops n1 = Inr n2" "unsent_ok n2" "on_wire n2 + waiting n2 = on_wire n1 + waiting n1 + mset (sends_of ops)"
    using Cons.IH [OF n1(2)] Cons.prems by auto
  have "mset (sends_of (op # ops)) = mset (sends_of [op]) + mset (sends_of ops)" by (rule sends_of_Cons)
  then have "on_wire n2 + waiting n2 = on_wire n + waiting n + mset (sends_of (op # ops))"
    unfolding n2(3) n1(3) by (simp only: add.assoc)
  with n1(1) n2(1,2) show ?case by auto
qed simp

text \<open>
  C27. Whatever frames arrive and whenever time passes, the interface neither loses nor
  duplicates nor alters a datagram and never throws: the payloads of the IPv4 frames it has
  sent, together with the datagrams that wait for an address, are exactly the datagrams it
  was given, each as often as it was given.
\<close>

theorem interface_keeps_datagrams:
  assumes "list_all op_ok ops"
  shows "\<exists>n. ni_run ops (NetworkInterface_new address ip) = Inr n \<and> on_wire n + waiting n = mset (sends_of ops)"
  using run_ledger [OF _ assms, of "NetworkInterface_new address ip"]
  by (auto simp: unsent_ok_def on_wire_def waiting_def NetworkInterface_new_def)

theorem interface_keeps_datagrams_witness:
  "\<exists>n. ni_run [Send 0 \<lparr>dg_header = IPv4Header_new\<lparr>ip_len := 23\<rparr>, dg_payload = [1, 2, 3]\<rparr> 7] (NetworkInterface_new [1, 2, 3, 4, 5, 6] 9) = Inr n
    \<and> size (on_wire n + waiting n) = 1"
proof -
  have "dg_ok \<lparr>dg_header = IPv4Header_new\<lparr>ip_len := 23\<rparr>, dg_payload = [1, 2, 3]\<rparr>"
    by (simp add: dg_ok_def ip_wf_def IPv4Header_new_def)
  then have "list_all op_ok [Send 0 \<lparr>dg_header = IPv4Header_new\<lparr>ip_len := 23\<rparr>, dg_payload = [1, 2, 3]\<rparr> 7]" by simp
  from interface_keeps_datagrams [OF this, of "[1, 2, 3, 4, 5, 6]" 9]
  show ?thesis by (fastforce simp del: ni_run.simps size_union)
qed

section \<open>Two interfaces on a link\<close>

lemma ucast_u32_back: "ucast (ucast (x :: u32) :: size_t) = x"
  by transfer simp

lemma ip_frame_received:
  assumes "dg_ok d" and "ni_ethernet_address b = dst"
  shows "NetworkInterface_recv_frame (ip_frame dst src (dg_bytes d)) b = Inr (Some (dg_sealed d), b)"
  using assms(2) IPv4Datagram_roundtrip(1) [OF assms(1) dg_bytes_ok [OF assms(1)]]
  by (simp add: NetworkInterface_recv_frame_def ip_frame_def Let_def)

lemma arp_frame_received:
  assumes "am_wf msg" and "ARPMessage_supported msg" and "dst = ETHERNET_BROADCAST \<or> dst = ni_ethernet_address n" and "unsent_ok n"
  shows "NetworkInterface_recv_frame (arp_frame dst src (am_raw msg)) n = Inr (None,
    if am_opcode msg = OPCODE_REPLY then answered msg n
    else if am_target_ip_address msg = ni_ip_address n then replied \<lparr>eh_dst = dst, eh_src = src, eh_type = TYPE_ARP\<rparr> msg n
    else learned msg n)"
proof -
  have "fits (am_raw msg)" using length_am_raw [OF assms(1)] by (simp add: fits_def)
  then have p: "ARPMessage_parse ARPMessage_new (am_raw msg) = (NoError, msg)"
    using ARPMessage_parse_raw [of ARPMessage_new msg "[]"] assms(1,2) by simp
  have op: "am_opcode msg = OPCODE_REQUEST \<or> am_opcode msg = OPCODE_REPLY" using assms(2) by (simp add: ARPMessage_supported_def)
  have "\<forall>(d, ip) \<in> set (ni_unsent n). dg_ok d" using assms(4) by (simp add: unsent_ok_def)
  from recv_arp_eq [OF this] p op assms(3) show ?thesis
    by (auto simp: NetworkInterface_recv_frame_def arp_frame_def Let_def)
qed



section \<open>Behaviour beyond the contract\<close>

text \<open>
  When the read past the end yields a recent time, an unaddressed frame without contents is
  sent and the address is not asked for.
\<close>

theorem blank_frame_sent:
  "\<exists>n. NetworkInterface_send_datagram 0 d hop (NetworkInterface_new address ip) = Inr n
    \<and> ni_frames_out n = [blank_frame address] \<and> ni_arp_req n = []"
  by (simp add: send_unknown find_ethernet_def NetworkInterface_new_def request_frames_def)

text \<open>
  Once a request is older than five seconds, every further datagram for the address sends
  another request: the search finds the oldest one.
\<close>

theorem requests_repeat:
  "\<exists>n. ni_run [Send 1000 d 7, Tick 5001, Send 1000 d 7, Send 1000 d 7, Send 1000 d 7] (NetworkInterface_new address ip) = Inr n
    \<and> length (ni_frames_out n) = 4 \<and> length (ni_arp_req n) = 4"
proof -
  let ?n0 = "NetworkInterface_new address ip"
  have "\<not> (0 - (1000 :: u64)) \<le> 5000" by simp
  then show ?thesis
    by (simp add: send_unknown find_ethernet_def NetworkInterface_new_def request_frames_def NetworkInterface_tick_def)
qed

end
