(* ===== verification/Router.thy ===== *)
theory Router
  imports Network_Interface
begin

text \<open>
  The router of \<^verbatim>\<open>src/libsponge/router.hh\<close> and \<^verbatim>\<open>router.cc\<close>: interfaces that store the
  datagrams they receive, a routing table, and the forwarding of stored datagrams by longest
  prefix match. \<open>past_end\<close> is the undefined read of \<open>send_datagram\<close> in the state of the
  interface (see \<^verbatim>\<open>Network_Interface\<close>).
\<close>

section \<open>The router\<close>

record Routingtable =
  route_prefix :: u32
  prefix_length :: u8
  next_hop :: "u32 option"
  interface_num :: size_t

record AsyncNetworkInterface =
  an_interface :: NetworkInterface
  an_datagrams_out :: "IPv4Datagram list"

definition AsyncNetworkInterface_new :: "NetworkInterface \<Rightarrow> AsyncNetworkInterface" where
  "AsyncNetworkInterface_new n = \<lparr>an_interface = n, an_datagrams_out = []\<rparr>"

definition AsyncNetworkInterface_recv_frame :: "EthernetFrame \<Rightarrow> AsyncNetworkInterface \<Rightarrow> AsyncNetworkInterface result" where
  "AsyncNetworkInterface_recv_frame frame a =
     bindE (NetworkInterface_recv_frame frame (an_interface a)) (\<lambda>(optional_dgram, n).
       Inr (case optional_dgram of
              None \<Rightarrow> a\<lparr>an_interface := n\<rparr>
            | Some d \<Rightarrow> a\<lparr>an_interface := n, an_datagrams_out := an_datagrams_out a @ [d]\<rparr>))"

record Router =
  rt_routing_table :: "Routingtable list"
  rt_interfaces :: "AsyncNetworkInterface list"

definition Router_new :: Router where
  "Router_new = \<lparr>rt_routing_table = [], rt_interfaces = []\<rparr>"

definition Router_add_interface :: "AsyncNetworkInterface \<Rightarrow> Router \<Rightarrow> size_t \<times> Router" where
  "Router_add_interface i r =
     (let r = r\<lparr>rt_interfaces := rt_interfaces r @ [i]\<rparr> in (sz (rt_interfaces r) - 1, r))"

definition Router_interface :: "size_t \<Rightarrow> Router \<Rightarrow> AsyncNetworkInterface result" where
  "Router_interface N r =
     (if unat N < length (rt_interfaces r) then Inr (rt_interfaces r ! unat N) else Inl (OutOfRange ''vector::at''))"

definition Router_add_route :: "u32 \<Rightarrow> u8 \<Rightarrow> u32 option \<Rightarrow> size_t \<Rightarrow> Router \<Rightarrow> Router" where
  "Router_add_route prefix len hop num r = r\<lparr>rt_routing_table := rt_routing_table r
     @ [\<lparr>route_prefix = prefix, prefix_length = len, next_hop = hop, interface_num = num\<rparr>]\<rparr>"

text \<open>
  The comparison of one entry with a destination. A shift by more bits than the operand has
  is undefined.
\<close>

definition prefix_matches :: "Routingtable \<Rightarrow> u32 \<Rightarrow> bool result" where
  "prefix_matches object dst =
     (if prefix_length object > 32 then Inl (Undefined ''shift count'')
      else
        let postfix_length = 32 - unat (prefix_length object);
            prefix = (if prefix_length object > 0 then ucast (drop_bit postfix_length (route_prefix object)) else 0 :: size_t);
            dst_temp = (if prefix_length object > 0 then drop_bit postfix_length (ucast dst) else 0 :: size_t)
        in Inr (prefix = dst_temp))"

text \<open>The loop over the table: the length and the index of the best entry, from index \<open>i\<close> on.\<close>

fun match_loop :: "u32 \<Rightarrow> size_t \<Rightarrow> int \<times> size_t \<Rightarrow> Routingtable list \<Rightarrow> (int \<times> size_t) result" where
  "match_loop dst i best [] = Inr best"
| "match_loop dst i (max_len, longest_prefix_match) (object # objects) =
     bindE (prefix_matches object dst) (\<lambda>m.
       match_loop dst (i + 1)
         (if m \<and> max_len < int (unat (prefix_length object)) then (int (unat (prefix_length object)), i)
          else (max_len, longest_prefix_match)) objects)"

definition Router_send :: "(NetworkInterface \<Rightarrow> u64) \<Rightarrow> IPv4Datagram \<Rightarrow> u32 \<Rightarrow> size_t \<Rightarrow> Router \<Rightarrow> Router result" where
  "Router_send past_end dgram hop N r =
     bindE (Router_interface N r) (\<lambda>i.
       bindE (NetworkInterface_send_datagram (past_end (an_interface i)) dgram hop (an_interface i)) (\<lambda>n.
         Inr (r\<lparr>rt_interfaces := (rt_interfaces r)[unat N := i\<lparr>an_interface := n\<rparr>]\<rparr>)))"

text \<open>The index of the match is not initialised; it is read only after a match.\<close>

definition Router_route_one_datagram :: "(NetworkInterface \<Rightarrow> u64) \<Rightarrow> IPv4Datagram \<Rightarrow> Router \<Rightarrow> Router result" where
  "Router_route_one_datagram past_end dgram r =
     (let dst = ip_dst (dg_header dgram); ttl = ip_ttl (dg_header dgram)
      in bindE (match_loop dst 0 (- 1, 0) (rt_routing_table r)) (\<lambda>(max_len, longest_prefix_match).
           if max_len \<noteq> - 1 then
             if ttl = 0 \<or> int (unat ttl) - 1 = 0 then Inr r
             else
               let matched_object = rt_routing_table r ! unat longest_prefix_match
               in case next_hop matched_object of
                    Some hop \<Rightarrow> Router_send past_end dgram hop (interface_num matched_object) r
                  | None \<Rightarrow> Router_send past_end dgram dst (interface_num matched_object) r
           else Inr r))"

text \<open>
  Routing a datagram changes no queue of received datagrams, so the loop that empties such a
  queue ends.
\<close>

lemma map_keep_nth: "(map f xs)[i := f (xs ! i)] = map f xs"
  by (metis list_update_id map_update)

lemma Router_send_queues:
  assumes "Router_send past_end d hop N r = Inr r'"
  shows "map an_datagrams_out (rt_interfaces r') = map an_datagrams_out (rt_interfaces r)"
    and "rt_routing_table r' = rt_routing_table r"
  using assms
  by (auto simp: Router_send_def Router_interface_def bindE_Inr_iff map_update map_keep_nth split: if_splits)

lemma route_one_queues:
  assumes "Router_route_one_datagram past_end d r = Inr r'"
  shows "map an_datagrams_out (rt_interfaces r') = map an_datagrams_out (rt_interfaces r)"
    and "rt_routing_table r' = rt_routing_table r"
  using assms Router_send_queues
  by (auto simp: Router_route_one_datagram_def Let_def bindE_Inr_iff split: if_splits option.splits)

definition received_by :: "nat \<Rightarrow> Router \<Rightarrow> IPv4Datagram list" where
  "received_by i r = (if i < length (rt_interfaces r) then an_datagrams_out (rt_interfaces r ! i) else [])"

definition pop_received :: "nat \<Rightarrow> Router \<Rightarrow> Router" where
  "pop_received i r = r\<lparr>rt_interfaces := (rt_interfaces r)[i := (rt_interfaces r ! i)\<lparr>an_datagrams_out :=
     tl (an_datagrams_out (rt_interfaces r ! i))\<rparr>]\<rparr>"

lemma received_by_map: "map an_datagrams_out (rt_interfaces r') = map an_datagrams_out (rt_interfaces r)
    \<Longrightarrow> received_by i r' = received_by i r"
  unfolding received_by_def by (metis length_map nth_map)

lemma received_by_pop: "received_by i (pop_received j r) = (if i = j then tl (received_by i r) else received_by i r)"
  by (simp add: received_by_def pop_received_def)

function route_queue :: "(NetworkInterface \<Rightarrow> u64) \<Rightarrow> nat \<Rightarrow> Router \<Rightarrow> Router result" where
  "route_queue past_end i r =
     (case received_by i r of
        [] \<Rightarrow> Inr r
      | d # ds \<Rightarrow> bindE (Router_route_one_datagram past_end d r) (\<lambda>r'. route_queue past_end i (pop_received i r')))"
  by pat_completeness auto

termination route_queue
proof (relation "measure (\<lambda>(past_end, i, r). length (received_by i r))")
  fix past_end i r d ds r'
  assume "received_by i r = d # ds" and "Router_route_one_datagram past_end d r = Inr r'"
  then have "received_by i r' = d # ds" using received_by_map [OF route_one_queues(1)] by simp
  then show "((past_end, i, pop_received i r'), (past_end, i, r)) \<in> measure (\<lambda>(past_end, i, r). length (received_by i r))"
    using \<open>received_by i r = d # ds\<close> by (simp add: received_by_pop)
qed simp

declare route_queue.simps [simp del]

fun route_interfaces :: "(NetworkInterface \<Rightarrow> u64) \<Rightarrow> nat list \<Rightarrow> Router \<Rightarrow> Router result" where
  "route_interfaces past_end [] r = Inr r"
| "route_interfaces past_end (i # is) r = bindE (route_queue past_end i r) (route_interfaces past_end is)"

definition Router_route :: "(NetworkInterface \<Rightarrow> u64) \<Rightarrow> Router \<Rightarrow> Router result" where
  "Router_route past_end r = route_interfaces past_end [0..<length (rt_interfaces r)] r"

section \<open>Longest prefix match\<close>

text \<open>The first \<open>len\<close> bits of the destination agree with those of the entry.\<close>

definition plen :: "Routingtable \<Rightarrow> nat" where
  "plen e = unat (prefix_length e)"

definition covers_dst :: "Routingtable \<Rightarrow> u32 \<Rightarrow> bool" where
  "covers_dst e dst \<longleftrightarrow> (\<forall>k < 32. 32 - plen e \<le> k \<longrightarrow> bit (route_prefix e) k = bit dst k)"

definition table_ok :: "Routingtable list \<Rightarrow> bool" where
  "table_ok t \<longleftrightarrow> (\<forall>e \<in> set t. plen e \<le> 32) \<and> length t < 2 ^ 64"

lemma bit_u32: "bit (x :: u32) k \<Longrightarrow> k < 32"
  using bit_imp_le_length [of x k] by simp

lemma drop_bit_eq_iff:
  "drop_bit n (ucast (x :: u32)) = (ucast (drop_bit n (y :: u32)) :: size_t) \<longleftrightarrow> (\<forall>k < 32. n \<le> k \<longrightarrow> bit x k = bit y k)"
proof -
  have l: "bit (drop_bit n (ucast x) :: size_t) k = bit x (n + k)" for k
    using bit_u32 [of x "n + k"] by (auto simp: bit_drop_bit_eq bit_ucast_iff)
  have r: "bit (ucast (drop_bit n y) :: size_t) k = bit y (n + k)" for k
    using bit_u32 [of y "n + k"] by (auto simp: bit_drop_bit_eq bit_ucast_iff)
  have "(\<forall>k. bit x (n + k) = bit y (n + k)) \<longleftrightarrow> (\<forall>k < 32. n \<le> k \<longrightarrow> bit x k = bit y k)"
  proof
    assume "\<forall>k. bit x (n + k) = bit y (n + k)"
    then show "\<forall>k < 32. n \<le> k \<longrightarrow> bit x k = bit y k" by (metis le_add_diff_inverse)
  next
    assume "\<forall>k < 32. n \<le> k \<longrightarrow> bit x k = bit y k"
    then show "\<forall>k. bit x (n + k) = bit y (n + k)" using bit_u32 by (metis le_add1)
  qed
  moreover have "drop_bit n (ucast x) = (ucast (drop_bit n y) :: size_t)
      \<longleftrightarrow> (\<forall>k. bit (drop_bit n (ucast x) :: size_t) k = bit (ucast (drop_bit n y) :: size_t) k)"
    by (metis bit_eqI)
  ultimately show ?thesis by (simp only: l r)
qed

lemma prefix_matches_eq:
  assumes "plen e \<le> 32"
  shows "prefix_matches e dst = Inr (covers_dst e dst)"
proof -
  have "\<not> prefix_length e > 32" using assms by (simp add: word_less_nat_alt plen_def)
  moreover have "covers_dst e dst" if "prefix_length e = 0" using that by (simp add: covers_dst_def plen_def)
  ultimately show ?thesis
    using drop_bit_eq_iff [of "32 - plen e" dst "route_prefix e"]
    by (auto simp: prefix_matches_def Let_def covers_dst_def word_gt_0 plen_def)
qed

text \<open>
  \<open>best_route t dst i\<close>: entry \<open>i\<close> covers the destination, no covering entry is longer, and
  the covering entries of the same length come later.
\<close>

definition best_route :: "Routingtable list \<Rightarrow> u32 \<Rightarrow> nat \<Rightarrow> bool" where
  "best_route t dst i \<longleftrightarrow> i < length t \<and> covers_dst (t ! i) dst
     \<and> (\<forall>j < length t. covers_dst (t ! j) dst \<longrightarrow> plen (t ! j) \<le> plen (t ! i)
          \<and> (plen (t ! j) = plen (t ! i) \<longrightarrow> i \<le> j))"

definition match_result :: "Routingtable list \<Rightarrow> u32 \<Rightarrow> int \<times> size_t \<Rightarrow> bool" where
  "match_result t dst = (\<lambda>(mx, n). if mx = - 1 then (\<forall>e \<in> set t. \<not> covers_dst e dst)
     else best_route t dst (unat n) \<and> mx = int (plen (t ! unat n)))"

lemma match_result_bound:
  assumes "match_result t dst (mx, n)" and "j < length t" and "covers_dst (t ! j) dst"
  shows "int (plen (t ! j)) \<le> mx"
proof -
  have "mx \<noteq> - 1" using assms by (auto simp: match_result_def)
  with assms show ?thesis by (simp add: match_result_def best_route_def)
qed

lemma best_route_last:
  assumes "covers_dst e dst" and "\<And>j. j < length t \<Longrightarrow> covers_dst (t ! j) dst \<Longrightarrow> plen (t ! j) < plen e"
  shows "best_route (t @ [e]) dst (length t)"
  unfolding best_route_def
proof (intro conjI allI impI)
  fix j assume j: "j < length (t @ [e])" "covers_dst ((t @ [e]) ! j) dst"
  then consider "j < length t" "covers_dst (t ! j) dst" | "j = length t" by (auto simp: nth_append less_Suc_eq)
  then show "plen ((t @ [e]) ! j) \<le> plen ((t @ [e]) ! length t)"
    using assms(2) [of j] by cases (simp_all add: nth_append)
  assume "plen ((t @ [e]) ! j) = plen ((t @ [e]) ! length t)"
  then show "length t \<le> j" using assms(2) [of j] j by (cases "j < length t") (simp_all add: nth_append)
qed (use assms(1) in simp_all)

lemma best_route_keep:
  assumes "best_route t dst i" and "covers_dst e dst \<Longrightarrow> plen e \<le> plen (t ! i)"
  shows "best_route (t @ [e]) dst i"
  unfolding best_route_def
proof (intro conjI allI impI)
  have i: "i < length t" "covers_dst (t ! i) dst" using assms(1) by (simp_all add: best_route_def)
  then show "i < length (t @ [e])" "covers_dst ((t @ [e]) ! i) dst" by (simp_all add: nth_append)
  fix j assume j: "j < length (t @ [e])" "covers_dst ((t @ [e]) ! j) dst"
  show "plen ((t @ [e]) ! j) \<le> plen ((t @ [e]) ! i)"
    using j i assms by (cases "j < length t") (simp_all add: nth_append best_route_def)
  assume "plen ((t @ [e]) ! j) = plen ((t @ [e]) ! i)"
  then show "i \<le> j" using j i assms(1) by (cases "j < length t") (simp_all add: nth_append best_route_def)
qed

lemma match_result_snoc:
  assumes m: "match_result t dst (mx, n)" and i: "unat i = length t"
  shows "match_result (t @ [e]) dst (if covers_dst e dst \<and> mx < int (plen e) then (int (plen e), i) else (mx, n))"
proof (cases "covers_dst e dst \<and> mx < int (plen e)")
  case True
  then have "best_route (t @ [e]) dst (length t)"
    using match_result_bound [OF m] by (intro best_route_last) fastforce+
  with True i show ?thesis by (simp add: match_result_def)
next
  case False
  show ?thesis
  proof (cases "mx = - 1")
    case True
    with False m show ?thesis by (auto simp: match_result_def)
  next
    case mx: False
    then have b: "best_route t dst (unat n)" "mx = int (plen (t ! unat n))"
      using m by (simp_all add: match_result_def)
    have "best_route (t @ [e]) dst (unat n)" using False b by (intro best_route_keep) auto
    moreover have "(t @ [e]) ! unat n = t ! unat n" using b(1) by (simp add: best_route_def nth_append)
    moreover have "(if covers_dst e dst \<and> mx < int (plen e) then (int (plen e), i) else (mx, n)) = (mx, n)"
      using False by simp
    ultimately show ?thesis using mx b(2) by (simp only: match_result_def split if_False)
  qed
qed

lemma match_loop_ok:
  assumes "match_result t dst best" and "table_ok (t @ u)" and "unat i = length t"
  shows "\<exists>best'. match_loop dst i best u = Inr best' \<and> match_result (t @ u) dst best'"
  using assms
proof (induction u arbitrary: t i best)
  case (Cons e u)
  obtain mx n where best: "best = (mx, n)" by fastforce
  let ?b = "if covers_dst e dst \<and> mx < int (plen e) then (int (plen e), i) else (mx, n)"
  have len: "length t + 1 < 2 ^ 64" "plen e \<le> 32" using Cons.prems(2) by (simp_all add: table_ok_def)
  have "match_result (t @ [e]) dst ?b"
    using match_result_snoc [of t dst mx n i e] Cons.prems best by blast
  moreover have "unat (i + 1) = length (t @ [e])"
    using Cons.prems(3) len(1) by (subst unat_add_nowrap) simp_all
  ultimately show ?case
    using Cons.IH [of "t @ [e]" ?b "i + 1"] Cons.prems(2) prefix_matches_eq [OF len(2), of dst]
    by (cases "covers_dst e dst \<and> mx < int (plen e)") (auto simp: best plen_def [symmetric])
qed simp

lemma match_loop_table:
  assumes "table_ok t"
  obtains mx n where "match_loop dst 0 (- 1, 0) t = Inr (mx, n)" "match_result t dst (mx, n)"
  using match_loop_ok [of "[]" dst "(- 1, 0)" t 0] assms by (auto simp: match_result_def)

lemma best_route_unique: "best_route t dst i \<Longrightarrow> best_route t dst j \<Longrightarrow> i = j"
  unfolding best_route_def by (metis le_antisym)

lemma best_route_covers: "best_route t dst i \<Longrightarrow> \<exists>e \<in> set t. covers_dst e dst"
  unfolding best_route_def by (metis nth_mem)

lemma best_route_exists:
  assumes "table_ok t" and "e \<in> set t" and "covers_dst e dst"
  shows "\<exists>i. best_route t dst i"
proof -
  obtain mx n where "match_result t dst (mx, n)" by (rule match_loop_table [OF assms(1)])
  with assms(2,3) show ?thesis by (auto simp: match_result_def split: if_splits)
qed

definition route_hop :: "Routingtable \<Rightarrow> u32 \<Rightarrow> u32" where
  "route_hop e dst = (case next_hop e of Some hop \<Rightarrow> hop | None \<Rightarrow> dst)"

lemma ttl_dropped: "ttl = 0 \<or> int (unat ttl) - 1 = 0 \<longleftrightarrow> unat (ttl :: u8) \<le> 1"
proof -
  have "ttl = 0 \<longleftrightarrow> unat ttl = 0" by (simp add: unat_eq_0)
  then show ?thesis by linarith
qed

lemma route_one_none:
  assumes "table_ok (rt_routing_table r)" and "\<forall>e \<in> set (rt_routing_table r). \<not> covers_dst e (ip_dst (dg_header d))"
  shows "Router_route_one_datagram past_end d r = Inr r"
proof -
  obtain mx n where m: "match_loop (ip_dst (dg_header d)) 0 (- 1, 0) (rt_routing_table r) = Inr (mx, n)"
      "match_result (rt_routing_table r) (ip_dst (dg_header d)) (mx, n)"
    by (rule match_loop_table [OF assms(1)])
  have "mx = - 1" using m(2) assms(2) by (auto simp: match_result_def split: if_splits dest: best_route_covers)
  with m(1) show ?thesis by (simp add: Router_route_one_datagram_def Let_def)
qed

lemma route_one_best:
  assumes "table_ok (rt_routing_table r)" and "best_route (rt_routing_table r) (ip_dst (dg_header d)) i"
  shows "Router_route_one_datagram past_end d r =
    (if unat (ip_ttl (dg_header d)) \<le> 1 then Inr r
     else Router_send past_end d (route_hop (rt_routing_table r ! i) (ip_dst (dg_header d)))
       (interface_num (rt_routing_table r ! i)) r)"
proof -
  obtain mx n where m: "match_loop (ip_dst (dg_header d)) 0 (- 1, 0) (rt_routing_table r) = Inr (mx, n)"
      "match_result (rt_routing_table r) (ip_dst (dg_header d)) (mx, n)"
    by (rule match_loop_table [OF assms(1)])
  have mx: "mx \<noteq> - 1" using m(2) best_route_covers [OF assms(2)] by (auto simp: match_result_def split: if_splits)
  then have "best_route (rt_routing_table r) (ip_dst (dg_header d)) (unat n)" using m(2) by (simp add: match_result_def)
  from best_route_unique [OF this assms(2)] have "unat n = i" .
  with mx m(1) show ?thesis
    unfolding Router_route_one_datagram_def Let_def m(1) bindE_simps split ttl_dropped
    by (cases "next_hop (rt_routing_table r ! i)") (simp_all add: route_hop_def)
qed

text \<open>
  C29. Forwarding is longest prefix match. For every table with prefix lengths up to 32, a
  datagram that no entry covers is dropped. Otherwise exactly one entry is best: it covers
  the destination, no covering entry is longer, and of those with the same length it comes
  first; the datagram goes to its interface and next hop, or to the destination itself if it
  has no next hop, unless the time to live is at most one, in which case it is dropped.
\<close>

theorem longest_prefix_match:
  assumes "table_ok (rt_routing_table r)"
  shows "(\<exists>e \<in> set (rt_routing_table r). covers_dst e (ip_dst (dg_header d)))
        = (\<exists>i. best_route (rt_routing_table r) (ip_dst (dg_header d)) i)
    \<and> (\<forall>i j. best_route (rt_routing_table r) (ip_dst (dg_header d)) i \<and> best_route (rt_routing_table r) (ip_dst (dg_header d)) j
        \<longrightarrow> i = j)
    \<and> ((\<nexists>i. best_route (rt_routing_table r) (ip_dst (dg_header d)) i) \<longrightarrow> Router_route_one_datagram past_end d r = Inr r)
    \<and> (\<forall>i. best_route (rt_routing_table r) (ip_dst (dg_header d)) i \<longrightarrow> Router_route_one_datagram past_end d r =
        (if unat (ip_ttl (dg_header d)) \<le> 1 then Inr r
         else Router_send past_end d
           (case next_hop (rt_routing_table r ! i) of Some hop \<Rightarrow> hop | None \<Rightarrow> ip_dst (dg_header d))
           (interface_num (rt_routing_table r ! i)) r))"
proof (intro conjI)
  show "(\<exists>e \<in> set (rt_routing_table r). covers_dst e (ip_dst (dg_header d)))
      = (\<exists>i. best_route (rt_routing_table r) (ip_dst (dg_header d)) i)"
    using best_route_exists [OF assms] best_route_covers by blast
  then show "(\<nexists>i. best_route (rt_routing_table r) (ip_dst (dg_header d)) i) \<longrightarrow> Router_route_one_datagram past_end d r = Inr r"
    using route_one_none [OF assms] by blast
qed (use route_one_best [OF assms] best_route_unique in \<open>auto simp: route_hop_def\<close>)

theorem longest_prefix_match_witness:
  "Router_route_one_datagram (\<lambda>n. 0) \<lparr>dg_header = IPv4Header_new\<lparr>ip_dst := 0x0A000105, ip_ttl := 1\<rparr>, dg_payload = []\<rparr>
      (Router_add_route 0x0A000100 24 None 0 (Router_add_route 0x0A000000 8 (Some 7) 0 Router_new))
    = Inr (Router_add_route 0x0A000100 24 None 0 (Router_add_route 0x0A000000 8 (Some 7) 0 Router_new))"
proof -
  let ?r = "Router_add_route 0x0A000100 24 None 0 (Router_add_route 0x0A000000 8 (Some 7) 0 Router_new)"
  let ?d = "\<lparr>dg_header = IPv4Header_new\<lparr>ip_dst := 0x0A000105, ip_ttl := 1\<rparr>, dg_payload = []\<rparr>"
  have "table_ok (rt_routing_table ?r)" by (simp add: table_ok_def Router_add_route_def Router_new_def plen_def)
  from longest_prefix_match [OF this, of ?d "\<lambda>n. 0"] show ?thesis
    by (cases "\<exists>i. best_route (rt_routing_table ?r) (ip_dst (dg_header ?d)) i") auto
qed

section \<open>No datagram is lost in the router\<close>

definition held :: "NetworkInterface \<Rightarrow> bytes multiset" where
  "held n = on_wire n + waiting n"

definition total_held :: "Router \<Rightarrow> bytes multiset" where
  "total_held r = sum_list (map (held \<circ> an_interface) (rt_interfaces r))"

definition received_all :: "Router \<Rightarrow> IPv4Datagram list" where
  "received_all r = concat (map an_datagrams_out (rt_interfaces r))"

definition forwarded :: "Router \<Rightarrow> IPv4Datagram \<Rightarrow> bool" where
  "forwarded r d \<longleftrightarrow> (\<exists>e \<in> set (rt_routing_table r). covers_dst e (ip_dst (dg_header d))) \<and> 1 < unat (ip_ttl (dg_header d))"

definition router_ok :: "Router \<Rightarrow> bool" where
  "router_ok r \<longleftrightarrow> table_ok (rt_routing_table r)
     \<and> (\<forall>e \<in> set (rt_routing_table r). unat (interface_num e) < length (rt_interfaces r))
     \<and> (\<forall>a \<in> set (rt_interfaces r). unsent_ok (an_interface a) \<and> (\<forall>d \<in> set (an_datagrams_out a). dg_ok d))"

lemma sum_list_upd:
  assumes "i < length xs"
  shows "sum_list (xs[i := x]) + xs ! i = sum_list xs + (x :: 'a :: comm_monoid_add)"
  using assms
proof (induction xs arbitrary: i)
  case (Cons y ys)
  then show ?case by (cases i) (simp_all add: add.assoc add.left_commute add.commute)
qed simp

lemma total_held_upd:
  assumes "i < length (rt_interfaces r)" and "held (an_interface a) = held (an_interface (rt_interfaces r ! i)) + m"
  shows "total_held (r\<lparr>rt_interfaces := (rt_interfaces r)[i := a]\<rparr>) = total_held r + m"
proof -
  let ?h = "map (held \<circ> an_interface) (rt_interfaces r)"
  have "sum_list (?h[i := held (an_interface a)]) + ?h ! i = sum_list ?h + held (an_interface a)"
    using assms(1) by (intro sum_list_upd) simp
  then have "sum_list (?h[i := held (an_interface a)]) + ?h ! i = (sum_list ?h + m) + ?h ! i"
    using assms by (simp add: add.assoc add.left_commute add.commute)
  then have "sum_list (?h[i := held (an_interface a)]) = sum_list ?h + m" by (simp only: add_right_cancel)
  then show ?thesis by (simp add: total_held_def map_update)
qed

lemma router_ok_upd:
  assumes "router_ok r" and "unsent_ok (an_interface a)" and "\<forall>d \<in> set (an_datagrams_out a). dg_ok d"
  shows "router_ok (r\<lparr>rt_interfaces := (rt_interfaces r)[i := a]\<rparr>)"
  using assms set_update_subset_insert [of "rt_interfaces r" i a] by (auto simp: router_ok_def)

lemma Router_send_ledger:
  assumes ok: "router_ok r" and N: "unat N < length (rt_interfaces r)" and d: "dg_ok d"
  shows "\<exists>r'. Router_send past_end d hop N r = Inr r' \<and> router_ok r' \<and> total_held r' = total_held r + {#dg_bytes d#}"
proof -
  let ?a = "rt_interfaces r ! unat N"
  have a: "unsent_ok (an_interface ?a)" "\<forall>d \<in> set (an_datagrams_out ?a). dg_ok d"
    using ok N by (auto simp: router_ok_def)
  obtain n where n: "NetworkInterface_send_datagram (past_end (an_interface ?a)) d hop (an_interface ?a) = Inr n" "unsent_ok n"
      "on_wire n + waiting n = on_wire (an_interface ?a) + waiting (an_interface ?a) + {#dg_bytes d#}"
    using send_ledger [OF a(1) d] by blast
  let ?r = "r\<lparr>rt_interfaces := (rt_interfaces r)[unat N := ?a\<lparr>an_interface := n\<rparr>]\<rparr>"
  have "Router_send past_end d hop N r = Inr ?r" using N n(1) by (simp add: Router_send_def Router_interface_def)
  moreover have "router_ok ?r" using n(2) a(2) by (intro router_ok_upd [OF ok]) simp_all
  moreover have "total_held ?r = total_held r + {#dg_bytes d#}"
    using N n(3) by (intro total_held_upd) (simp_all add: held_def)
  ultimately show ?thesis by blast
qed

lemma route_one_ledger:
  assumes ok: "router_ok r" and d: "dg_ok d"
  shows "\<exists>r'. Router_route_one_datagram past_end d r = Inr r' \<and> router_ok r'
    \<and> total_held r' = total_held r + (if forwarded r d then {#dg_bytes d#} else {#})"
proof (cases "\<exists>i. best_route (rt_routing_table r) (ip_dst (dg_header d)) i")
  case True
  then obtain i where i: "best_route (rt_routing_table r) (ip_dst (dg_header d)) i" by blast
  have t: "table_ok (rt_routing_table r)" using ok by (simp add: router_ok_def)
  have N: "unat (interface_num (rt_routing_table r ! i)) < length (rt_interfaces r)"
    using ok i by (auto simp: router_ok_def best_route_def)
  have "forwarded r d \<longleftrightarrow> \<not> unat (ip_ttl (dg_header d)) \<le> 1"
    using best_route_covers [OF i] by (auto simp: forwarded_def)
  then show ?thesis using route_one_best [OF t i] Router_send_ledger [OF ok N d] ok by auto
next
  case False
  have t: "table_ok (rt_routing_table r)" using ok by (simp add: router_ok_def)
  then have "\<forall>e \<in> set (rt_routing_table r). \<not> covers_dst e (ip_dst (dg_header d))"
    using False best_route_exists by blast
  then show ?thesis using route_one_none [OF t] ok by (auto simp: forwarded_def)
qed

lemma pop_received_ok:
  assumes "router_ok r" and "i < length (rt_interfaces r)"
  shows "router_ok (pop_received i r)" and "total_held (pop_received i r) = total_held r"
proof -
  let ?a = "rt_interfaces r ! i"
  have "?a \<in> set (rt_interfaces r)" using assms(2) by simp
  then have "unsent_ok (an_interface ?a)" "\<forall>d \<in> set (an_datagrams_out ?a). dg_ok d"
    using assms(1) by (auto simp: router_ok_def)
  moreover from this(2) have "\<forall>d \<in> set (tl (an_datagrams_out ?a)). dg_ok d" by (cases "an_datagrams_out ?a") simp_all
  ultimately show "router_ok (pop_received i r)"
    unfolding pop_received_def by (intro router_ok_upd [OF assms(1)]) simp_all
  show "total_held (pop_received i r) = total_held r"
    using total_held_upd [OF assms(2), of "?a\<lparr>an_datagrams_out := tl (an_datagrams_out ?a)\<rparr>" "{#}"]
    by (simp add: pop_received_def)
qed

text \<open>The effect of one step of the loops on everything that matters.\<close>

definition routed :: "Router \<Rightarrow> IPv4Datagram list \<Rightarrow> Router \<Rightarrow> bool" where
  "routed r ds r' \<longleftrightarrow> router_ok r' \<and> rt_routing_table r' = rt_routing_table r
     \<and> length (rt_interfaces r') = length (rt_interfaces r)
     \<and> total_held r' = total_held r + mset (map dg_bytes (filter (forwarded r) ds))"

lemma routed_trans:
  assumes "routed r ds r1" and "routed r1 es r2"
  shows "routed r (ds @ es) r2"
proof -
  have "forwarded r1 = forwarded r" using assms(1) by (simp add: routed_def forwarded_def fun_eq_iff)
  then show ?thesis using assms by (simp add: routed_def add.assoc)
qed

lemma route_queue_ok:
  assumes "router_ok r" and "i < length (rt_interfaces r)"
  shows "\<exists>r'. route_queue past_end i r = Inr r' \<and> routed r (received_by i r) r'
    \<and> (\<forall>j. received_by j r' = (if j = i then [] else received_by j r))"
  using assms
proof (induction past_end i r rule: route_queue.induct)
  case (1 past_end i r)
  show ?case
  proof (cases "received_by i r")
    case Nil
    then show ?thesis using 1 by (subst route_queue.simps) (auto simp: routed_def)
  next
    case (Cons d ds)
    have "d \<in> set (an_datagrams_out (rt_interfaces r ! i))" using Cons 1(3) by (simp add: received_by_def)
    then have "dg_ok d" using 1(2,3) by (auto simp: router_ok_def)
    from route_one_ledger [OF 1(2) this] obtain r1 where r1: "Router_route_one_datagram past_end d r = Inr r1" "router_ok r1"
        "total_held r1 = total_held r + (if forwarded r d then {#dg_bytes d#} else {#})" by blast
    note q = route_one_queues [OF r1(1)]
    have len: "length (rt_interfaces r1) = length (rt_interfaces r)" using q(1) by (metis length_map)
    let ?p = "pop_received i r1"
    have p: "router_ok ?p" "total_held ?p = total_held r1" using pop_received_ok [OF r1(2)] len 1(3) by auto
    have by_p: "received_by j ?p = (if j = i then ds else received_by j r)" for j
      using received_by_map [OF q(1)] Cons by (simp add: received_by_pop)
    have step: "routed r [d] ?p" using p r1 q(2) len by (simp add: routed_def) (simp add: pop_received_def)
    obtain r' where "route_queue past_end i ?p = Inr r'" "routed ?p ds r'"
        "\<forall>j. received_by j r' = (if j = i then [] else received_by j ?p)"
      using 1(1) [OF Cons r1(1) p(1)] by_p [of i] len 1(3) by (auto simp: pop_received_def)
    then show ?thesis using routed_trans [OF step] Cons r1(1) by_p by (subst route_queue.simps) auto
  qed
qed

lemma route_interfaces_ok:
  assumes "router_ok r" and "set is \<subseteq> {..<length (rt_interfaces r)}" and "distinct is"
  shows "\<exists>r'. route_interfaces past_end is r = Inr r' \<and> routed r (concat (map (\<lambda>i. received_by i r) is)) r'
    \<and> (\<forall>j. received_by j r' = (if j \<in> set is then [] else received_by j r))"
  using assms
proof (induction "is" arbitrary: r)
  case Nil
  then show ?case by (simp add: routed_def)
next
  case (Cons i "is")
  obtain r1 where r1: "route_queue past_end i r = Inr r1" "routed r (received_by i r) r1"
      "\<forall>j. received_by j r1 = (if j = i then [] else received_by j r)"
    using route_queue_ok [OF Cons.prems(1), of i past_end] Cons.prems(2) by auto
  have ok: "router_ok r1" "set is \<subseteq> {..<length (rt_interfaces r1)}" using r1(2) Cons.prems(2) by (auto simp: routed_def)
  have same: "map (\<lambda>j. received_by j r1) is = map (\<lambda>j. received_by j r) is" using r1(3) Cons.prems(3) by auto
  have "distinct is" using Cons.prems(3) by simp
  from Cons.IH [OF ok this, unfolded same]
  obtain r2 where r2: "route_interfaces past_end is r1 = Inr r2" "routed r1 (concat (map (\<lambda>j. received_by j r) is)) r2"
      "\<forall>j. received_by j r2 = (if j \<in> set is then [] else received_by j r1)"
    by blast
  have "routed r (concat (map (\<lambda>j. received_by j r) (i # is))) r2" using routed_trans [OF r1(2) r2(2)] by simp
  moreover have "\<forall>j. received_by j r2 = (if j \<in> set (i # is) then [] else received_by j r)" using r1(3) r2(3) by simp
  ultimately show ?case using r1(1) r2(1) by auto
qed


text \<open>Two interfaces, a route between them, and a datagram received by the first.\<close>

definition example_datagram :: IPv4Datagram where
  "example_datagram = \<lparr>dg_header = IPv4Header_new\<lparr>ip_len := 23, ip_dst := 0x0A000105\<rparr>, dg_payload = [1, 2, 3]\<rparr>"

definition example_router :: Router where
  "example_router = \<lparr>rt_routing_table = [\<lparr>route_prefix = 0x0A000000, prefix_length = 8, next_hop = None, interface_num = 1\<rparr>],
     rt_interfaces = [\<lparr>an_interface = NetworkInterface_new [1, 2, 3, 4, 5, 6] 9, an_datagrams_out = [example_datagram]\<rparr>,
       AsyncNetworkInterface_new (NetworkInterface_new [1, 2, 3, 4, 5, 7] 10)]\<rparr>"

lemma example_datagram_ok: "dg_ok example_datagram"
  by (simp add: example_datagram_def dg_ok_def ip_wf_def IPv4Header_new_def)

lemma example_router_ok: "router_ok example_router"
  using example_datagram_ok
  by (simp add: router_ok_def example_router_def table_ok_def plen_def AsyncNetworkInterface_new_def unsent_ok_def
      NetworkInterface_new_def)


text \<open>The time to live is checked but not decreased: the frame carries the datagram as it came.\<close>

theorem ttl_not_decremented:
  "\<exists>r'. Router_route_one_datagram past_end example_datagram example_router = Inr r'
    \<and> dg_bytes example_datagram \<in># total_held r'"
proof -
  have "prefix_matches \<lparr>route_prefix = 0x0A000000, prefix_length = 8, next_hop = None, interface_num = 1\<rparr> 0x0A000105 = Inr True"
    by code_simp
  then have "covers_dst \<lparr>route_prefix = 0x0A000000, prefix_length = 8, next_hop = None, interface_num = 1\<rparr> 0x0A000105"
    by (subst (asm) prefix_matches_eq) (simp_all add: plen_def)
  then have "forwarded example_router example_datagram"
    by (simp add: forwarded_def example_router_def example_datagram_def IPv4Header_new_def DEFAULT_TTL_def)
  then show ?thesis
    using route_one_ledger [OF example_router_ok example_datagram_ok, of past_end] by auto
qed

end
