(* ===== verification/Strings.thy ===== *)
theory Strings
  imports Prelude
begin

text \<open>
  Numbers as text, as the sources print and read them: \<^verbatim>\<open>std::to_string\<close> and the stream
  operators in decimal and hexadecimal, padding with \<^verbatim>\<open>setw\<close> and \<^verbatim>\<open>setfill\<close>, and \<^verbatim>\<open>std::stoi\<close>.
\<close>

section \<open>Printing\<close>

fun digits :: "nat \<Rightarrow> nat \<Rightarrow> nat list" where
  "digits b n = (if b < 2 \<or> n < b then [n] else digits b (n div b) @ [n mod b])"

declare digits.simps [simp del]

definition digit_char :: "nat \<Rightarrow> char" where
  "digit_char d = (if d < 10 then char_of (48 + d) else char_of (87 + d))"

definition dec :: "nat \<Rightarrow> string" where
  "dec n = map digit_char (digits 10 n)"

definition hex :: "nat \<Rightarrow> string" where
  "hex n = map digit_char (digits 16 n)"

text \<open>\<open>setw(w)\<close> with \<open>setfill('0')\<close>, and \<open>boolalpha\<close>.\<close>

definition pad :: "nat \<Rightarrow> string \<Rightarrow> string" where
  "pad w s = replicate (w - length s) (CHR ''0'') @ s"

definition boolalpha :: "bool \<Rightarrow> string" where
  "boolalpha b = (if b then ''true'' else ''false'')"

section \<open>Reading\<close>

definition isspace :: "char \<Rightarrow> bool" where
  "isspace c \<longleftrightarrow> of_char c = (32 :: nat) \<or> (9 \<le> (of_char c :: nat) \<and> of_char c \<le> (13 :: nat))"

definition isdigit :: "char \<Rightarrow> bool" where
  "isdigit c \<longleftrightarrow> 48 \<le> (of_char c :: nat) \<and> of_char c \<le> (57 :: nat)"

definition digits_value :: "nat \<Rightarrow> nat list \<Rightarrow> nat" where
  "digits_value b ds = fold (\<lambda>d acc. b * acc + d) ds 0"

definition stoi :: "string \<Rightarrow> int result" where
  "stoi str =
     (let s = dropWhile isspace str;
          negative = (s \<noteq> [] \<and> hd s = CHR ''-'');
          s = (if s \<noteq> [] \<and> hd s \<in> {CHR ''-'', CHR ''+''} then tl s else s);
          ds = takeWhile isdigit s;
          v = int (digits_value 10 (map (\<lambda>c. of_char c - 48) ds));
          v = (if negative then - v else v)
      in if ds = [] then Inl (InvalidArgument ''stoi'')
         else if v < - (2 ^ 31) \<or> 2 ^ 31 \<le> v then Inl (OutOfRange ''stoi'') else Inr v)"

section \<open>What is printed can be read back\<close>

lemma digits_less: "2 \<le> b \<Longrightarrow> \<forall>d \<in> set (digits b n). d < b"
proof (induction b n rule: digits.induct)
  case (1 b n)
  show ?case by (subst digits.simps) (use 1 in auto)
qed

lemma digits_nonempty [simp]: "digits b n \<noteq> []"
  by (subst digits.simps) simp

lemma digits_value_snoc: "digits_value b (ds @ [d]) = b * digits_value b ds + d"
  by (simp add: digits_value_def)

lemma digits_value_digits: "2 \<le> b \<Longrightarrow> digits_value b (digits b n) = n"
proof (induction b n rule: digits.induct)
  case (1 b n)
  show ?case
  proof (cases "n < b")
    case True
    then show ?thesis by (subst digits.simps) (simp add: digits_value_def)
  next
    case False
    then have "digits b n = digits b (n div b) @ [n mod b]" using 1(2) by (subst digits.simps) simp
    then show ?thesis using 1 False by (simp add: digits_value_snoc)
  qed
qed

lemma of_digit_char: "d < 16 \<Longrightarrow> of_char (digit_char d) = (if d < 10 then 48 + d else 87 + d)"
  by (simp add: digit_char_def take_bit_nat_eq_self)

lemma digit_char_inverse: "d < 16 \<Longrightarrow> d' < 16 \<Longrightarrow> digit_char d = digit_char d' \<longleftrightarrow> d = d'"
proof
  assume d: "d < 16" "d' < 16" and "digit_char d = digit_char d'"
  then have "(of_char (digit_char d) :: nat) = of_char (digit_char d')" by simp
  then show "d = d'" unfolding of_digit_char [OF d(1)] of_digit_char [OF d(2)] using d by (simp split: if_splits)
qed simp

lemma digits_inj:
  assumes "2 \<le> b"
  shows "digits b m = digits b n \<longleftrightarrow> m = n"
proof
  assume "digits b m = digits b n"
  then have "digits_value b (digits b m) = digits_value b (digits b n)" by (rule arg_cong)
  then show "m = n" unfolding digits_value_digits [OF assms] .
qed simp

lemma map_digit_char_inj:
  assumes "\<forall>d \<in> set xs. d < 16" and "\<forall>d \<in> set ys. d < 16" and "map digit_char xs = map digit_char ys"
  shows "xs = ys"
proof (rule map_inj_on [OF assms(3)])
  show "inj_on digit_char (set xs \<union> set ys)"
    using assms(1,2) by (intro inj_onI) (meson UnE digit_char_inverse)
qed

lemma dec_inj [simp]: "dec m = dec n \<longleftrightarrow> m = n"
proof
  assume "dec m = dec n"
  then have "digits 10 m = digits 10 n"
    unfolding dec_def by (rule map_digit_char_inj [rotated 2]) (use digits_less [of 10] in fastforce)+
  then show "m = n" by (simp add: digits_inj)
qed simp

lemma hex_inj [simp]: "hex m = hex n \<longleftrightarrow> m = n"
proof
  assume "hex m = hex n"
  then have "digits 16 m = digits 16 n"
    unfolding hex_def by (rule map_digit_char_inj [rotated 2]) (use digits_less [of 16] in fastforce)+
  then show "m = n" by (simp add: digits_inj)
qed simp

lemma decimal_char:
  assumes "d < 10"
  shows "isdigit (digit_char d)" "of_char (digit_char d) - 48 = d" "\<not> isspace (digit_char d)"
    "digit_char d \<noteq> CHR ''-''" "digit_char d \<noteq> CHR ''+''"
  using assms of_digit_char [of d] by (auto simp: isdigit_def isspace_def)

lemma dec_value: "digits_value 10 (map (\<lambda>c. of_char c - 48) (dec n)) = n"
proof -
  have "\<forall>d \<in> set (digits 10 n). d < 10" by (rule digits_less) simp
  then have "map (\<lambda>c. of_char c - 48) (dec n) = digits 10 n"
    using decimal_char(2) by (auto simp: dec_def intro!: map_idI)
  then show ?thesis by (simp add: digits_value_digits)
qed

lemma stoi_dec:
  assumes "n < 2 ^ 31"
  shows "stoi (dec n) = Inr (int n)"
proof -
  obtain d ds where n: "digits 10 n = d # ds" by (cases "digits 10 n") auto
  have small: "\<forall>d \<in> set (digits 10 n). d < 10" by (rule digits_less) simp
  then have first: "\<not> isspace (digit_char d)" "digit_char d \<noteq> CHR ''-''" "digit_char d \<noteq> CHR ''+''"
    using decimal_char [of d] by (auto simp: n)
  have all: "takeWhile isdigit (dec n) = dec n"
    using small decimal_char(1) by (auto simp: dec_def takeWhile_eq_all_conv)
  have "dropWhile isspace (dec n) = dec n" "hd (dec n) = digit_char d" "dec n \<noteq> []"
    using first by (simp_all add: dec_def n)
  then show ?thesis
    using first assms dec_value [of n] by (simp add: stoi_def Let_def all)
qed

end
