(* ===== verification/Address.thy ===== *)
theory Address
  imports Strings Net_Parser
begin

text \<open>
  Network addresses: \<^verbatim>\<open>src/libsponge/util/address.hh\<close> and \<^verbatim>\<open>.cc\<close>. An address is a size
  and the bytes of a \<^verbatim>\<open>sockaddr_storage\<close>. The resolver of the C library (\<^verbatim>\<open>getaddrinfo\<close>,
  \<^verbatim>\<open>getnameinfo\<close>, \<^verbatim>\<open>inet_ntoa\<close>) is a parameter; \<open>resolver_ok\<close> states that it prints and
  reads numeric IPv4 addresses and ports consistently. Integers in host order are
  little-endian.
\<close>

section \<open>The resolver\<close>

record Resolver =
  getaddrinfo :: "string \<Rightarrow> string \<Rightarrow> int \<Rightarrow> int \<Rightarrow> int \<times> (bytes \<times> u32) option"
  getnameinfo :: "bytes \<Rightarrow> u32 \<Rightarrow> int \<Rightarrow> int \<times> string \<times> string"
  inet_ntoa :: "u32 \<Rightarrow> string"

definition AF_INET :: int where "AF_INET = 2"

definition AI_NUMERICHOST :: int where "AI_NUMERICHOST = 4"

definition AI_ALL :: int where "AI_ALL = 16"

definition AI_NUMERICSERV :: int where "AI_NUMERICSERV = 1024"

definition NI_NUMERIC :: int where "NI_NUMERIC = 3"

section \<open>Addresses\<close>

record Address =
  ad_size :: u32
  ad_storage :: bytes

definition SOCKADDR_STORAGE_SIZE :: size_t where "SOCKADDR_STORAGE_SIZE = 128"

definition SOCKADDR_IN_SIZE :: u32 where "SOCKADDR_IN_SIZE = 16"

definition Address_of_sockaddr :: "bytes \<Rightarrow> size_t \<Rightarrow> Address result" where
  "Address_of_sockaddr addr n =
     (if n > SOCKADDR_STORAGE_SIZE then Inl (RuntimeError ''invalid sockaddr size'')
      else Inr \<lparr>ad_size = ucast n, ad_storage = take (unat n) addr @ replicate (128 - unat n) 0\<rparr>)"

definition Address_resolve :: "Resolver \<Rightarrow> string \<Rightarrow> string \<Rightarrow> int \<Rightarrow> int \<Rightarrow> Address result" where
  "Address_resolve R node service ai_flags ai_family =
     (let (gai_ret, resolved_address) = getaddrinfo R node service ai_flags ai_family
      in if gai_ret \<noteq> 0 then Inl (RuntimeError (''getaddrinfo('' @ node @ '', '' @ service @ '')''))
         else case resolved_address of
             None \<Rightarrow> Inl (RuntimeError ''getaddrinfo returned successfully but with no results'')
           | Some (ai_addr, ai_addrlen) \<Rightarrow> Address_of_sockaddr ai_addr (ucast ai_addrlen))"

definition Address_of_host :: "Resolver \<Rightarrow> string \<Rightarrow> string \<Rightarrow> Address result" where
  "Address_of_host R hostname service = Address_resolve R hostname service AI_ALL AF_INET"

definition Address_of_ip :: "Resolver \<Rightarrow> string \<Rightarrow> u16 \<Rightarrow> Address result" where
  "Address_of_ip R ip port =
     Address_resolve R ip (dec (unat port)) (AI_NUMERICHOST + AI_NUMERICSERV) AF_INET"

definition Address_ip_port :: "Resolver \<Rightarrow> Address \<Rightarrow> (string \<times> u16) result" where
  "Address_ip_port R a =
     (let (gni_ret, ip, port) = getnameinfo R (ad_storage a) (ad_size a) NI_NUMERIC
      in if gni_ret \<noteq> 0 then Inl (RuntimeError ''getnameinfo'')
         else bindE (stoi port) (\<lambda>p. Inr (ip, word_of_int p)))"

definition Address_ip :: "Resolver \<Rightarrow> Address \<Rightarrow> string result" where
  "Address_ip R a = bindE (Address_ip_port R a) (\<lambda>(ip, port). Inr ip)"

definition Address_port :: "Resolver \<Rightarrow> Address \<Rightarrow> u16 result" where
  "Address_port R a = bindE (Address_ip_port R a) (\<lambda>(ip, port). Inr port)"

definition Address_to_string :: "Resolver \<Rightarrow> Address \<Rightarrow> string result" where
  "Address_to_string R a = bindE (Address_ip_port R a) (\<lambda>(ip, port). Inr (ip @ '':'' @ dec (unat port)))"

text \<open>
  The fields of a \<^verbatim>\<open>sockaddr_in\<close>: the family in host order, the port and the address in
  network order, eight bytes of zero.
\<close>

definition ss_family :: "Address \<Rightarrow> int" where
  "ss_family a = uint (ad_storage a ! 0) + 256 * uint (ad_storage a ! 1)"

definition Address_ipv4_numeric :: "Address \<Rightarrow> u32 result" where
  "Address_ipv4_numeric a =
     (if ss_family a \<noteq> AF_INET \<or> ad_size a \<noteq> SOCKADDR_IN_SIZE
      then Inl (RuntimeError ''ipv4_numeric called on non-IPV4 address'')
      else Inr (word_of_nat (be_nat (take 4 (drop 4 (ad_storage a))))))"

definition sockaddr_in :: "u32 \<Rightarrow> u16 \<Rightarrow> bytes" where
  "sockaddr_in s_addr port = [2, 0] @ be_bytes 2 (unat port) @ be_bytes 4 (unat s_addr) @ replicate 8 0"

definition Address_from_ipv4_numeric :: "u32 \<Rightarrow> Address result" where
  "Address_from_ipv4_numeric ip_address = Address_of_sockaddr (sockaddr_in ip_address 0) (ucast SOCKADDR_IN_SIZE)"

definition Address_eq :: "Address \<Rightarrow> Address \<Rightarrow> bool" where
  "Address_eq a b =
     (if ad_size a \<noteq> ad_size b then False
      else take (unat (ad_size a)) (ad_storage a) = take (unat (ad_size a)) (ad_storage b))"

section \<open>IPv4 addresses\<close>

text \<open>The address of a host and port, and the numeric resolver that reads and prints it.\<close>

definition ipv4_address :: "u32 \<Rightarrow> u16 \<Rightarrow> Address" where
  "ipv4_address ip port = \<lparr>ad_size = SOCKADDR_IN_SIZE, ad_storage = sockaddr_in ip port @ replicate 112 0\<rparr>"

definition resolver_ok :: "Resolver \<Rightarrow> bool" where
  "resolver_ok R \<longleftrightarrow>
     (\<forall>ip (port :: u16). getaddrinfo R (inet_ntoa R ip) (dec (unat port)) (AI_NUMERICHOST + AI_NUMERICSERV) AF_INET
          = (0, Some (sockaddr_in ip port, SOCKADDR_IN_SIZE))
        \<and> getnameinfo R (ad_storage (ipv4_address ip port)) SOCKADDR_IN_SIZE NI_NUMERIC
          = (0, inet_ntoa R ip, dec (unat port)))"

lemma length_sockaddr_in [simp]: "length (sockaddr_in ip port) = 16"
  by (simp add: sockaddr_in_def)

lemma of_sockaddr_in: "Address_of_sockaddr (sockaddr_in ip port) (ucast SOCKADDR_IN_SIZE) = Inr (ipv4_address ip port)"
  by (simp add: Address_of_sockaddr_def SOCKADDR_STORAGE_SIZE_def SOCKADDR_IN_SIZE_def ipv4_address_def)

lemma from_ipv4_numeric_eq: "Address_from_ipv4_numeric ip = Inr (ipv4_address ip 0)"
  by (simp add: Address_from_ipv4_numeric_def of_sockaddr_in)

lemma sockaddr_in_fields:
  "be_nat (take 2 (drop 2 (ad_storage (ipv4_address ip port)))) = unat port"
  "be_nat (take 4 (drop 4 (ad_storage (ipv4_address ip port)))) = unat ip"
proof -
  have "take 2 (drop 2 (sockaddr_in ip port @ replicate 112 0)) = be_bytes 2 (unat port)"
    "take 4 (drop 4 (sockaddr_in ip port @ replicate 112 0)) = be_bytes 4 (unat ip)"
    by (simp_all add: sockaddr_in_def del: be_bytes.simps)
  then show "be_nat (take 2 (drop 2 (ad_storage (ipv4_address ip port)))) = unat port"
    "be_nat (take 4 (drop 4 (ad_storage (ipv4_address ip port)))) = unat ip"
    using unsigned_less [of ip, where 'a = nat] unsigned_less [of port, where 'a = nat]
    by (simp_all add: ipv4_address_def be_nat_be_bytes del: drop_append)
qed

lemma ipv4_numeric_eq [simp]: "Address_ipv4_numeric (ipv4_address ip port) = Inr ip"
proof -
  have "ss_family (ipv4_address ip port) = AF_INET"
    by (simp add: ss_family_def ipv4_address_def sockaddr_in_def AF_INET_def)
  then show ?thesis
    using sockaddr_in_fields(2) [of ip port] by (simp add: Address_ipv4_numeric_def) (simp add: ipv4_address_def)
qed

lemma of_ip_eq: "resolver_ok R \<Longrightarrow> Address_of_ip R (inet_ntoa R ip) port = Inr (ipv4_address ip port)"
  unfolding Address_of_ip_def Address_resolve_def resolver_ok_def
  by (simp add: of_sockaddr_in)

lemma ip_port_eq: "resolver_ok R \<Longrightarrow> Address_ip_port R (ipv4_address ip port) = Inr (inet_ntoa R ip, port)"
proof -
  assume R: "resolver_ok R"
  have "unat port < 2 ^ 31" using unsigned_less [of port, where 'a = nat] by simp
  with R show ?thesis
    unfolding Address_ip_port_def resolver_ok_def by (simp add: ipv4_address_def stoi_dec)
qed

lemma port_eq [simp]: "resolver_ok R \<Longrightarrow> Address_port R (ipv4_address ip port) = Inr port"
  by (simp add: Address_port_def ip_port_eq)

lemma Address_eq_iff [simp]: "Address_eq (ipv4_address ip port) (ipv4_address ip' port') \<longleftrightarrow> ip = ip' \<and> port = port'"
proof
  assume "Address_eq (ipv4_address ip port) (ipv4_address ip' port')"
  then have eq: "sockaddr_in ip port = sockaddr_in ip' port'"
    by (simp add: Address_eq_def ipv4_address_def SOCKADDR_IN_SIZE_def)
  then have "be_bytes 2 (unat port) = be_bytes 2 (unat port')" "be_bytes 4 (unat ip) = be_bytes 4 (unat ip')"
    unfolding sockaddr_in_def by (simp_all del: be_bytes.simps)
  from this [THEN arg_cong [where f = be_nat]] show "ip = ip' \<and> port = port'"
    using unsigned_less [of ip, where 'a = nat] unsigned_less [of ip', where 'a = nat]
      unsigned_less [of port, where 'a = nat] unsigned_less [of port', where 'a = nat]
    by (simp add: be_nat_be_bytes word_unat_eq_iff)
qed (simp add: Address_eq_def)

text \<open>
  Every IPv4 address and port survives the conversions: the address made from a number
  gives the number back; with a numeric resolver, the address made from a dotted quad and a
  port has that quad, that port and that number, and two such addresses are equal exactly
  when the numbers and the ports are.
\<close>

theorem address_conversions:
  assumes "resolver_ok R"
  shows "(\<exists>a. Address_from_ipv4_numeric ip = Inr a \<and> Address_ipv4_numeric a = Inr ip \<and> Address_port R a = Inr 0)
    \<and> (\<exists>a b. Address_of_ip R (inet_ntoa R ip) port = Inr a \<and> Address_of_ip R (inet_ntoa R ip') port' = Inr b
        \<and> Address_ipv4_numeric a = Inr ip \<and> Address_ip_port R a = Inr (inet_ntoa R ip, port)
        \<and> (Address_eq a b \<longleftrightarrow> ip = ip' \<and> port = port'))"
  using assms by (simp add: from_ipv4_numeric_eq of_ip_eq ip_port_eq)

text \<open>A resolver that writes the address as one decimal number.\<close>

definition decimal_resolver :: Resolver where
  "decimal_resolver = \<lparr>
     getaddrinfo = \<lambda>node service flags family.
       case (stoi service) of Inl e \<Rightarrow> (- 2, None)
       | Inr p \<Rightarrow> (0, Some (sockaddr_in (word_of_nat (digits_value 10 (map (\<lambda>c. of_char c - 48) node))) (word_of_int p), SOCKADDR_IN_SIZE)),
     getnameinfo = \<lambda>storage n flags.
       (0, dec (be_nat (take 4 (drop 4 storage))), dec (be_nat (take 2 (drop 2 storage)))),
     inet_ntoa = \<lambda>ip. dec (unat ip)\<rparr>"

lemma decimal_resolver_ok: "resolver_ok decimal_resolver"
proof -
  have "unat (port :: u16) < 2 ^ 31" for port using unsigned_less [of port, where 'a = nat] by simp
  then have "stoi (dec (unat (port :: u16))) = Inr (int (unat port))" for port by (rule stoi_dec)
  then show ?thesis
    unfolding resolver_ok_def by (simp add: decimal_resolver_def dec_value sockaddr_in_fields)
qed

theorem address_conversions_witness:
  "\<exists>a. Address_of_ip decimal_resolver (inet_ntoa decimal_resolver 0x0A000001) 80 = Inr a
    \<and> Address_ipv4_numeric a = Inr 0x0A000001
    \<and> Address_ip_port decimal_resolver a = Inr (inet_ntoa decimal_resolver 0x0A000001, 80)"
  using address_conversions [OF decimal_resolver_ok, where ip = "0x0A000001" and port = 80 and ip' = 0 and port' = 0] by auto

end
