(* ===== verification/Printing.thy ===== *)
theory Printing
  imports Address TCP_Segment ARP_Message IPv4
begin

text \<open>
  The text that headers and bytes are shown as: \<open>to_string\<close> and \<open>summary\<close> of
  \<^verbatim>\<open>src/libsponge/tcp_helpers/ethernet_header.cc\<close>, \<^verbatim>\<open>ipv4_header.cc\<close>, \<^verbatim>\<open>arp_message.cc\<close> and
  \<^verbatim>\<open>tcp_header.cc\<close>, the comparison of TCP headers, and \<open>hexdump\<close> of
  \<^verbatim>\<open>src/libsponge/util/util.cc\<close>. \<open>inet_ntoa\<close> belongs to the resolver that is a parameter of
  \<^verbatim>\<open>Address\<close>. The theory shows that different Ethernet
  addresses are shown differently, headers that compare equal are shown with the same flags
  and numbers, and what a dump leaves behind in the stream it is printed to.
\<close>

section \<open>Headers\<close>

abbreviation newline :: string where
  "newline \<equiv> [CHR 0x0A]"

definition EthernetAddress_to_string :: "EthernetAddress \<Rightarrow> string" where
  "EthernetAddress_to_string address =
     (let byte = (\<lambda>b. pad 2 (hex (unat b)))
      in concat (map (\<lambda>b. byte b @ '':'') (butlast address)) @ concat (map byte (drop (length address - 1) address)))"

definition EthernetHeader_to_string :: "EthernetHeader \<Rightarrow> string" where
  "EthernetHeader_to_string h = ''dst='' @ EthernetAddress_to_string (eh_dst h)
     @ '', src='' @ EthernetAddress_to_string (eh_src h) @ '', type=''
     @ (if eh_type h = TYPE_IPv4 then ''IPv4'' else if eh_type h = TYPE_ARP then ''ARP''
        else ''[unknown type '' @ hex (unat (eh_type h)) @ ''!]'')"

definition IPv4Header_to_string :: "IPv4Header \<Rightarrow> string" where
  "IPv4Header_to_string h = ''IP version: '' @ hex (unat (ip_ver h)) @ newline
     @ ''IP hdr len: '' @ hex (unat (ip_hlen h)) @ newline
     @ ''IP tos: '' @ hex (unat (ip_tos h)) @ newline
     @ ''IP dgram len: '' @ hex (unat (ip_len h)) @ newline
     @ ''IP id: '' @ hex (unat (ip_id h)) @ newline
     @ ''Flags: df: '' @ boolalpha (ip_df h) @ '' mf: '' @ boolalpha (ip_mf h) @ newline
     @ ''Offset: '' @ hex (unat (ip_offset h)) @ newline
     @ ''TTL: '' @ hex (unat (ip_ttl h)) @ newline
     @ ''Protocol: '' @ hex (unat (ip_proto h)) @ newline
     @ ''Checksum: '' @ hex (unat (ip_cksum h)) @ newline
     @ ''Src addr: '' @ hex (unat (ip_src h)) @ newline
     @ ''Dst addr: '' @ hex (unat (ip_dst h)) @ newline"

definition IPv4Header_summary :: "Resolver \<Rightarrow> IPv4Header \<Rightarrow> string" where
  "IPv4Header_summary R h = ''IPv'' @ hex (unat (ip_ver h)) @ '', len='' @ hex (unat (ip_len h))
     @ '', protocol='' @ hex (unat (ip_proto h)) @ '', ''
     @ (if ip_ttl h \<ge> 10 then '''' else ''ttl='' @ dec (unat (ip_ttl h)) @ '', '')
     @ ''src='' @ inet_ntoa R (ip_src h) @ '', dst='' @ inet_ntoa R (ip_dst h)"

definition ARPMessage_to_string :: "Resolver \<Rightarrow> ARPMessage \<Rightarrow> string" where
  "ARPMessage_to_string R m =
     (let opcode_str = ''(unknown type)'';
          opcode_str = (if am_opcode m = OPCODE_REQUEST then ''REQUEST'' else opcode_str);
          opcode_str = (if am_opcode m = OPCODE_REPLY then ''REPLY'' else opcode_str)
      in ''opcode='' @ opcode_str @ '', sender='' @ EthernetAddress_to_string (am_sender_ethernet_address m) @ ''/''
         @ inet_ntoa R (am_sender_ip_address m) @ '', target=''
         @ EthernetAddress_to_string (am_target_ethernet_address m) @ ''/'' @ inet_ntoa R (am_target_ip_address m))"

text \<open>A wrapping integer is printed as its raw value, in the base the stream is set to.\<close>

definition TCPHeader_to_string :: "TCPHeader \<Rightarrow> string" where
  "TCPHeader_to_string h = ''TCP source port: '' @ hex (unat (th_sport h)) @ newline
     @ ''TCP dest port: '' @ hex (unat (th_dport h)) @ newline
     @ ''TCP seqno: '' @ hex (unat (raw_value (th_seqno h))) @ newline
     @ ''TCP ackno: '' @ hex (unat (raw_value (th_ackno h))) @ newline
     @ ''TCP doff: '' @ hex (unat (th_doff h)) @ newline
     @ ''Flags: urg: '' @ boolalpha (th_urg h) @ '' ack: '' @ boolalpha (th_ack h) @ '' psh: '' @ boolalpha (th_psh h)
     @ '' rst: '' @ boolalpha (th_rst h) @ '' syn: '' @ boolalpha (th_syn h) @ '' fin: '' @ boolalpha (th_fin h) @ newline
     @ ''TCP winsize: '' @ hex (unat (th_win h)) @ newline
     @ ''TCP cksum: '' @ hex (unat (th_cksum h)) @ newline
     @ ''TCP uptr: '' @ hex (unat (th_uptr h)) @ newline"

definition TCPHeader_summary :: "TCPHeader \<Rightarrow> string" where
  "TCPHeader_summary h = ''Header(flags='' @ (if th_syn h then ''S'' else '''') @ (if th_ack h then ''A'' else '''')
     @ (if th_rst h then ''R'' else '''') @ (if th_fin h then ''F'' else '''')
     @ '',seqno='' @ dec (unat (raw_value (th_seqno h))) @ '',ack='' @ dec (unat (raw_value (th_ackno h)))
     @ '',win='' @ dec (unat (th_win h)) @ '')''"

definition TCPHeader_eq :: "TCPHeader \<Rightarrow> TCPHeader \<Rightarrow> bool" where
  "TCPHeader_eq h other \<longleftrightarrow> th_seqno h = th_seqno other \<and> th_ackno h = th_ackno other \<and> th_doff h = th_doff other
     \<and> th_urg h = th_urg other \<and> th_ack h = th_ack other \<and> th_psh h = th_psh other \<and> th_rst h = th_rst other
     \<and> th_syn h = th_syn other \<and> th_fin h = th_fin other \<and> th_win h = th_win other \<and> th_uptr h = th_uptr other"

section \<open>hexdump\<close>

text \<open>
  What a stream carries besides its text: the base, which is one of its flags, and the fill
  character, which is not. The string stream \<open>pchars\<close> is filled from its start, so the
  blank it is initialised with shows only while nothing was written to it.
\<close>

record ostream =
  os_text :: string
  os_hex :: bool
  os_fill :: char

definition isprint :: "u8 \<Rightarrow> bool" where
  "isprint b \<longleftrightarrow> 32 \<le> b \<and> b < 127"

definition pchars_str :: "string \<Rightarrow> string" where
  "pchars_str written = (if written = [] then '' '' else written)"

text \<open>The loop over the bytes: \<open>printed\<close> counts them, \<open>pchars\<close> is what was written of the current line.\<close>

fun hexdump_loop :: "string \<Rightarrow> nat \<Rightarrow> string \<Rightarrow> bytes \<Rightarrow> string \<Rightarrow> nat \<times> string \<times> string" where
  "hexdump_loop indent_string printed pchars [] out = (printed, pchars, out)"
| "hexdump_loop indent_string printed pchars (b # bs) out =
     (let (pchars, out) =
            (if printed mod 16 = 0 then
               let (pchars, out) = (if printed \<noteq> 0 then ('''', out @ ''    '' @ pchars_str pchars @ newline) else (pchars, out))
               in (pchars, out @ indent_string @ pad 8 (hex printed) @ '':    '')
             else if printed mod 2 = 0 then (pchars, out @ '' '')
             else (pchars, out));
          out = out @ pad 2 (hex (unat b));
          pchars = pchars @ [if isprint b then char_of (unat b) else CHR ''.'']
      in hexdump_loop indent_string (printed + 1) pchars bs out)"

definition hexdump :: "bytes \<Rightarrow> nat \<Rightarrow> ostream \<Rightarrow> ostream" where
  "hexdump data indent cout =
     (let flags = os_hex cout;
          cout = cout\<lparr>os_hex := True, os_fill := CHR ''0''\<rparr>;
          (printed, pchars, out) = hexdump_loop (replicate indent (CHR '' '')) 0 '''' data (os_text cout);
          print_rem = (16 - printed mod 16) mod 16;
          cout = cout\<lparr>os_text := out @ replicate (2 * print_rem + print_rem div 2 + 4) (CHR '' '') @ pchars_str pchars
            @ newline @ newline\<rparr>
      in cout\<lparr>os_hex := flags\<rparr>)"

section \<open>What the text shows\<close>

lemma digits_length: "2 \<le> b \<Longrightarrow> n < b ^ k \<Longrightarrow> 0 < k \<Longrightarrow> length (digits b n) \<le> k"
proof (induction k arbitrary: n)
  case (Suc k)
  show ?case
  proof (cases "n < b")
    case True
    then show ?thesis by (subst digits.simps) simp
  next
    case False
    then have "0 < k" using Suc.prems by (cases k) auto
    moreover have "n div b < b ^ k" using Suc.prems by (simp add: less_mult_imp_div_less mult.commute)
    ultimately have "length (digits b (n div b)) \<le> k" using Suc.IH Suc.prems(1) by blast
    with False show ?thesis by (subst digits.simps) simp
  qed
qed simp

lemma pad_hex_value:
  assumes "n < 16 ^ k" and "0 < k"
  shows "\<exists>ds. pad k (hex n) = map digit_char ds \<and> length ds = k \<and> (\<forall>d \<in> set ds. d < 16) \<and> digits_value 16 ds = n"
proof -
  let ?z = "k - length (digits 16 n)"
  have "digits_value 16 (replicate m 0 @ ds) = digits_value 16 ds" for m ds
    by (induction m) (simp_all add: digits_value_def)
  moreover have "\<forall>d \<in> set (digits 16 n). d < 16" by (rule digits_less) simp
  moreover have "digit_char 0 = CHR ''0''" by code_simp
  ultimately show ?thesis
    using digits_length [OF _ assms] digits_value_digits [of 16 n]
    by (intro exI [of _ "replicate ?z 0 @ digits 16 n"]) (auto simp: pad_def hex_def map_replicate)
qed

lemma pad_hex_length: "n < 16 ^ k \<Longrightarrow> 0 < k \<Longrightarrow> length (pad k (hex n)) = k"
  using pad_hex_value by (metis length_map)

lemma pad_hex_inj:
  assumes "m < 16 ^ k" and "n < 16 ^ k" and "0 < k"
  shows "pad k (hex m) = pad k (hex n) \<longleftrightarrow> m = n"
  using pad_hex_value [OF assms(1,3)] pad_hex_value [OF assms(2,3)] map_digit_char_inj by metis

lemma byte_text:
  "length (pad 2 (hex (unat (b :: u8)))) = 2"
  "pad 2 (hex (unat (a :: u8))) = pad 2 (hex (unat b)) \<longleftrightarrow> a = b"
proof -
  have "unat x < 16 ^ 2" for x :: u8 using unsigned_less [of x, where 'a = nat] by simp
  then show "length (pad 2 (hex (unat b))) = 2" "pad 2 (hex (unat a)) = pad 2 (hex (unat b)) \<longleftrightarrow> a = b"
    using pad_hex_length [of "unat b" 2] pad_hex_inj [of "unat a" 2 "unat b"] by (auto intro: word_eq_unatI)
qed

text \<open>Ethernet addresses of the same length are shown alike only if they are the same.\<close>

lemma ethernet_text_inj:
  assumes "length a = length b"
  shows "EthernetAddress_to_string a = EthernetAddress_to_string b \<longleftrightarrow> a = b"
  using assms
proof (induction a b rule: list_induct2)
  case (Cons x xs y ys)
  have "EthernetAddress_to_string (z # zs) = pad 2 (hex (unat z)) @ (if zs = [] then [] else '':'' @ EthernetAddress_to_string zs)"
    for z zs by (cases zs) (simp_all add: EthernetAddress_to_string_def Let_def)
  moreover have "xs = [] \<longleftrightarrow> ys = []" using Cons(1) by auto
  ultimately show ?case using Cons(2) byte_text by auto
qed simp

text \<open>The comparison of TCP headers looks at everything but the ports and the checksum.\<close>

lemma tcp_header_eq_iff:
  "TCPHeader_eq h other \<longleftrightarrow>
    other = h\<lparr>th_sport := th_sport other, th_dport := th_dport other, th_cksum := th_cksum other\<rparr>"
  by (cases h; cases other) (auto simp: TCPHeader_eq_def)

lemma tcp_header_eq_summary: "TCPHeader_eq h other \<Longrightarrow> TCPHeader_summary h = TCPHeader_summary other"
  by (simp add: TCPHeader_eq_def TCPHeader_summary_def)

text \<open>
  \<open>hexdump\<close> puts the flags of the stream back but not its fill character, which is left at
  the digit zero.
\<close>

lemma hexdump_leaves_fill: "os_hex (hexdump data indent cout) = os_hex cout \<and> os_fill (hexdump data indent cout) = CHR ''0''"
  by (simp add: hexdump_def Let_def split: prod.split)

lemma hexdump_example: "os_text (hexdump [0x61, 0x00, 0x7E] 1 \<lparr>os_text = '''', os_hex = False, os_fill = CHR '' ''\<rparr>)
    = '' 00000000:    6100 7e'' @ replicate 36 (CHR '' '') @ ''a.~'' @ newline @ newline"
  by code_simp

end
