(* ===== verification/Network_Simulator.thy ===== *)
theory Network_Simulator
  imports Router Printing
begin

text \<open>
  The network of \<^verbatim>\<open>src/apps/network_simulator.cc\<close>: six hosts and a router with seven
  interfaces, joined by simulated wires, and the traffic that the program sends through it.
  What the program prints to its standard error is left out. The random generator is
  represented by the numbers it will yield, the resolver and \<open>past_end\<close> are the parameters of
  \<^verbatim>\<open>Address\<close> and \<^verbatim>\<open>Router\<close>. The theory shows what the check of a host decides and what a
  wire carries, and that the program fails at its first test.
\<close>

section \<open>Addresses\<close>

type_synonym rng = "nat \<Rightarrow> u32"

definition rd :: "rng \<Rightarrow> u32 \<times> rng" where
  "rd g = (g 0, \<lambda>i. g (Suc i))"

fun random_bytes :: "nat \<Rightarrow> rng \<Rightarrow> bytes \<times> rng" where
  "random_bytes 0 g = ([], g)"
| "random_bytes (Suc n) g = (let (x, g) = rd g; (bs, g) = random_bytes n g in (ucast x # bs, g))"

definition random_host_ethernet_address :: "rng \<Rightarrow> EthernetAddress \<times> rng" where
  "random_host_ethernet_address g =
     (let (addr, g) = random_bytes 6 g;
          addr = addr[0 := addr ! 0 OR 0x02];
          addr = addr[0 := addr ! 0 AND 0xfe]
      in (addr, g))"

definition random_router_ethernet_address :: "rng \<Rightarrow> EthernetAddress \<times> rng" where
  "random_router_ethernet_address g =
     (let (addr, g) = random_bytes 6 g in (addr[0 := 0x02, 1 := 0, 2 := 0], g))"

definition ip :: "Resolver \<Rightarrow> string \<Rightarrow> u32 result" where
  "ip R str = bindE (Address_of_ip R str 0) Address_ipv4_numeric"

definition frame_summary :: "Resolver \<Rightarrow> EthernetFrame \<Rightarrow> string" where
  "frame_summary R frame = EthernetHeader_to_string (ef_header frame)
     @ (if eh_type (ef_header frame) = TYPE_IPv4 then
          case IPv4Datagram_parse IPv4Datagram_new (ef_payload frame) of
            (NoError, dgram) \<Rightarrow> '' '' @ IPv4Header_summary R (dg_header dgram)
              @ '' payload='' @ [CHR 0x22] @ map (\<lambda>b. char_of (unat b)) (dg_payload dgram) @ [CHR 0x22]
          | _ \<Rightarrow> '' (bad IPv4)''
        else if eh_type (ef_header frame) = TYPE_ARP then
          case ARPMessage_parse ARPMessage_new (ef_payload frame) of
            (NoError, arp) \<Rightarrow> '' '' @ ARPMessage_to_string R arp
          | _ \<Rightarrow> '' (bad ARP)''
        else '''')"

section \<open>Hosts\<close>

record Host =
  h_name :: string
  h_my_address :: Address
  h_interface :: AsyncNetworkInterface
  h_next_hop :: Address
  h_expecting_to_receive :: "IPv4Datagram list"

text \<open>Serialization throws on a datagram whose length field does not fit its payload.\<close>

fun expecting :: "IPv4Datagram \<Rightarrow> IPv4Datagram list \<Rightarrow> bool result" where
  "expecting expected [] = Inr False"
| "expecting expected (x # xs) =
     bindE (IPv4Datagram_serialize x) (\<lambda>a. bindE (IPv4Datagram_serialize expected) (\<lambda>b.
       if a = b then Inr True else expecting expected xs))"

fun remove_expectation :: "IPv4Datagram \<Rightarrow> IPv4Datagram list \<Rightarrow> IPv4Datagram list result" where
  "remove_expectation expected [] = Inr []"
| "remove_expectation expected (x # xs) =
     bindE (IPv4Datagram_serialize x) (\<lambda>a. bindE (IPv4Datagram_serialize expected) (\<lambda>b.
       if a = b then Inr xs else bindE (remove_expectation expected xs) (\<lambda>xs. Inr (x # xs))))"

definition Host_new :: "string \<Rightarrow> Address \<Rightarrow> Address \<Rightarrow> rng \<Rightarrow> (Host \<times> rng) result" where
  "Host_new name my_address hop g =
     (let (addr, g) = random_host_ethernet_address g
      in bindE (Address_ipv4_numeric my_address) (\<lambda>my_ip.
           Inr (\<lparr>h_name = name, h_my_address = my_address,
             h_interface = AsyncNetworkInterface_new (NetworkInterface_new addr my_ip),
             h_next_hop = hop, h_expecting_to_receive = []\<rparr>, g)))"

definition Host_send_to ::
  "(NetworkInterface \<Rightarrow> u64) \<Rightarrow> Address \<Rightarrow> u8 \<Rightarrow> rng \<Rightarrow> Host \<Rightarrow> (IPv4Datagram \<times> Host \<times> rng) result" where
  "Host_send_to past_end destination ttl g h =
     bindE (Address_ipv4_numeric (h_my_address h)) (\<lambda>src. bindE (Address_ipv4_numeric destination) (\<lambda>dst.
       let (x, g) = rd g;
           payload = map (\<lambda>c. of_nat (of_char c)) (''random payload: {'' @ dec (unat x) @ ''}'');
           header = IPv4Header_new\<lparr>ip_src := src, ip_dst := dst\<rparr>;
           header = header\<lparr>ip_len := ucast (ip_hlen header) * 4 + of_nat (length payload), ip_ttl := ttl\<rparr>;
           dgram = \<lparr>dg_header = header, dg_payload = payload\<rparr>;
           n = an_interface (h_interface h)
       in bindE (Address_ipv4_numeric (h_next_hop h)) (\<lambda>hop.
            bindE (NetworkInterface_send_datagram (past_end n) dgram hop n) (\<lambda>n.
              Inr (dgram, h\<lparr>h_interface := (h_interface h)\<lparr>an_interface := n\<rparr>\<rparr>, g)))))"

definition Host_expect :: "IPv4Datagram \<Rightarrow> Host \<Rightarrow> Host" where
  "Host_expect expected h = h\<lparr>h_expecting_to_receive := h_expecting_to_receive h @ [expected]\<rparr>"

definition dgram_text :: "Resolver \<Rightarrow> IPv4Datagram \<Rightarrow> string" where
  "dgram_text R d = IPv4Header_summary R (dg_header d) @ '' payload='' @ [CHR 0x22]
     @ map (\<lambda>b. char_of (unat b)) (dg_payload d) @ [CHR 0x22]"

fun check_received :: "Resolver \<Rightarrow> string \<Rightarrow> IPv4Datagram list \<Rightarrow> IPv4Datagram list \<Rightarrow> IPv4Datagram list result" where
  "check_received R name [] expected = Inr expected"
| "check_received R name (d # ds) expected =
     bindE (expecting d expected) (\<lambda>b.
       if \<not> b then Inl (RuntimeError (''Host '' @ name @ '' received unexpected Internet datagram: '' @ dgram_text R d))
       else bindE (remove_expectation d expected) (check_received R name ds))"

definition Host_check :: "Resolver \<Rightarrow> Host \<Rightarrow> Host result" where
  "Host_check R h =
     bindE (check_received R (h_name h) (an_datagrams_out (h_interface h)) (h_expecting_to_receive h)) (\<lambda>expected.
       case expected of
         [] \<Rightarrow> Inr (h\<lparr>h_interface := (h_interface h)\<lparr>an_datagrams_out := []\<rparr>, h_expecting_to_receive := []\<rparr>)
       | d # ds \<Rightarrow> Inl (RuntimeError (''Host '' @ h_name h @ '' did NOT receive an expected Internet datagram: '' @ dgram_text R d)))"

section \<open>Wires\<close>

fun deliver_frames :: "EthernetFrame list \<Rightarrow> AsyncNetworkInterface \<Rightarrow> AsyncNetworkInterface result" where
  "deliver_frames [] dst = Inr dst"
| "deliver_frames (frame # to_send) dst = bindE (AsyncNetworkInterface_recv_frame frame dst) (deliver_frames to_send)"

abbreviation frames_out :: "AsyncNetworkInterface \<Rightarrow> EthernetFrame list" where
  "frames_out a \<equiv> ni_frames_out (an_interface a)"

text \<open>\<open>clear\<close> pops both queues until the first is empty.\<close>

definition clear_frames :: "EthernetFrame list \<Rightarrow> AsyncNetworkInterface \<Rightarrow> AsyncNetworkInterface" where
  "clear_frames queue1 a =
     a\<lparr>an_interface := (an_interface a)\<lparr>ni_frames_out := drop (length queue1) (frames_out a)\<rparr>\<rparr>"

definition exchange_frames ::
  "AsyncNetworkInterface \<Rightarrow> AsyncNetworkInterface \<Rightarrow> (AsyncNetworkInterface \<times> AsyncNetworkInterface) result" where
  "exchange_frames x y =
     (let x_frames = frames_out x; y_frames = frames_out y
      in bindE (deliver_frames x_frames y) (\<lambda>y. bindE (deliver_frames y_frames x) (\<lambda>x.
           Inr (clear_frames x_frames x, clear_frames y_frames y))))"

definition exchange_frames3 ::
  "AsyncNetworkInterface \<Rightarrow> AsyncNetworkInterface \<Rightarrow> AsyncNetworkInterface
    \<Rightarrow> (AsyncNetworkInterface \<times> AsyncNetworkInterface \<times> AsyncNetworkInterface) result" where
  "exchange_frames3 x y z =
     (let x_frames = frames_out x; y_frames = frames_out y; z_frames = frames_out z
      in bindE (deliver_frames x_frames y) (\<lambda>y. bindE (deliver_frames x_frames z) (\<lambda>z.
         bindE (deliver_frames y_frames x) (\<lambda>x. bindE (deliver_frames y_frames z) (\<lambda>z.
         bindE (deliver_frames z_frames x) (\<lambda>x. bindE (deliver_frames z_frames y) (\<lambda>y.
           Inr (clear_frames x_frames x, clear_frames y_frames y, clear_frames z_frames z))))))))"

section \<open>The network\<close>

text \<open>
  The hosts are in a hash map; the list has them in the order of its iteration, which the
  language does not fix.
\<close>

record Network =
  nw_router :: Router
  default_id :: size_t
  eth0_id :: size_t
  eth1_id :: size_t
  eth2_id :: size_t
  uun3_id :: size_t
  hs4_id :: size_t
  mit5_id :: size_t
  nw_hosts :: "(string \<times> Host) list"

definition Network_host :: "string \<Rightarrow> Network \<Rightarrow> Host result" where
  "Network_host name w =
     (case map_of (nw_hosts w) name of
        None \<Rightarrow> Inl (RuntimeError (''unknown host: '' @ name))
      | Some h \<Rightarrow> if h_name h \<noteq> name then Inl (RuntimeError (''invalid host: '' @ name)) else Inr h)"

definition put_host :: "string \<Rightarrow> Host \<Rightarrow> Network \<Rightarrow> Network" where
  "put_host name h w = w\<lparr>nw_hosts := map (\<lambda>(k, h'). if k = name then (k, h) else (k, h')) (nw_hosts w)\<rparr>"

definition add_router_interface :: "Resolver \<Rightarrow> string \<Rightarrow> Router \<times> rng \<Rightarrow> (size_t \<times> Router \<times> rng) result" where
  "add_router_interface R addr = (\<lambda>(r, g).
     let (ethernet, g) = random_router_ethernet_address g
     in bindE (ip R addr) (\<lambda>a.
          let (i, r) = Router_add_interface (AsyncNetworkInterface_new (NetworkInterface_new ethernet a)) r
          in Inr (i, r, g)))"

fun make_hosts :: "Resolver \<Rightarrow> (string \<times> string \<times> string) list \<Rightarrow> rng \<Rightarrow> ((string \<times> Host) list \<times> rng) result" where
  "make_hosts R [] g = Inr ([], g)"
| "make_hosts R ((name, addr, hop) # hs) g =
     bindE (Address_of_ip R addr 0) (\<lambda>addr. bindE (Address_of_ip R hop 0) (\<lambda>hop.
       bindE (Host_new name addr hop g) (\<lambda>(h, g).
         bindE (make_hosts R hs g) (\<lambda>(hs, g). Inr ((name, h) # hs, g)))))"

definition network_hosts :: "(string \<times> string \<times> string) list" where
  "network_hosts = [(''applesauce'', ''10.0.0.2'', ''10.0.0.1''), (''default_router'', ''171.67.76.1'', ''0''),
     (''cherrypie'', ''192.168.0.2'', ''192.168.0.1''), (''hs_router'', ''143.195.0.1'', ''0''),
     (''dm42'', ''198.178.229.42'', ''198.178.229.1''), (''dm43'', ''198.178.229.43'', ''198.178.229.1'')]"

text \<open>The routes; the address of a host that is a next hop is looked up by name.\<close>

definition add_route_via :: "Resolver \<Rightarrow> string \<Rightarrow> u8 \<Rightarrow> string \<Rightarrow> size_t \<Rightarrow> Network \<Rightarrow> Network result" where
  "add_route_via R prefix len name i w =
     bindE (ip R prefix) (\<lambda>p. bindE (Network_host name w) (\<lambda>h. bindE (Address_ipv4_numeric (h_my_address h)) (\<lambda>hop.
       Inr (w\<lparr>nw_router := Router_add_route p len (Some hop) i (nw_router w)\<rparr>))))"

definition add_route_direct :: "Resolver \<Rightarrow> string \<Rightarrow> u8 \<Rightarrow> size_t \<Rightarrow> Network \<Rightarrow> Network result" where
  "add_route_direct R prefix len i w =
     bindE (ip R prefix) (\<lambda>p. Inr (w\<lparr>nw_router := Router_add_route p len None i (nw_router w)\<rparr>))"

definition add_routes :: "Resolver \<Rightarrow> Network \<Rightarrow> Network result" where
  "add_routes R w =
     bindE (add_route_via R ''0.0.0.0'' 0 ''default_router'' (default_id w) w) (\<lambda>w.
     bindE (add_route_direct R ''10.0.0.0'' 8 (eth0_id w) w) (\<lambda>w.
     bindE (add_route_direct R ''172.16.0.0'' 16 (eth1_id w) w) (\<lambda>w.
     bindE (add_route_direct R ''192.168.0.0'' 24 (eth2_id w) w) (\<lambda>w.
     bindE (add_route_direct R ''198.178.229.0'' 24 (uun3_id w) w) (\<lambda>w.
     bindE (add_route_via R ''143.195.0.0'' 17 ''hs_router'' (hs4_id w) w) (\<lambda>w.
     bindE (add_route_via R ''143.195.128.0'' 18 ''hs_router'' (hs4_id w) w) (\<lambda>w.
     bindE (add_route_via R ''143.195.192.0'' 19 ''hs_router'' (hs4_id w) w) (\<lambda>w.
     bindE (ip R ''128.30.76.255'') (\<lambda>p. bindE (ip R ''128.30.0.1'') (\<lambda>hop.
       Inr (w\<lparr>nw_router := Router_add_route p 16 (Some hop) (mit5_id w) (nw_router w)\<rparr>)))))))))))"

definition Network_new :: "Resolver \<Rightarrow> rng \<Rightarrow> (Network \<times> rng) result" where
  "Network_new R g =
     bindE (add_router_interface R ''171.67.76.46'' (Router_new, g)) (\<lambda>(i0, s).
     bindE (add_router_interface R ''10.0.0.1'' s) (\<lambda>(i1, s).
     bindE (add_router_interface R ''172.16.0.1'' s) (\<lambda>(i2, s).
     bindE (add_router_interface R ''192.168.0.1'' s) (\<lambda>(i3, s).
     bindE (add_router_interface R ''198.178.229.1'' s) (\<lambda>(i4, s).
     bindE (add_router_interface R ''143.195.0.2'' s) (\<lambda>(i5, s).
     bindE (add_router_interface R ''128.30.76.255'' s) (\<lambda>(i6, r, g).
     bindE (make_hosts R network_hosts g) (\<lambda>(hosts, g).
     bindE (add_routes R \<lparr>nw_router = r, default_id = i0, eth0_id = i1, eth1_id = i2, eth2_id = i3, uun3_id = i4,
       hs4_id = i5, mit5_id = i6, nw_hosts = hosts\<rparr>) (\<lambda>w. Inr (w, g))))))))))"

definition put_interface :: "size_t \<Rightarrow> AsyncNetworkInterface \<Rightarrow> Network \<Rightarrow> Network" where
  "put_interface i a w = w\<lparr>nw_router := (nw_router w)\<lparr>rt_interfaces := (rt_interfaces (nw_router w))[unat i := a]\<rparr>\<rparr>"

text \<open>A wire between an interface of the router and a host, and one that a second host shares.\<close>

definition wire :: "size_t \<Rightarrow> string \<Rightarrow> Network \<Rightarrow> Network result" where
  "wire i name w =
     bindE (Router_interface i (nw_router w)) (\<lambda>x. bindE (Network_host name w) (\<lambda>h.
       bindE (exchange_frames x (h_interface h)) (\<lambda>(x, y).
         Inr (put_host name (h\<lparr>h_interface := y\<rparr>) (put_interface i x w)))))"

definition wire3 :: "size_t \<Rightarrow> string \<Rightarrow> string \<Rightarrow> Network \<Rightarrow> Network result" where
  "wire3 i name1 name2 w =
     bindE (Router_interface i (nw_router w)) (\<lambda>x. bindE (Network_host name1 w) (\<lambda>h1. bindE (Network_host name2 w) (\<lambda>h2.
       bindE (exchange_frames3 x (h_interface h1) (h_interface h2)) (\<lambda>(x, y, z).
         Inr (put_host name2 (h2\<lparr>h_interface := z\<rparr>) (put_host name1 (h1\<lparr>h_interface := y\<rparr>) (put_interface i x w)))))))"

definition simulate_physical_connections :: "Network \<Rightarrow> Network result" where
  "simulate_physical_connections w =
     bindE (wire (default_id w) ''default_router'' w) (\<lambda>w.
     bindE (wire (eth0_id w) ''applesauce'' w) (\<lambda>w.
     bindE (wire (eth2_id w) ''cherrypie'' w) (\<lambda>w.
     bindE (wire (hs4_id w) ''hs_router'' w) (\<lambda>w.
       wire3 (uun3_id w) ''dm42'' ''dm43'' w))))"

fun simulate_rounds :: "(NetworkInterface \<Rightarrow> u64) \<Rightarrow> nat \<Rightarrow> Network \<Rightarrow> Network result" where
  "simulate_rounds past_end 0 w = Inr w"
| "simulate_rounds past_end (Suc n) w =
     bindE (Router_route past_end (nw_router w)) (\<lambda>r.
       bindE (simulate_physical_connections (w\<lparr>nw_router := r\<rparr>)) (simulate_rounds past_end n))"

fun check_hosts :: "Resolver \<Rightarrow> (string \<times> Host) list \<Rightarrow> (string \<times> Host) list result" where
  "check_hosts R [] = Inr []"
| "check_hosts R ((name, h) # hs) =
     bindE (Host_check R h) (\<lambda>h. bindE (check_hosts R hs) (\<lambda>hs. Inr ((name, h) # hs)))"

definition Network_simulate :: "Resolver \<Rightarrow> (NetworkInterface \<Rightarrow> u64) \<Rightarrow> Network \<Rightarrow> Network result" where
  "Network_simulate R past_end w =
     bindE (simulate_rounds past_end 256 w) (\<lambda>w.
       bindE (check_hosts R (nw_hosts w)) (\<lambda>hs. Inr (w\<lparr>nw_hosts := hs\<rparr>)))"

section \<open>The tests of the program\<close>

definition send_from :: "(NetworkInterface \<Rightarrow> u64) \<Rightarrow> string \<Rightarrow> Address \<Rightarrow> u8 \<Rightarrow> Network \<times> rng \<Rightarrow> (IPv4Datagram \<times> Network \<times> rng) result" where
  "send_from past_end name destination ttl = (\<lambda>(w, g).
     bindE (Network_host name w) (\<lambda>h. bindE (Host_send_to past_end destination ttl g h) (\<lambda>(d, h, g).
       Inr (d, put_host name h w, g))))"

text \<open>The block that all tests but the last repeat: one datagram is sent, and one host is to get it with its TTL decremented.\<close>

definition expect_test ::
  "Resolver \<Rightarrow> (NetworkInterface \<Rightarrow> u64) \<Rightarrow> string \<Rightarrow> Address \<Rightarrow> string \<Rightarrow> Network \<times> rng \<Rightarrow> (Network \<times> rng) result" where
  "expect_test R past_end sender destination receiver s =
     bindE (send_from past_end sender destination 64 s) (\<lambda>(dgram_sent, w, g).
       let dgram_sent = dgram_sent\<lparr>dg_header := (dg_header dgram_sent)\<lparr>ip_ttl := ip_ttl (dg_header dgram_sent) - 1\<rparr>\<rparr>
       in bindE (Network_host receiver w) (\<lambda>h.
            bindE (Network_simulate R past_end (put_host receiver (Host_expect dgram_sent h) w)) (\<lambda>w. Inr (w, g))))"

definition host_test ::
  "Resolver \<Rightarrow> (NetworkInterface \<Rightarrow> u64) \<Rightarrow> string \<Rightarrow> string \<Rightarrow> Network \<times> rng \<Rightarrow> (Network \<times> rng) result" where
  "host_test R past_end sender receiver s =
     bindE (Network_host receiver (fst s)) (\<lambda>h. expect_test R past_end sender (h_my_address h) receiver s)"

definition address_test ::
  "Resolver \<Rightarrow> (NetworkInterface \<Rightarrow> u64) \<Rightarrow> string \<Rightarrow> string \<Rightarrow> string \<Rightarrow> Network \<times> rng \<Rightarrow> (Network \<times> rng) result" where
  "address_test R past_end sender address receiver s =
     bindE (Address_of_ip R address 0) (\<lambda>a. expect_test R past_end sender a receiver s)"

definition ttl_test :: "Resolver \<Rightarrow> (NetworkInterface \<Rightarrow> u64) \<Rightarrow> u8 \<Rightarrow> Network \<times> rng \<Rightarrow> (Network \<times> rng) result" where
  "ttl_test R past_end ttl s =
     bindE (Address_of_ip R ''1.2.3.4'' 0) (\<lambda>a. bindE (send_from past_end ''applesauce'' a ttl s) (\<lambda>(d, w, g).
       bindE (Network_simulate R past_end w) (\<lambda>w. Inr (w, g))))"

definition network_simulator :: "Resolver \<Rightarrow> (NetworkInterface \<Rightarrow> u64) \<Rightarrow> rng \<Rightarrow> (Network \<times> rng) result" where
  "network_simulator R past_end g =
     bindE (Network_new R g) (\<lambda>s.
     bindE (host_test R past_end ''applesauce'' ''cherrypie'' s) (\<lambda>s.
     bindE (host_test R past_end ''cherrypie'' ''applesauce'' s) (\<lambda>s.
     bindE (address_test R past_end ''applesauce'' ''1.2.3.4'' ''default_router'' s) (\<lambda>s.
     bindE (address_test R past_end ''applesauce'' ''143.195.131.17'' ''hs_router'' s) (\<lambda>s.
     bindE (address_test R past_end ''cherrypie'' ''143.195.193.52'' ''hs_router'' s) (\<lambda>s.
     bindE (address_test R past_end ''cherrypie'' ''143.195.223.255'' ''hs_router'' s) (\<lambda>s.
     bindE (address_test R past_end ''cherrypie'' ''143.195.224.0'' ''default_router'' s) (\<lambda>s.
     bindE (host_test R past_end ''dm42'' ''dm43'' s) (\<lambda>s.
     bindE (ttl_test R past_end 1 s) (ttl_test R past_end 0))))))))))"

definition simulator_exit :: "Resolver \<Rightarrow> (NetworkInterface \<Rightarrow> u64) \<Rightarrow> rng \<Rightarrow> int" where
  "simulator_exit R past_end g = (case network_simulator R past_end g of Inl _ \<Rightarrow> 1 | Inr _ \<Rightarrow> 0)"

section \<open>What the check of a host decides\<close>

lemma expecting_eq:
  assumes "IPv4Datagram_serialize d = Inr (dg_bytes d)" and "\<forall>x \<in> set xs. IPv4Datagram_serialize x = Inr (dg_bytes x)"
  shows "expecting d xs = Inr (dg_bytes d \<in> dg_bytes ` set xs)"
  using assms(2) by (induction xs) (auto simp: assms(1))

lemma remove_expectation_eq:
  assumes "IPv4Datagram_serialize d = Inr (dg_bytes d)" and "\<forall>x \<in> set xs. IPv4Datagram_serialize x = Inr (dg_bytes x)"
  shows "\<exists>ys. remove_expectation d xs = Inr ys \<and> set ys \<subseteq> set xs
    \<and> mset (map dg_bytes ys) = mset (map dg_bytes xs) - {#dg_bytes d#}"
  using assms(2)
proof (induction xs)
  case (Cons x xs)
  then obtain ys where "remove_expectation d xs = Inr ys" "set ys \<subseteq> set xs"
      "mset (map dg_bytes ys) = mset (map dg_bytes xs) - {#dg_bytes d#}" by auto
  with Cons.prems assms(1) show ?case by auto
qed simp

lemma check_received_eq:
  assumes "\<forall>d \<in> set ds \<union> set xs. IPv4Datagram_serialize d = Inr (dg_bytes d)"
  shows "case check_received R name ds xs of
      Inl e \<Rightarrow> \<not> mset (map dg_bytes ds) \<subseteq># mset (map dg_bytes xs) \<and> (\<exists>text. e = RuntimeError text)
    | Inr ys \<Rightarrow> mset (map dg_bytes ds) \<subseteq># mset (map dg_bytes xs)
        \<and> mset (map dg_bytes ys) = mset (map dg_bytes xs) - mset (map dg_bytes ds)"
  using assms
proof (induction ds arbitrary: xs)
  case (Cons d ds)
  then have d: "IPv4Datagram_serialize d = Inr (dg_bytes d)" and xs: "\<forall>x \<in> set xs. IPv4Datagram_serialize x = Inr (dg_bytes x)"
    by auto
  note e = expecting_eq [OF d xs]
  show ?case
  proof (cases "dg_bytes d \<in># mset (map dg_bytes xs)")
    case False
    then have "\<not> mset (map dg_bytes (d # ds)) \<subseteq># mset (map dg_bytes xs)" by (auto dest: mset_subset_eq_insertD)
    with False show ?thesis using e by (simp add: image_iff)
  next
    case True
    obtain ys where ys: "remove_expectation d xs = Inr ys" "set ys \<subseteq> set xs"
        "mset (map dg_bytes ys) = mset (map dg_bytes xs) - {#dg_bytes d#}"
      using remove_expectation_eq [OF d xs] by blast
    then have "check_received R name (d # ds) xs = check_received R name ds ys" using e True by simp
    moreover have "mset (map dg_bytes (d # ds)) \<subseteq># mset (map dg_bytes xs) \<longleftrightarrow> mset (map dg_bytes ds) \<subseteq># mset (map dg_bytes ys)"
      using True ys(3) by (simp add: insert_subset_eq_iff)
    moreover have "\<forall>d \<in> set ds \<union> set ys. IPv4Datagram_serialize d = Inr (dg_bytes d)" using Cons.prems ys(2) by auto
    ultimately show ?thesis using Cons.IH [of ys] ys(3) by (auto split: sum.splits)
  qed
qed simp

text \<open>
  C39. The check of a host passes exactly if the datagrams it received are, as they stand on
  the wire, the datagrams it expects, each as often as it is expected and in any order; it
  then leaves the host with nothing received and nothing expected. Otherwise it throws.
\<close>

theorem host_check_iff:
  assumes "\<forall>d \<in> set (an_datagrams_out (h_interface h)) \<union> set (h_expecting_to_receive h).
    IPv4Datagram_serialize d = Inr (dg_bytes d)"
  shows "if mset (map dg_bytes (an_datagrams_out (h_interface h))) = mset (map dg_bytes (h_expecting_to_receive h))
    then Host_check R h = Inr (h\<lparr>h_interface := (h_interface h)\<lparr>an_datagrams_out := []\<rparr>, h_expecting_to_receive := []\<rparr>)
    else \<exists>text. Host_check R h = Inl (RuntimeError text)"
proof -
  let ?r = "an_datagrams_out (h_interface h)" and ?x = "h_expecting_to_receive h"
  note c = check_received_eq [OF assms, of R "h_name h"]
  show ?thesis
  proof (cases "check_received R (h_name h) ?r ?x")
    case (Inl e)
    then have "\<not> mset (map dg_bytes ?r) \<subseteq># mset (map dg_bytes ?x)" "\<exists>text. e = RuntimeError text" using c by simp_all
    then show ?thesis using Inl by (auto simp: Host_check_def)
  next
    case (Inr ys)
    then have "mset (map dg_bytes ?r) \<subseteq># mset (map dg_bytes ?x)"
        "mset (map dg_bytes ys) = mset (map dg_bytes ?x) - mset (map dg_bytes ?r)" using c by simp_all
    then have "mset (map dg_bytes ?x) = mset (map dg_bytes ys) + mset (map dg_bytes ?r)" by (simp add: subset_mset.diff_add)
    then have "ys = [] \<longleftrightarrow> mset (map dg_bytes ?r) = mset (map dg_bytes ?x)" by auto
    then show ?thesis using Inr by (cases ys) (auto simp: Host_check_def)
  qed
qed

definition example_dgram :: IPv4Datagram where
  "example_dgram = \<lparr>dg_header = IPv4Header_new\<lparr>ip_len := 21\<rparr>, dg_payload = [7]\<rparr>"

definition example_host :: Host where
  "example_host = \<lparr>h_name = ''dm42'', h_my_address = ipv4_address 1 0,
     h_interface = (AsyncNetworkInterface_new (NetworkInterface_new [2, 0, 0, 0, 0, 1] 1))\<lparr>an_datagrams_out := [example_dgram]\<rparr>,
     h_next_hop = ipv4_address 2 0, h_expecting_to_receive = [example_dgram]\<rparr>"

lemma example_dgram_ok: "dg_ok example_dgram"
  by (simp add: example_dgram_def dg_ok_def ip_wf_def IPv4Header_new_def)

theorem host_check_iff_witness:
  "Host_check decimal_resolver example_host
    = Inr (example_host\<lparr>h_interface := (h_interface example_host)\<lparr>an_datagrams_out := []\<rparr>, h_expecting_to_receive := []\<rparr>)"
  using host_check_iff [of example_host decimal_resolver] dg_bytes_ok [OF example_dgram_ok]
  by (simp add: example_host_def AsyncNetworkInterface_new_def)

section \<open>Wires and router change no datagram\<close>

text \<open>
  Everything an interface holds is among the datagrams \<open>D\<close>, given by their bytes: the ones
  that wait for an address, the ones in frames, and the ones received.
\<close>

definition among :: "bytes set \<Rightarrow> IPv4Datagram \<Rightarrow> bool" where
  "among D d \<longleftrightarrow> (\<forall>b. IPv4Datagram_serialize d = Inr b \<longrightarrow> b \<in> D)"

definition frame_carries :: "bytes set \<Rightarrow> EthernetFrame \<Rightarrow> bool" where
  "frame_carries D f \<longleftrightarrow> (eh_type (ef_header f) = TYPE_IPv4 \<longrightarrow> ef_payload f \<in> D)"

definition ni_carries :: "bytes set \<Rightarrow> NetworkInterface \<Rightarrow> bool" where
  "ni_carries D n \<longleftrightarrow> list_all (\<lambda>(d, hop). among D d) (ni_unsent n) \<and> list_all (frame_carries D) (ni_frames_out n)"

definition an_carries :: "bytes set \<Rightarrow> AsyncNetworkInterface \<Rightarrow> bool" where
  "an_carries D a \<longleftrightarrow> ni_carries D (an_interface a) \<and> list_all (among D) (an_datagrams_out a)"

definition wire_format :: "bytes set \<Rightarrow> bool" where
  "wire_format D \<longleftrightarrow> (\<forall>b \<in> D. \<exists>d. dg_ok d \<and> IPv4Datagram_serialize d = Inr b)"

lemma amongD: "among D d \<Longrightarrow> IPv4Datagram_serialize d = Inr b \<Longrightarrow> b \<in> D"
  by (simp add: among_def)

lemma sealed_serialize: "IPv4Datagram_serialize (dg_sealed d) = IPv4Datagram_serialize d"
  by (simp add: IPv4Datagram_serialize_def dg_sealed_def Let_def IPv4Header_payload_length_def)

lemma parsed_among:
  assumes "wire_format D" and "b \<in> D" and "IPv4Datagram_parse d0 b = (r, d)"
  shows "among D d"
proof -
  obtain d' where "dg_ok d'" "IPv4Datagram_serialize d' = Inr b" using assms(1,2) by (auto simp: wire_format_def)
  then have "d = dg_sealed d'" "IPv4Datagram_serialize (dg_sealed d') = Inr b"
    using IPv4Datagram_roundtrip(1) [of d' b d0] assms(3) by (simp_all add: sealed_serialize)
  then show ?thesis using assms(2) by (simp add: among_def)
qed

lemma send_carries:
  assumes "ni_carries D n" and "among D d" and "NetworkInterface_send_datagram past_end d hop n = Inr n'"
  shows "ni_carries D n'"
  using assms
  by (auto simp: NetworkInterface_send_datagram_def ni_carries_def frame_carries_def Let_def bindE_Inr_iff
      TYPE_IPv4_def TYPE_ARP_def EthernetFrame_new_def EthernetHeader_new_def split: option.splits if_splits dest: amongD)

lemma ip_carries: "frame_carries D \<lparr>ef_header = \<lparr>eh_dst = dst, eh_src = src, eh_type = TYPE_IPv4\<rparr>, ef_payload = payload\<rparr>
    \<longleftrightarrow> payload \<in> D"
  by (simp add: frame_carries_def)

lemma send_waiting_carries:
  assumes "list_all (\<lambda>(d, hop). among D d) unsent" and "send_waiting src msg unsent = Inr (frames, rest)"
  shows "list_all (frame_carries D) frames \<and> list_all (\<lambda>(d, hop). among D d) rest"
  using assms
proof (induction unsent arbitrary: frames rest)
  case (Cons x unsent)
  obtain d hop where x: "x = (d, hop)" by (cases x)
  obtain frames' rest' where w: "send_waiting src msg unsent = Inr (frames', rest')"
    using Cons.prems(2) x by (auto simp: bindE_Inr_iff split: if_splits)
  have IH: "list_all (frame_carries D) frames'" "list_all (\<lambda>(d, hop). among D d) rest'"
    using Cons.IH [OF _ w] Cons.prems(1) by simp_all
  show ?case
  proof (cases "hop = ucast (am_sender_ip_address msg)")
    case True
    then obtain payload where "IPv4Datagram_serialize d = Inr payload" using Cons.prems(2) x by (auto simp: bindE_Inr_iff)
    with True IH Cons.prems x w show ?thesis using amongD [of D d payload] by (auto simp: ip_carries)
  next
    case False
    with IH Cons.prems x w show ?thesis by auto
  qed
qed simp

lemma arp_carries: "frame_carries D \<lparr>ef_header = \<lparr>eh_dst = dst, eh_src = src, eh_type = 0x806\<rparr>, ef_payload = payload\<rparr>"
  by (simp add: frame_carries_def TYPE_IPv4_def)

lemma recv_arp_carries:
  assumes "ni_carries D n" and "recv_arp header msg n = Inr n'"
  shows "ni_carries D n'"
  using assms send_waiting_carries [where D = D]
  by (auto simp: recv_arp_def ni_carries_def Let_def bindE_Inr_iff TYPE_ARP_def arp_carries split: if_splits)

lemma recv_frame_carries:
  assumes D: "wire_format D" and f: "frame_carries D f" and a: "an_carries D a"
    and r: "AsyncNetworkInterface_recv_frame f a = Inr a'"
  shows "an_carries D a'"
proof -
  obtain d n where n: "NetworkInterface_recv_frame f (an_interface a) = Inr (d, n)"
      and a': "a' = (case d of None \<Rightarrow> a\<lparr>an_interface := n\<rparr>
        | Some d \<Rightarrow> a\<lparr>an_interface := n, an_datagrams_out := an_datagrams_out a @ [d]\<rparr>)"
    using r by (auto simp: AsyncNetworkInterface_recv_frame_def bindE_Inr_iff)
  have "ni_carries D n"
    using n a recv_arp_carries [of D "an_interface a"]
    by (auto simp: NetworkInterface_recv_frame_def an_carries_def bindE_Inr_iff Let_def split: if_splits prod.splits)
  moreover have "case d of None \<Rightarrow> True | Some d \<Rightarrow> among D d"
    using n f parsed_among [OF D, of "ef_payload f" IPv4Datagram_new]
    by (auto simp: NetworkInterface_recv_frame_def bindE_Inr_iff Let_def frame_carries_def split: if_splits prod.splits)
  ultimately show ?thesis using a unfolding a' by (auto simp: an_carries_def split: option.splits)
qed

lemma deliver_carries:
  assumes "wire_format D" and "list_all (frame_carries D) fs" and "an_carries D a" and "deliver_frames fs a = Inr a'"
  shows "an_carries D a'"
  using assms(2-)
proof (induction fs arbitrary: a)
  case (Cons f fs)
  then obtain a1 where "AsyncNetworkInterface_recv_frame f a = Inr a1" "deliver_frames fs a1 = Inr a'" by (auto simp: bindE_Inr_iff)
  with Cons recv_frame_carries [OF assms(1)] show ?case by auto
qed simp

lemma clear_carries: "an_carries D a \<Longrightarrow> an_carries D (clear_frames q a)"
  by (auto simp: an_carries_def ni_carries_def clear_frames_def list_all_iff dest: in_set_dropD)

lemma carried_frames: "an_carries D a \<Longrightarrow> list_all (frame_carries D) (frames_out a)"
  by (simp add: an_carries_def ni_carries_def)

lemma exchange_carries:
  assumes D: "wire_format D" and x: "an_carries D x" and y: "an_carries D y" and e: "exchange_frames x y = Inr (x', y')"
  shows "an_carries D x' \<and> an_carries D y'"
proof -
  obtain y1 x1 where "deliver_frames (frames_out x) y = Inr y1" "deliver_frames (frames_out y) x = Inr x1"
    and eq: "x' = clear_frames (frames_out x) x1" "y' = clear_frames (frames_out y) y1"
    using e by (auto simp: exchange_frames_def Let_def bindE_Inr_iff)
  then have "an_carries D x1" "an_carries D y1"
    using deliver_carries [OF D carried_frames [OF y] x] deliver_carries [OF D carried_frames [OF x] y] by blast+
  then show ?thesis unfolding eq using clear_carries by blast
qed

lemma exchange3_carries:
  assumes D: "wire_format D" and x: "an_carries D x" and y: "an_carries D y" and z: "an_carries D z"
    and e: "exchange_frames3 x y z = Inr (x', y', z')"
  shows "an_carries D x' \<and> an_carries D y' \<and> an_carries D z'"
proof -
  obtain y1 z1 x1 z2 x2 y2 where
      "deliver_frames (frames_out x) y = Inr y1" "deliver_frames (frames_out x) z = Inr z1" "deliver_frames (frames_out y) x = Inr x1"
      "deliver_frames (frames_out y) z1 = Inr z2" "deliver_frames (frames_out z) x1 = Inr x2" "deliver_frames (frames_out z) y1 = Inr y2"
    and eq: "x' = clear_frames (frames_out x) x2" "y' = clear_frames (frames_out y) y2" "z' = clear_frames (frames_out z) z2"
    using e by (auto simp: exchange_frames3_def Let_def bindE_Inr_iff)
  then have "an_carries D x2" "an_carries D y2" "an_carries D z2"
    using deliver_carries [OF D] carried_frames [OF x] carried_frames [OF y] carried_frames [OF z] x y z by metis+
  then show ?thesis unfolding eq using clear_carries by blast
qed

definition rt_carries :: "bytes set \<Rightarrow> Router \<Rightarrow> bool" where
  "rt_carries D r \<longleftrightarrow> list_all (an_carries D) (rt_interfaces r)"

lemma list_all_update: "list_all P xs \<Longrightarrow> P y \<Longrightarrow> list_all P (xs[i := y])"
  by (auto simp: list_all_iff dest!: set_update_subset_insert [THEN subsetD])

lemma interface_carries: "rt_carries D r \<Longrightarrow> Router_interface N r = Inr a \<Longrightarrow> an_carries D a"
  by (auto simp: rt_carries_def Router_interface_def list_all_length split: if_splits)

lemma router_send_carries:
  assumes r: "rt_carries D r" and d: "among D d" and s: "Router_send past_end d hop N r = Inr r'"
  shows "rt_carries D r'"
proof -
  obtain i n where i: "Router_interface N r = Inr i"
      and n: "NetworkInterface_send_datagram (past_end (an_interface i)) d hop (an_interface i) = Inr n"
      and r': "r' = r\<lparr>rt_interfaces := (rt_interfaces r)[unat N := i\<lparr>an_interface := n\<rparr>]\<rparr>"
    using s by (auto simp: Router_send_def bindE_Inr_iff)
  have "an_carries D i" by (rule interface_carries [OF r i])
  then have "an_carries D (i\<lparr>an_interface := n\<rparr>)" using send_carries [OF _ d n] by (simp add: an_carries_def)
  then show ?thesis using r unfolding r' by (simp add: rt_carries_def list_all_update)
qed

lemma route_one_carries:
  assumes "rt_carries D r" and "among D d" and "Router_route_one_datagram past_end d r = Inr r'"
  shows "rt_carries D r'"
  using assms router_send_carries [OF assms(1,2)]
  by (auto simp: Router_route_one_datagram_def Let_def bindE_Inr_iff split: if_splits option.splits)

lemma received_among: "rt_carries D r \<Longrightarrow> list_all (among D) (received_by i r)"
  by (auto simp: received_by_def rt_carries_def list_all_length [of "an_carries D"] an_carries_def)

lemma pop_carries:
  assumes "rt_carries D r" and "i < length (rt_interfaces r)"
  shows "rt_carries D (pop_received i r)"
proof -
  let ?a = "rt_interfaces r ! i"
  have "an_carries D ?a" using assms by (simp add: rt_carries_def list_all_length)
  then have "an_carries D (?a\<lparr>an_datagrams_out := tl (an_datagrams_out ?a)\<rparr>)"
    by (cases "an_datagrams_out ?a") (simp_all add: an_carries_def)
  then show ?thesis using assms(1) by (simp add: rt_carries_def pop_received_def list_all_update)
qed

lemma route_queue_carries:
  assumes "rt_carries D r" and "route_queue past_end i r = Inr r'"
  shows "rt_carries D r'"
  using assms
proof (induction past_end i r rule: route_queue.induct)
  case (1 past_end i r)
  show ?case
  proof (cases "received_by i r")
    case Nil
    then show ?thesis using "1.prems" by (simp add: route_queue.simps [of past_end i r])
  next
    case (Cons d ds)
    then obtain r1 where r1: "Router_route_one_datagram past_end d r = Inr r1"
        and rest: "route_queue past_end i (pop_received i r1) = Inr r'"
      using "1.prems"(2) by (auto simp: route_queue.simps [of past_end i r] bindE_Inr_iff)
    have "among D d" using received_among [OF "1.prems"(1), of i] Cons by simp
    then have "rt_carries D r1" by (rule route_one_carries [OF "1.prems"(1) _ r1])
    moreover have "i < length (rt_interfaces r1)"
      using Cons arg_cong [OF route_one_queues(1) [OF r1], of length] by (simp add: received_by_def split: if_splits)
    ultimately have "rt_carries D (pop_received i r1)" by (rule pop_carries)
    then show ?thesis using "1.IH" [OF Cons r1] rest by blast
  qed
qed

lemma route_carries:
  assumes "rt_carries D r" and "Router_route past_end r = Inr r'"
  shows "rt_carries D r'"
proof -
  have "route_interfaces past_end is r = Inr r' \<Longrightarrow> rt_carries D r \<Longrightarrow> rt_carries D r'" for "is" r
    by (induction "is" arbitrary: r) (auto simp: bindE_Inr_iff dest: route_queue_carries)
  then show ?thesis using assms by (simp add: Router_route_def)
qed

text \<open>The same for the whole network; the wires also leave what the hosts expect.\<close>

definition nw_carries :: "bytes set \<Rightarrow> Network \<Rightarrow> bool" where
  "nw_carries D w \<longleftrightarrow> rt_carries D (nw_router w) \<and> list_all (\<lambda>(k, h). an_carries D (h_interface h)) (nw_hosts w)"

definition expectation :: "string \<Rightarrow> Network \<Rightarrow> IPv4Datagram list option" where
  "expectation k w = map_option h_expecting_to_receive (map_of (nw_hosts w) k)"

lemma Network_hostD:
  assumes "Network_host name w = Inr h"
  shows "map_of (nw_hosts w) name = Some h" and "nw_carries D w \<Longrightarrow> an_carries D (h_interface h)"
proof -
  show m: "map_of (nw_hosts w) name = Some h" using assms by (auto simp: Network_host_def split: option.splits if_splits)
  show "nw_carries D w \<Longrightarrow> an_carries D (h_interface h)"
    using map_of_SomeD [OF m] by (auto simp: nw_carries_def list_all_iff)
qed

lemma map_of_put_host: "map_of (nw_hosts (put_host name h w)) k
    = (if k = name \<and> map_of (nw_hosts w) k \<noteq> None then Some h else map_of (nw_hosts w) k)"
proof -
  have "map_of (map (\<lambda>(k, h'). if k = name then (k, h) else (k, h')) hs) k
      = (if k = name \<and> map_of hs k \<noteq> None then Some h else map_of hs k)" for hs
    by (induction hs) auto
  then show ?thesis by (simp add: put_host_def)
qed

lemma put_carries:
  "nw_carries D w \<Longrightarrow> an_carries D (h_interface h) \<Longrightarrow> nw_carries D (put_host name h w)"
  "nw_carries D w \<Longrightarrow> an_carries D a \<Longrightarrow> nw_carries D (put_interface i a w)"
  by (auto simp: nw_carries_def put_host_def put_interface_def rt_carries_def list_all_update)
     (auto simp: list_all_iff split: if_splits)

lemma put_interface_hosts [simp]: "nw_hosts (put_interface i a w) = nw_hosts w"
  by (simp add: put_interface_def)

lemma put_host_expectation:
  assumes "map_of (nw_hosts w) name = Some h" and "h_expecting_to_receive h' = h_expecting_to_receive h"
  shows "expectation k (put_host name h' w) = expectation k w"
  using assms by (simp add: expectation_def map_of_put_host)

lemma wire_carries:
  assumes D: "wire_format D" and w: "nw_carries D w" and e: "wire i name w = Inr w'"
  shows "nw_carries D w' \<and> expectation k w' = expectation k w"
proof -
  obtain x h x' y' where x: "Router_interface i (nw_router w) = Inr x" and h: "Network_host name w = Inr h"
      and ex: "exchange_frames x (h_interface h) = Inr (x', y')"
      and w': "w' = put_host name (h\<lparr>h_interface := y'\<rparr>) (put_interface i x' w)"
    using e by (auto simp: wire_def bindE_Inr_iff)
  have "an_carries D x" using interface_carries [OF _ x] w by (simp add: nw_carries_def)
  from exchange_carries [OF D this Network_hostD(2) [OF h w] ex]
  have "nw_carries D w'" unfolding w' using w by (simp add: put_carries)
  moreover have "expectation k w' = expectation k w"
    unfolding w' using put_host_expectation [of "put_interface i x' w" name h] Network_hostD(1) [OF h]
    by (simp add: expectation_def)
  ultimately show ?thesis ..
qed

lemma wire3_carries:
  assumes D: "wire_format D" and w: "nw_carries D w" and e: "wire3 i name1 name2 w = Inr w'" and ne: "name1 \<noteq> name2"
  shows "nw_carries D w' \<and> expectation k w' = expectation k w"
proof -
  obtain x h1 h2 x' y' z' where x: "Router_interface i (nw_router w) = Inr x"
      and h: "Network_host name1 w = Inr h1" "Network_host name2 w = Inr h2"
      and ex: "exchange_frames3 x (h_interface h1) (h_interface h2) = Inr (x', y', z')"
      and w': "w' = put_host name2 (h2\<lparr>h_interface := z'\<rparr>) (put_host name1 (h1\<lparr>h_interface := y'\<rparr>) (put_interface i x' w))"
    using e by (auto simp: wire3_def bindE_Inr_iff)
  have "an_carries D x" using interface_carries [OF _ x] w by (simp add: nw_carries_def)
  from exchange3_carries [OF D this Network_hostD(2) [OF h(1) w] Network_hostD(2) [OF h(2) w] ex]
  have "nw_carries D w'" unfolding w' using w by (simp add: put_carries)
  moreover have "expectation k w' = expectation k w"
    unfolding w' using Network_hostD(1) [OF h(1)] Network_hostD(1) [OF h(2)] ne
    by (simp add: expectation_def map_of_put_host)
  ultimately show ?thesis ..
qed

lemma physical_carries:
  assumes D: "wire_format D" and w: "nw_carries D w" and e: "simulate_physical_connections w = Inr w'"
  shows "nw_carries D w' \<and> expectation k w' = expectation k w"
proof -
  obtain w1 w2 w3 w4 where s: "wire (default_id w) ''default_router'' w = Inr w1"
      "wire (eth0_id w1) ''applesauce'' w1 = Inr w2" "wire (eth2_id w2) ''cherrypie'' w2 = Inr w3"
      "wire (hs4_id w3) ''hs_router'' w3 = Inr w4" "wire3 (uun3_id w4) ''dm42'' ''dm43'' w4 = Inr w'"
    using e by (auto simp: simulate_physical_connections_def bindE_Inr_iff)
  note 1 = wire_carries [OF D w s(1), of k]
  note 2 = wire_carries [OF D conjunct1 [OF 1] s(2), of k]
  note 3 = wire_carries [OF D conjunct1 [OF 2] s(3), of k]
  note 4 = wire_carries [OF D conjunct1 [OF 3] s(4), of k]
  have "nw_carries D w' \<and> expectation k w' = expectation k w4"
    by (rule wire3_carries [OF D conjunct1 [OF 4] s(5)]) simp
  with 1 2 3 4 show ?thesis by simp
qed

text \<open>
  However long the network runs, every datagram in it is one that was in it, byte for byte.
\<close>

lemma rounds_carry:
  assumes D: "wire_format D"
  shows "nw_carries D w \<Longrightarrow> simulate_rounds past_end n w = Inr w' \<Longrightarrow> nw_carries D w' \<and> expectation k w' = expectation k w"
proof (induction n arbitrary: w)
  case (Suc n)
  then obtain r w1 where r: "Router_route past_end (nw_router w) = Inr r"
      and w1: "simulate_physical_connections (w\<lparr>nw_router := r\<rparr>) = Inr w1" and rest: "simulate_rounds past_end n w1 = Inr w'"
    by (auto simp: bindE_Inr_iff)
  have "nw_carries D (w\<lparr>nw_router := r\<rparr>)" using Suc.prems(1) route_carries [OF _ r] by (simp add: nw_carries_def)
  from physical_carries [OF D this w1, of k] Suc.IH [OF _ rest] show ?case by (simp add: expectation_def)
qed simp

section \<open>The program fails\<close>

lemma fresh_carries: "an_carries D (AsyncNetworkInterface_new (NetworkInterface_new e a))"
  by (simp add: an_carries_def ni_carries_def AsyncNetworkInterface_new_def NetworkInterface_new_def)

lemma add_interface_carries:
  "add_router_interface R addr (r, g) = Inr (i, r', g') \<Longrightarrow> rt_carries D r \<Longrightarrow> rt_carries D r'"
  by (auto simp: add_router_interface_def Router_add_interface_def Let_def bindE_Inr_iff rt_carries_def fresh_carries
      split: prod.splits)

definition fresh_hosts :: "(string \<times> Host) list \<Rightarrow> bool" where
  "fresh_hosts hs \<longleftrightarrow> list_all (\<lambda>(k, h). (\<forall>D. an_carries D (h_interface h)) \<and> h_expecting_to_receive h = []) hs"

lemma make_hosts_fresh: "make_hosts R xs g = Inr (hs, g') \<Longrightarrow> fresh_hosts hs"
proof (induction R xs g arbitrary: hs g' rule: make_hosts.induct)
  case (2 R name addr hop xs g)
  then obtain a b h g1 hs1 where "Address_of_ip R addr 0 = Inr a" "Address_of_ip R hop 0 = Inr b" "Host_new name a b g = Inr (h, g1)"
      "make_hosts R xs g1 = Inr (hs1, g')" "hs = (name, h) # hs1"
    by (auto simp: bindE_Inr_iff)
  with 2(1) show ?case
    by (auto simp: fresh_hosts_def Host_new_def Let_def bindE_Inr_iff fresh_carries split: prod.splits)
qed (simp add: fresh_hosts_def)

lemma add_routes_keeps:
  assumes "add_routes R w = Inr w'"
  shows "rt_interfaces (nw_router w') = rt_interfaces (nw_router w) \<and> nw_hosts w' = nw_hosts w"
proof -
  have via: "add_route_via R p l name i w = Inr w' \<Longrightarrow>
      rt_interfaces (nw_router w') = rt_interfaces (nw_router w) \<and> nw_hosts w' = nw_hosts w" for p l name i w w'
    by (auto simp: add_route_via_def bindE_Inr_iff Router_add_route_def)
  have dir: "add_route_direct R p l i w = Inr w' \<Longrightarrow>
      rt_interfaces (nw_router w') = rt_interfaces (nw_router w) \<and> nw_hosts w' = nw_hosts w" for p l i w w'
    by (auto simp: add_route_direct_def bindE_Inr_iff Router_add_route_def)
  show ?thesis using assms
    by (auto simp: add_routes_def bindE_Inr_iff Router_add_route_def dest!: via dir)
qed

lemma network_new_fresh:
  assumes "Network_new R g = Inr (w, g')"
  shows "nw_carries D w" and "fresh_hosts (nw_hosts w)"
proof -
  obtain i0 r0 g0 i1 r1 g1 i2 r2 g2 i3 r3 g3 i4 r4 g4 i5 r5 g5 i6 r6 g6 hosts where
      r: "add_router_interface R ''171.67.76.46'' (Router_new, g) = Inr (i0, r0, g0)"
        "add_router_interface R ''10.0.0.1'' (r0, g0) = Inr (i1, r1, g1)"
        "add_router_interface R ''172.16.0.1'' (r1, g1) = Inr (i2, r2, g2)"
        "add_router_interface R ''192.168.0.1'' (r2, g2) = Inr (i3, r3, g3)"
        "add_router_interface R ''198.178.229.1'' (r3, g3) = Inr (i4, r4, g4)"
        "add_router_interface R ''143.195.0.2'' (r4, g4) = Inr (i5, r5, g5)"
        "add_router_interface R ''128.30.76.255'' (r5, g5) = Inr (i6, r6, g6)"
    and h: "make_hosts R network_hosts g6 = Inr (hosts, g')"
    and a: "add_routes R \<lparr>nw_router = r6, default_id = i0, eth0_id = i1, eth1_id = i2, eth2_id = i3, uun3_id = i4,
       hs4_id = i5, mit5_id = i6, nw_hosts = hosts\<rparr> = Inr w"
    using assms by (auto simp: Network_new_def bindE_Inr_iff)
  have "rt_carries D Router_new" by (simp add: rt_carries_def Router_new_def)
  then have "rt_carries D r6" by (intro r [THEN add_interface_carries])
  moreover have f: "fresh_hosts hosts" by (rule make_hosts_fresh [OF h])
  ultimately show "nw_carries D w" "fresh_hosts (nw_hosts w)"
    using add_routes_keeps [OF a] by (auto simp: nw_carries_def rt_carries_def fresh_hosts_def list_all_iff)
qed

text \<open>The datagram a host sends has a right length field; its TTL is what the caller asked for.\<close>

lemma random_payload_length: "length (''random payload: {'' @ dec (unat (x :: u32)) @ ''}'') \<le> 28"
proof -
  have "unat x < 10 ^ 10" using unsigned_less [of x, where 'a = nat] by simp
  then have "length (digits 10 (unat x)) \<le> 10" by (intro digits_length) simp_all
  then show ?thesis by (simp add: dec_def)
qed

lemma send_to_ok:
  assumes "Host_send_to past_end destination ttl g h = Inr (d, h', g')"
  shows "dg_ok d" and "ip_ttl (dg_header d) = ttl" and "h_expecting_to_receive h' = h_expecting_to_receive h"
    and "an_carries D (h_interface h) \<Longrightarrow> among D d \<Longrightarrow> an_carries D (h_interface h')"
proof -
  obtain src dst hop n where
      d: "d = (let payload = map (\<lambda>c. of_nat (of_char c)) (''random payload: {'' @ dec (unat (g 0)) @ ''}'')
        in \<lparr>dg_header = IPv4Header_new\<lparr>ip_src := src, ip_dst := dst,
          ip_len := ucast (ip_hlen IPv4Header_new) * 4 + of_nat (length payload), ip_ttl := ttl\<rparr>, dg_payload = payload\<rparr>)"
    and n: "NetworkInterface_send_datagram (past_end (an_interface (h_interface h))) d hop (an_interface (h_interface h)) = Inr n"
    and h': "h' = h\<lparr>h_interface := (h_interface h)\<lparr>an_interface := n\<rparr>\<rparr>"
    using assms by (auto simp: Host_send_to_def rd_def Let_def bindE_Inr_iff IPv4Header_new_def)
  have "unat (20 + of_nat m :: u16) = 20 + m" if "m \<le> 28" for m
    using that by (simp add: unat_word_ariths unat_of_nat)
  from this [OF random_payload_length [of "g 0"]]
  show "dg_ok d" unfolding d by (simp add: dg_ok_def ip_wf_def IPv4Header_new_def Let_def)
  show "ip_ttl (dg_header d) = ttl" by (simp add: d Let_def)
  show "h_expecting_to_receive h' = h_expecting_to_receive h" by (simp add: h')
  show "an_carries D (h_interface h) \<Longrightarrow> among D d \<Longrightarrow> an_carries D (h_interface h')"
    using send_carries [OF _ _ n] by (simp add: h' an_carries_def)
qed

lemma check_hosts_all: "check_hosts R hs = Inr hs' \<Longrightarrow> (k, h) \<in> set hs \<Longrightarrow> \<exists>h'. Host_check R h = Inr h'"
  by (induction R hs arbitrary: hs' rule: check_hosts.induct) (auto simp: bindE_Inr_iff)

lemma check_needs_expected:
  assumes "Host_check R h = Inr h'" and "h_expecting_to_receive h = [e]"
  shows "\<exists>d b. d \<in> set (an_datagrams_out (h_interface h)) \<and> IPv4Datagram_serialize d = Inr b \<and> IPv4Datagram_serialize e = Inr b"
proof (cases "an_datagrams_out (h_interface h)")
  case Nil
  then show ?thesis using assms by (simp add: Host_check_def)
next
  case (Cons d ds)
  then have "expecting d [e] = Inr True"
    using assms by (auto simp: Host_check_def bindE_Inr_iff split: if_splits)
  then show ?thesis using Cons by (auto simp: bindE_Inr_iff split: if_splits)
qed

text \<open>A test that expects a smaller TTL than was sent cannot pass in a network where nothing else is under way.\<close>

lemma expect_test_fails:
  assumes w: "\<And>D. nw_carries D w" "fresh_hosts (nw_hosts w)"
  shows "expect_test R past_end sender destination receiver (w, g) \<noteq> Inr s"
proof
  assume "expect_test R past_end sender destination receiver (w, g) = Inr s"
  then obtain d h1 g1 h w2 where
      "\<exists>h0. Network_host sender w = Inr h0 \<and> Host_send_to past_end destination 64 g h0 = Inr (d, h1, g1)"
      and h: "Network_host receiver (put_host sender h1 w) = Inr h"
      and sim: "Network_simulate R past_end (put_host receiver (Host_expect (d\<lparr>dg_header := (dg_header d)\<lparr>ip_ttl :=
        ip_ttl (dg_header d) - 1\<rparr>\<rparr>) h) (put_host sender h1 w)) = Inr w2"
    by (auto simp: expect_test_def send_from_def bindE_Inr_iff Let_def)
  then obtain h0 where h0: "Network_host sender w = Inr h0" and sent: "Host_send_to past_end destination 64 g h0 = Inr (d, h1, g1)"
    by blast
  let ?e = "d\<lparr>dg_header := (dg_header d)\<lparr>ip_ttl := ip_ttl (dg_header d) - 1\<rparr>\<rparr>"
  let ?w = "put_host receiver (Host_expect ?e h) (put_host sender h1 w)"
  let ?D = "{b. IPv4Datagram_serialize d = Inr b}"
  note ok = send_to_ok [OF sent]
  have D: "wire_format ?D" using ok(1) by (auto simp: wire_format_def)
  have "an_carries ?D (h_interface h1)"
    using ok(4) Network_hostD(2) [OF h0 w(1)] by (simp add: among_def)
  then have c1: "nw_carries ?D (put_host sender h1 w)" by (intro put_carries w)
  then have "an_carries ?D (h_interface h)" by (rule Network_hostD(2) [OF h])
  then have c2: "nw_carries ?D ?w" by (intro put_carries c1) (simp add: Host_expect_def)
  have m: "map_of (nw_hosts (put_host sender h1 w)) receiver = Some h" by (rule Network_hostD(1) [OF h])
  have "h_expecting_to_receive h1 = []"
    using ok(3) map_of_SomeD [OF Network_hostD(1) [OF h0]] w(2) by (auto simp: fresh_hosts_def list_all_iff)
  then have "h_expecting_to_receive h = []"
    using m w(2) by (auto simp: map_of_put_host fresh_hosts_def list_all_iff dest: map_of_SomeD split: if_splits)
  then have x: "expectation receiver ?w = Some [?e]" using m by (simp add: expectation_def map_of_put_host [of receiver] Host_expect_def)
  obtain w3 hs where w3: "simulate_rounds past_end 256 ?w = Inr w3" and hs: "check_hosts R (nw_hosts w3) = Inr hs"
    using sim by (auto simp: Network_simulate_def bindE_Inr_iff)
  note c3 = rounds_carry [OF D c2 w3, of receiver]
  then obtain h3 where h3: "map_of (nw_hosts w3) receiver = Some h3" "h_expecting_to_receive h3 = [?e]"
    using x by (auto simp: expectation_def)
  note in3 = map_of_SomeD [OF h3(1)]
  obtain x b where x: "x \<in> set (an_datagrams_out (h_interface h3))" "IPv4Datagram_serialize x = Inr b"
      and e: "IPv4Datagram_serialize ?e = Inr b"
    using check_hosts_all [OF hs in3] check_needs_expected [OF _ h3(2)] by blast
  have "among ?D x" using c3 in3 x(1) by (auto simp: nw_carries_def an_carries_def list_all_iff)
  then have "IPv4Datagram_serialize d = Inr b" using x(2) by (simp add: among_def)
  moreover have "dg_ok ?e" using ok(1) by (simp add: dg_ok_def ip_wf_def)
  ultimately have "dg_sealed d = dg_sealed ?e"
    using IPv4Datagram_roundtrip(1) [OF ok(1), of b d] IPv4Datagram_roundtrip(1) [OF _ e, of d] by simp
  then have "ip_ttl (dg_header (dg_sealed d)) = ip_ttl (dg_header (dg_sealed ?e))" by simp
  then show False using ok(2) by (simp add: dg_sealed_def)
qed

text \<open>
  C40. The simulation fails at its first test: the program expects that the router decrements
  the TTL of a datagram, and the network, whatever its random addresses, carries every
  datagram unchanged. So whatever the resolver answers and whatever the undefined reads of
  the interfaces yield, the program ends with a failure.
\<close>

theorem network_simulator_fails: "simulator_exit R past_end g = 1"
proof -
  have "network_simulator R past_end g \<noteq> Inr s" for s
  proof
    assume "network_simulator R past_end g = Inr s"
    then obtain w g' s' where n: "Network_new R g = Inr (w, g')"
        and t: "host_test R past_end ''applesauce'' ''cherrypie'' (w, g') = Inr s'"
      by (auto simp: network_simulator_def bindE_Inr_iff)
    from t show False
      using expect_test_fails [OF network_new_fresh [OF n]] by (auto simp: host_test_def bindE_Inr_iff)
  qed
  then show ?thesis by (auto simp: simulator_exit_def split: sum.split)
qed

end
