(* ===== verification/Buffers.thy ===== *)
theory Buffers
  imports Prelude
begin

text \<open>
  The reference-counted strings of \<^verbatim>\<open>src/libsponge/util/buffer.hh\<close> and \<^verbatim>\<open>buffer.cc\<close>:
  \<open>Buffer\<close> (a shared string with a starting offset), \<open>BufferList\<close> and
  \<open>BufferViewList\<close> (discontiguous strings). All three discard bytes from the front; the
  locale \<open>discards_front\<close> states that contract, and the three types interpret it. The
  storage behind a \<open>Buffer\<close> is never written through it, so sharing is not visible and
  the contents, a list of bytes, are the whole abstract value.
\<close>

section \<open>Buffer\<close>

record Buffer =
  buf_storage :: "bytes option"
  buf_offset :: size_t

definition Buffer_empty :: Buffer where
  "Buffer_empty = \<lparr>buf_storage = None, buf_offset = 0\<rparr>"

definition Buffer_new :: "bytes \<Rightarrow> Buffer" where
  "Buffer_new str = \<lparr>buf_storage = Some str, buf_offset = 0\<rparr>"

definition Buffer_str :: "Buffer \<Rightarrow> bytes" where
  "Buffer_str b = (case buf_storage b of None \<Rightarrow> []
     | Some s \<Rightarrow> take (unat (sz s - buf_offset b)) (drop (unat (buf_offset b)) s))"

definition Buffer_size :: "Buffer \<Rightarrow> size_t" where
  "Buffer_size b = sz (Buffer_str b)"

definition Buffer_at :: "size_t \<Rightarrow> Buffer \<Rightarrow> u8 result" where
  "Buffer_at n b = (if sz (Buffer_str b) \<le> n then Inl (OutOfRange ''basic_string_view::at'')
     else Inr (Buffer_str b ! unat n))"

definition Buffer_copy :: "Buffer \<Rightarrow> bytes" where
  "Buffer_copy b = Buffer_str b"

definition Buffer_remove_prefix :: "size_t \<Rightarrow> Buffer \<Rightarrow> Buffer result" where
  "Buffer_remove_prefix n b =
     (if n > Buffer_size b then Inl (OutOfRange ''Buffer::remove_prefix'')
      else
        let b' = b\<lparr>buf_offset := buf_offset b + n\<rparr>
        in case buf_storage b' of
             None \<Rightarrow> Inr b'
           | Some s \<Rightarrow> if buf_offset b' = sz s then Inr (b'\<lparr>buf_storage := None\<rparr>) else Inr b')"

definition buf_inv :: "Buffer \<Rightarrow> bool" where
  "buf_inv b \<longleftrightarrow> (case buf_storage b of None \<Rightarrow> True
     | Some s \<Rightarrow> fits s \<and> unat (buf_offset b) \<le> length s)"

section \<open>Lists of buffers and of views\<close>

type_synonym BufferList = "Buffer list"
type_synonym BufferViewList = "bytes list"

definition BufferList_append :: "BufferList \<Rightarrow> BufferList \<Rightarrow> BufferList" where
  "BufferList_append l other = fold (\<lambda>buf acc. acc @ [buf]) other l"

definition BufferList_to_Buffer :: "BufferList \<Rightarrow> Buffer result" where
  "BufferList_to_Buffer l = (case l of
       [] \<Rightarrow> Inr Buffer_empty
     | [b] \<Rightarrow> Inr b
     | _ \<Rightarrow> Inl (RuntimeError ''BufferList: please use concatenate() to combine a multi-Buffer BufferList into one Buffer''))"

definition BufferList_concatenate :: "BufferList \<Rightarrow> bytes" where
  "BufferList_concatenate l = fold (\<lambda>buf ret. ret @ Buffer_str buf) l []"

definition BufferList_size :: "BufferList \<Rightarrow> size_t" where
  "BufferList_size l = fold (\<lambda>buf ret. ret + Buffer_size buf) l 0"

fun BufferList_remove_prefix :: "size_t \<Rightarrow> BufferList \<Rightarrow> BufferList result" where
  "BufferList_remove_prefix n [] =
     (if n > 0 then Inl (OutOfRange ''BufferList::remove_prefix'') else Inr [])"
| "BufferList_remove_prefix n (b # bs) =
     (if n > 0 then
        if n < sz (Buffer_str b) then bindE (Buffer_remove_prefix n b) (\<lambda>b'. Inr (b' # bs))
        else BufferList_remove_prefix (n - sz (Buffer_str b)) bs
      else Inr (b # bs))"

definition BufferViewList_of :: "BufferList \<Rightarrow> BufferViewList" where
  "BufferViewList_of l = map Buffer_str l"

fun BufferViewList_remove_prefix :: "size_t \<Rightarrow> BufferViewList \<Rightarrow> BufferViewList result" where
  "BufferViewList_remove_prefix n [] =
     (if n > 0 then Inl (OutOfRange ''BufferListView::remove_prefix'') else Inr [])"
| "BufferViewList_remove_prefix n (v # vs) =
     (if n > 0 then
        if n < sz v then Inr (drop (unat n) v # vs)
        else BufferViewList_remove_prefix (n - sz v) vs
      else Inr (v # vs))"

definition BufferViewList_size :: "BufferViewList \<Rightarrow> size_t" where
  "BufferViewList_size l = fold (\<lambda>buf ret. ret + sz buf) l 0"

definition BufferViewList_as_iovecs :: "BufferViewList \<Rightarrow> (bytes \<times> size_t) list" where
  "BufferViewList_as_iovecs l = map (\<lambda>x. (x, sz x)) l"

section \<open>The contract: discarding bytes from the front\<close>

locale discards_front =
  fixes inv :: "'b \<Rightarrow> bool" and str :: "'b \<Rightarrow> bytes"
    and remove_prefix :: "size_t \<Rightarrow> 'b \<Rightarrow> 'b result"
  assumes str_fits: "inv b \<Longrightarrow> fits (str b)"
    and removes: "inv b \<Longrightarrow> unat n \<le> length (str b) \<Longrightarrow>
      \<exists>b'. remove_prefix n b = Inr b' \<and> inv b' \<and> str b' = drop (unat n) (str b)"
    and refuses: "inv b \<Longrightarrow> length (str b) < unat n \<Longrightarrow> \<exists>m. remove_prefix n b = Inl (OutOfRange m)"
begin

lemma remove_prefix_iff:
  assumes "inv b"
  shows "(\<exists>b'. remove_prefix n b = Inr b') \<longleftrightarrow> unat n \<le> length (str b)"
  using removes [OF assms, of n] refuses [OF assms, of n] by (cases "unat n \<le> length (str b)") auto

lemma remove_prefix_str:
  assumes "inv b" and "remove_prefix n b = Inr b'"
  shows "inv b' \<and> str b' = drop (unat n) (str b) \<and> unat n \<le> length (str b)"
proof -
  have "unat n \<le> length (str b)" using remove_prefix_iff [OF assms(1), of n] assms(2) by blast
  with removes [OF assms(1) this] assms(2) show ?thesis by auto
qed

lemma remove_prefix_twice:
  assumes "inv b" and "unat m + unat n \<le> length (str b)"
  shows "\<exists>b1 b2 b3. remove_prefix m b = Inr b1 \<and> remove_prefix n b1 = Inr b2
    \<and> remove_prefix (m + n) b = Inr b3 \<and> str b2 = str b3"
proof -
  have "unat m + unat n < 2 ^ 64"
    using assms str_fits [OF assms(1)] by (simp add: fits_def)
  then have mn: "unat (m + n) = unat m + unat n" by (rule unat_add_nowrap)
  obtain b1 where b1: "remove_prefix m b = Inr b1" "inv b1" "str b1 = drop (unat m) (str b)"
    using removes [OF assms(1), of m] assms(2) by auto
  obtain b2 where b2: "remove_prefix n b1 = Inr b2" "str b2 = drop (unat n) (str b1)"
    using removes [OF b1(2), of n] b1(3) assms(2) by (auto simp: le_diff_conv2)
  obtain b3 where b3: "remove_prefix (m + n) b = Inr b3" "str b3 = drop (unat (m + n)) (str b)"
    using removes [OF assms(1), of "m + n"] mn assms(2) by auto
  from b1 b2 b3 mn show ?thesis by (simp add: add.commute)
qed

end

section \<open>Buffer implements it\<close>

lemma Buffer_str_some:
  assumes "buf_inv b" and "buf_storage b = Some s"
  shows "Buffer_str b = drop (unat (buf_offset b)) s"
  using assms by (simp add: Buffer_str_def buf_inv_def unat_sub_nowrap)

lemma Buffer_str_none [simp]: "buf_storage b = None \<Longrightarrow> Buffer_str b = []"
  by (simp add: Buffer_str_def)

lemma Buffer_str_new [simp]: "fits s \<Longrightarrow> Buffer_str (Buffer_new s) = s"
  by (simp add: Buffer_str_def Buffer_new_def)

lemma buf_inv_new [simp]: "buf_inv (Buffer_new s) = fits s"
  by (simp add: buf_inv_def Buffer_new_def)

lemma Buffer_str_fits: "buf_inv b \<Longrightarrow> fits (Buffer_str b)"
  by (cases "buf_storage b") (auto simp: Buffer_str_some buf_inv_def)

lemma Buffer_removes:
  assumes inv: "buf_inv b" and n: "unat n \<le> length (Buffer_str b)"
  shows "\<exists>b'. Buffer_remove_prefix n b = Inr b' \<and> buf_inv b' \<and> Buffer_str b' = drop (unat n) (Buffer_str b)"
proof -
  have le: "\<not> n > Buffer_size b"
    using n Buffer_str_fits [OF inv] by (simp add: Buffer_size_def word_less_nat_alt)
  show ?thesis
  proof (cases "buf_storage b")
    case None
    with le show ?thesis by (simp add: Buffer_remove_prefix_def buf_inv_def)
  next
    case (Some s)
    have fs: "fits s" "unat (buf_offset b) \<le> length s" using inv Some by (simp_all add: buf_inv_def)
    have off: "unat (buf_offset b + n) = unat (buf_offset b) + unat n"
      using n fs Buffer_str_some [OF inv Some] by (intro unat_add_nowrap) (simp add: fits_def)
    have tot: "unat (buf_offset b) + unat n \<le> length s"
      using n fs Buffer_str_some [OF inv Some] by simp
    have inv': "buf_inv (b\<lparr>buf_offset := buf_offset b + n\<rparr>)"
      using Some fs off tot by (simp add: buf_inv_def)
    have str': "Buffer_str (b\<lparr>buf_offset := buf_offset b + n\<rparr>) = drop (unat n) (Buffer_str b)"
      using Buffer_str_some [OF inv' , of s] Buffer_str_some [OF inv Some] Some off
      by (simp add: add.commute)
    show ?thesis
    proof (cases "buf_offset b + n = sz s")
      case True
      then have "unat (buf_offset b) + unat n = length s" using off fs by simp
      then have "drop (unat n) (Buffer_str b) = []" using Buffer_str_some [OF inv Some] by simp
      with True le Some show ?thesis
        by (simp add: Buffer_remove_prefix_def buf_inv_def Buffer_str_def)
    next
      case False
      with le Some inv' str' show ?thesis by (simp add: Buffer_remove_prefix_def)
    qed
  qed
qed

interpretation buf: discards_front buf_inv Buffer_str Buffer_remove_prefix
proof unfold_locales
  fix b and n :: size_t assume "buf_inv b" and "length (Buffer_str b) < unat n"
  then show "\<exists>m. Buffer_remove_prefix n b = Inl (OutOfRange m)"
    using Buffer_str_fits [of b]
    by (simp add: Buffer_remove_prefix_def Buffer_size_def word_less_nat_alt)
qed (simp_all add: Buffer_str_fits Buffer_removes)

section \<open>Lists of buffers implement it\<close>

text \<open>The contents of a list of pieces, and the invariant that it fits in memory.\<close>

definition bl_inv :: "BufferList \<Rightarrow> bool" where
  "bl_inv l \<longleftrightarrow> (\<forall>b \<in> set l. buf_inv b) \<and> fits (BufferList_concatenate l)"

lemma fold_append_map: "fold (\<lambda>x acc. acc @ f x) xs acc = acc @ concat (map f xs)"
  by (induction xs arbitrary: acc) auto

lemma BufferList_concatenate_eq: "BufferList_concatenate l = concat (map Buffer_str l)"
  by (simp add: BufferList_concatenate_def fold_append_map)

lemma BufferList_append_eq: "BufferList_append l other = l @ other"
  by (simp add: BufferList_append_def fold_append_map [where f = "\<lambda>x. [x]"])

lemma fold_sizes: "fold (\<lambda>x acc. acc + sz (f x)) xs n = n + sz (concat (map f xs))"
  by (induction xs arbitrary: n) (auto simp: sz_append)

lemma BufferList_size_eq: "BufferList_size l = sz (BufferList_concatenate l)"
  using fold_sizes [of Buffer_str l 0]
  by (simp add: BufferList_size_def Buffer_size_def BufferList_concatenate_eq)

lemma BufferViewList_size_eq: "BufferViewList_size l = sz (concat l)"
  using fold_sizes [of "\<lambda>x. x" l 0] by (simp add: BufferViewList_size_def)

lemma bl_inv_Cons:
  "bl_inv (b # l) \<Longrightarrow> buf_inv b \<and> fits (Buffer_str b) \<and> bl_inv l"
  by (auto simp: bl_inv_def BufferList_concatenate_eq fits_def)

lemma concatenate_Cons [simp]:
  "BufferList_concatenate [] = []"
  "BufferList_concatenate (b # l) = Buffer_str b @ BufferList_concatenate l"
  by (simp_all add: BufferList_concatenate_eq)

lemma BufferList_removes:
  assumes "bl_inv l" and "unat n \<le> length (BufferList_concatenate l)"
  shows "\<exists>l'. BufferList_remove_prefix n l = Inr l' \<and> bl_inv l'
    \<and> BufferList_concatenate l' = drop (unat n) (BufferList_concatenate l)"
  using assms
proof (induction n l rule: BufferList_remove_prefix.induct)
  case (1 n)
  then show ?case by (simp add: unat_eq_0 bl_inv_def)
next
  case (2 n b bs)
  note inv = bl_inv_Cons [OF 2(2)]
  consider "n = 0" | "n > 0" "n < sz (Buffer_str b)" | "n > 0" "\<not> n < sz (Buffer_str b)"
    using word_gt_0 [of n] by blast
  then show ?case
  proof cases
    case 1
    with 2(2) show ?thesis by simp
  next
    case 2
    then have lt: "unat n < length (Buffer_str b)" using inv by (simp add: word_less_nat_alt)
    obtain b' where b': "Buffer_remove_prefix n b = Inr b'" "buf_inv b'"
        "Buffer_str b' = drop (unat n) (Buffer_str b)"
      using buf.removes [of b n] inv lt by auto
    have "bl_inv (b' # bs)"
      using \<open>bl_inv (b # bs)\<close> b' by (auto simp: bl_inv_def fits_def)
    with 2 b' lt show ?thesis by simp
  next
    case 3
    then have le: "length (Buffer_str b) \<le> unat n" using inv by (simp add: word_less_nat_alt)
    then have "unat (n - sz (Buffer_str b)) = unat n - length (Buffer_str b)"
      using inv by (simp add: unat_sub_nowrap)
    with 3 2(1) inv le \<open>unat n \<le> length (BufferList_concatenate (b # bs))\<close> show ?thesis by simp
  qed
qed

lemma BufferList_refuses:
  assumes "bl_inv l" and "length (BufferList_concatenate l) < unat n"
  shows "BufferList_remove_prefix n l = Inl (OutOfRange ''BufferList::remove_prefix'')"
  using assms
proof (induction n l rule: BufferList_remove_prefix.induct)
  case (1 n)
  then show ?case by (simp add: word_less_nat_alt)
next
  case (2 n b bs)
  note inv = bl_inv_Cons [OF 2(2)]
  have n: "n > 0" "\<not> n < sz (Buffer_str b)" using 2(3) inv by (simp_all add: word_less_nat_alt)
  have "unat (n - sz (Buffer_str b)) = unat n - length (Buffer_str b)"
    using inv 2(3) by (simp add: unat_sub_nowrap)
  then show ?case using 2(1) [OF n] inv n 2(3) by simp
qed

interpretation blist: discards_front bl_inv BufferList_concatenate BufferList_remove_prefix
  by unfold_locales (auto simp: BufferList_removes BufferList_refuses, simp add: bl_inv_def)

text \<open>A view list mirrors a buffer list of the same contents, piece by piece.\<close>

lemma BufferViewList_removes:
  assumes "fits (concat l)" and "unat n \<le> length (concat l)"
  shows "\<exists>l'. BufferViewList_remove_prefix n l = Inr l' \<and> concat l' = drop (unat n) (concat l)"
  using assms
proof (induction n l rule: BufferViewList_remove_prefix.induct)
  case (1 n)
  then show ?case by (simp add: unat_eq_0)
next
  case (2 n v vs)
  have f: "fits v" "fits (concat vs)" using 2(2) by (simp_all add: fits_def)
  show ?case
  proof (cases "n > 0 \<and> \<not> n < sz v")
    case True
    then have "unat (n - sz v) = unat n - length v" "length v \<le> unat n"
      using f by (simp_all add: unat_sub_nowrap word_less_nat_alt)
    with True 2(1,3) f show ?thesis by simp
  next
    case False
    with f show ?thesis by (auto simp: word_less_nat_alt)
  qed
qed

lemma BufferViewList_refuses:
  assumes "fits (concat l)" and "length (concat l) < unat n"
  shows "BufferViewList_remove_prefix n l = Inl (OutOfRange ''BufferListView::remove_prefix'')"
  using assms
proof (induction n l rule: BufferViewList_remove_prefix.induct)
  case (1 n)
  then show ?case by (simp add: word_less_nat_alt)
next
  case (2 n v vs)
  have f: "fits v" "fits (concat vs)" using 2(2) by (simp_all add: fits_def)
  have n: "n > 0" "\<not> n < sz v" using 2(3) f by (simp_all add: word_less_nat_alt)
  have "unat (n - sz v) = unat n - length v"
    using f 2(3) by (simp add: unat_sub_nowrap)
  then show ?case using 2(1) [OF n] f n 2(3) by simp
qed

interpretation views: discards_front "\<lambda>l. fits (concat l)" concat BufferViewList_remove_prefix
proof unfold_locales
  fix l :: BufferViewList and n :: size_t
  assume "fits (concat l)" and "unat n \<le> length (concat l)"
  from BufferViewList_removes [OF this] \<open>fits (concat l)\<close>
  show "\<exists>l'. BufferViewList_remove_prefix n l = Inr l' \<and> fits (concat l')
      \<and> concat l' = drop (unat n) (concat l)"
    by auto
qed (auto simp: BufferViewList_refuses)

section \<open>Properties\<close>

text \<open>
  C9. Discarding \<open>n\<close> bytes from a buffer list either succeeds, and then the list holds
  exactly the bytes after the first \<open>n\<close>, its size is what is left, and a view of it has the
  same contents; or it throws, which happens exactly when \<open>n\<close> is larger than the list.
\<close>

theorem buffer_list_remove_prefix:
  assumes "bl_inv l"
  shows "if n \<le> BufferList_size l
    then \<exists>l'. BufferList_remove_prefix n l = Inr l' \<and> bl_inv l'
      \<and> BufferList_concatenate l' = drop (unat n) (BufferList_concatenate l)
      \<and> BufferList_size l' = BufferList_size l - n
      \<and> concat (BufferViewList_of l') = BufferList_concatenate l'
    else BufferList_remove_prefix n l = Inl (OutOfRange ''BufferList::remove_prefix'')"
proof -
  have fit: "fits (BufferList_concatenate l)" by (rule blist.str_fits [OF assms])
  show ?thesis
  proof (cases "n \<le> BufferList_size l")
    case True
    then have n: "unat n \<le> length (BufferList_concatenate l)"
      using fit by (simp add: BufferList_size_eq word_le_nat_alt)
    obtain l' where l': "BufferList_remove_prefix n l = Inr l'" "bl_inv l'"
        "BufferList_concatenate l' = drop (unat n) (BufferList_concatenate l)"
      using blist.removes [OF assms n] by blast
    have "BufferList_size l' = BufferList_size l - n"
      using fit n True l'(3)
      by (intro word_eq_unatI) (simp add: BufferList_size_eq unat_sub_nowrap)
    with l' True show ?thesis by (simp add: BufferViewList_of_def BufferList_concatenate_eq)
  next
    case False
    then have "length (BufferList_concatenate l) < unat n"
      using fit by (simp add: BufferList_size_eq word_le_nat_alt)
    with False BufferList_refuses [OF assms] show ?thesis by simp
  qed
qed

theorem buffer_list_remove_prefix_witness:
  "\<exists>l'. BufferList_remove_prefix 3 [Buffer_new [1, 2], Buffer_new [3, 4]] = Inr l'
    \<and> BufferList_concatenate l' = [4]"
proof -
  have "bl_inv [Buffer_new [1, 2], Buffer_new [3, 4]]" by (simp add: bl_inv_def fits_def)
  from buffer_list_remove_prefix [OF this, of 3] show ?thesis
    by (auto simp: BufferList_size_def Buffer_size_def fits_def sz_def)
qed

end
