(* ===== verification/TCP_Over_IP.thy ===== *)
theory TCP_Over_IP
  imports TCP_Segment IPv4 Address
begin

text \<open>
  The base of the datagram adapters and the layer between TCP and IP:
  \<^verbatim>\<open>src/libsponge/tcp_helpers/fd_adapter.hh\<close> (\<open>FdAdapterBase\<close>), \<^verbatim>\<open>tcp_config.hh\<close>
  (\<open>FdAdapterConfig\<close>) and \<^verbatim>\<open>tcp_over_ip.cc\<close>. Buffer lists are represented by their
  contents.
\<close>

section \<open>Configuration\<close>

record FdAdapterConfig =
  fc_source :: Address
  fc_destination :: Address
  fc_loss_rate_dn :: u16
  fc_loss_rate_up :: u16

definition FdAdapterConfig_new :: "Resolver \<Rightarrow> FdAdapterConfig result" where
  "FdAdapterConfig_new R =
     bindE (Address_of_ip R ''0'' 0) (\<lambda>source. bindE (Address_of_ip R ''0'' 0) (\<lambda>destination.
       Inr \<lparr>fc_source = source, fc_destination = destination, fc_loss_rate_dn = 0, fc_loss_rate_up = 0\<rparr>))"

record FdAdapterBase =
  fa_cfg :: FdAdapterConfig
  fa_listen :: bool

definition FdAdapterBase_new :: "Resolver \<Rightarrow> FdAdapterBase result" where
  "FdAdapterBase_new R = bindE (FdAdapterConfig_new R) (\<lambda>cfg. Inr \<lparr>fa_cfg = cfg, fa_listen = False\<rparr>)"

definition FdAdapterBase_set_listening :: "bool \<Rightarrow> FdAdapterBase \<Rightarrow> FdAdapterBase" where
  "FdAdapterBase_set_listening l a = a\<lparr>fa_listen := l\<rparr>"

definition FdAdapterBase_set_config :: "FdAdapterConfig \<Rightarrow> FdAdapterBase \<Rightarrow> FdAdapterBase" where
  "FdAdapterBase_set_config c a = a\<lparr>fa_cfg := c\<rparr>"

definition FdAdapterBase_tick :: "size_t \<Rightarrow> FdAdapterBase \<Rightarrow> FdAdapterBase" where
  "FdAdapterBase_tick ms a = a"

section \<open>From IP to TCP\<close>

text \<open>
  A listening adapter takes the sender of the first SYN as its peer, and the address the
  datagram was sent to as its own; \<open>None\<close> is the early return for any other segment.
\<close>

definition accept_peer :: "Resolver \<Rightarrow> IPv4Header \<Rightarrow> TCPHeader \<Rightarrow> FdAdapterBase \<Rightarrow> FdAdapterBase option result" where
  "accept_peer R ip tcp a =
     (if fa_listen a then
        if th_syn tcp \<and> \<not> th_rst tcp then
          bindE (Address_port R (fc_source (fa_cfg a))) (\<lambda>port.
          bindE (Address_of_ip R (inet_ntoa R (ip_dst ip)) port) (\<lambda>source.
            let a = a\<lparr>fa_cfg := (fa_cfg a)\<lparr>fc_source := source\<rparr>\<rparr>
            in bindE (Address_of_ip R (inet_ntoa R (ip_src ip)) (th_sport tcp)) (\<lambda>destination.
                 let a = a\<lparr>fa_cfg := (fa_cfg a)\<lparr>fc_destination := destination\<rparr>\<rparr>
                 in Inr (Some (FdAdapterBase_set_listening False a)))))
        else Inr None
      else Inr (Some a))"

definition TCPOverIPv4Adapter_unwrap_tcp_in_ip ::
  "Resolver \<Rightarrow> IPv4Datagram \<Rightarrow> FdAdapterBase \<Rightarrow> (TCPSegment option \<times> FdAdapterBase) result" where
  "TCPOverIPv4Adapter_unwrap_tcp_in_ip R ip_dgram a =
     (let h = dg_header ip_dgram
      in bindE (if fa_listen a then Inr False
                else bindE (Address_ipv4_numeric (fc_source (fa_cfg a))) (\<lambda>ip. Inr (ip_dst h \<noteq> ip))) (\<lambda>not_for_us.
         if not_for_us then Inr (None, a)
         else bindE (if fa_listen a then Inr False
                else bindE (Address_ipv4_numeric (fc_destination (fa_cfg a))) (\<lambda>ip. Inr (ip_src h \<noteq> ip))) (\<lambda>not_from_peer.
         if not_from_peer then Inr (None, a)
         else if ip_proto h \<noteq> PROTO_TCP then Inr (None, a)
         else
           let (res, tcp_seg) = TCPSegment_parse TCPSegment_new (dg_payload ip_dgram) (IPv4Header_pseudo_cksum h)
           in if res \<noteq> NoError then Inr (None, a)
              else bindE (Address_port R (fc_source (fa_cfg a))) (\<lambda>port.
                if th_dport (ts_header tcp_seg) \<noteq> port then Inr (None, a)
                else bindE (accept_peer R h (ts_header tcp_seg) a) (\<lambda>accepted.
                  case accepted of
                    None \<Rightarrow> Inr (None, a)
                  | Some a \<Rightarrow>
                      bindE (Address_port R (fc_destination (fa_cfg a))) (\<lambda>port.
                        if th_sport (ts_header tcp_seg) \<noteq> port then Inr (None, a)
                        else Inr (Some tcp_seg, a)))))))"

section \<open>From TCP to IP\<close>

definition TCPSegment_set_ports :: "u16 \<Rightarrow> u16 \<Rightarrow> TCPSegment \<Rightarrow> TCPSegment" where
  "TCPSegment_set_ports sport dport seg =
     seg\<lparr>ts_header := (ts_header seg)\<lparr>th_sport := sport, th_dport := dport\<rparr>\<rparr>"

definition TCPOverIPv4Adapter_wrap_tcp_in_ip ::
  "Resolver \<Rightarrow> TCPSegment \<Rightarrow> FdAdapterBase \<Rightarrow> (IPv4Datagram \<times> TCPSegment) result" where
  "TCPOverIPv4Adapter_wrap_tcp_in_ip R seg a =
     bindE (Address_port R (fc_source (fa_cfg a))) (\<lambda>sport.
     bindE (Address_port R (fc_destination (fa_cfg a))) (\<lambda>dport.
       let seg = TCPSegment_set_ports sport dport seg
       in bindE (Address_ipv4_numeric (fc_source (fa_cfg a))) (\<lambda>src.
          bindE (Address_ipv4_numeric (fc_destination (fa_cfg a))) (\<lambda>dst.
            let h = (dg_header IPv4Datagram_new)\<lparr>ip_src := src, ip_dst := dst\<rparr>;
                len = ucast (ip_hlen h) * 4 + ucast (th_doff (ts_header seg)) * 4 + sz (ts_payload seg) :: size_t;
                h = h\<lparr>ip_len := ucast len\<rparr>
            in bindE (TCPSegment_serialize seg (IPv4Header_pseudo_cksum h)) (\<lambda>payload.
                 Inr (\<lparr>dg_header = h, dg_payload = payload\<rparr>, seg))))))"

section \<open>A segment crosses the network layer\<close>

text \<open>
  An adapter of a connection between two IPv4 endpoints, and one that listens on a port.
\<close>

definition connected_to :: "u32 \<Rightarrow> u16 \<Rightarrow> u32 \<Rightarrow> u16 \<Rightarrow> FdAdapterBase \<Rightarrow> bool" where
  "connected_to ip port ip' port' a \<longleftrightarrow> \<not> fa_listen a \<and> fc_source (fa_cfg a) = ipv4_address ip port
     \<and> fc_destination (fa_cfg a) = ipv4_address ip' port'"

definition listens_on :: "u16 \<Rightarrow> FdAdapterBase \<Rightarrow> bool" where
  "listens_on port a \<longleftrightarrow> fa_listen a \<and> (\<exists>ip. fc_source (fa_cfg a) = ipv4_address ip port)"

text \<open>A segment that fits into one datagram.\<close>

definition seg_fits :: "TCPSegment \<Rightarrow> bool" where
  "seg_fits seg \<longleftrightarrow> th_wf (ts_header seg) \<and> length (ts_payload seg) \<le> 65000"

definition datagram_len :: "TCPSegment \<Rightarrow> nat" where
  "datagram_len seg = 20 + 4 * unat (th_doff (ts_header seg)) + length (ts_payload seg)"

definition tcp_datagram :: "u32 \<Rightarrow> u32 \<Rightarrow> TCPSegment \<Rightarrow> IPv4Datagram" where
  "tcp_datagram src dst seg =
     (let h = (dg_header IPv4Datagram_new)\<lparr>ip_src := src, ip_dst := dst,
            ip_len := word_of_nat (datagram_len seg)\<rparr>
      in \<lparr>dg_header = h,
          dg_payload = tcp_wire (ts_header (seg_sealed seg (IPv4Header_pseudo_cksum h))) @ ts_payload seg\<rparr>)"

definition arrived :: "u32 \<Rightarrow> u32 \<Rightarrow> TCPSegment \<Rightarrow> TCPSegment" where
  "arrived src dst seg = seg_sealed seg (IPv4Header_pseudo_cksum (dg_header (tcp_datagram src dst seg)))"

lemma half_words:
  fixes x :: u32
  shows "unat (drop_bit 16 x) \<le> 65535" "unat (x AND 0xffff) \<le> 65535"
proof -
  have "unat (drop_bit 16 x) = unat x div 65536" by (simp add: drop_bit_eq_div unat_div_distrib)
  then show "unat (drop_bit 16 x) \<le> 65535"
    using unsigned_less [of x, where 'a = nat] by simp
  have "x AND 0xffff = take_bit 16 x" by (simp add: take_bit_eq_mask mask_eq_exp_minus_1)
  then show "unat (x AND 0xffff) \<le> 65535" by (simp add: unsigned_take_bit_eq take_bit_nat_eq_self_iff) (simp add: take_bit_nat_def)
qed

lemma unat_sum_le:
  fixes a b :: u32
  assumes "unat a \<le> m" and "unat b \<le> n" and "m + n < 2 ^ 32"
  shows "unat (a + b) \<le> m + n"
  using assms by (simp add: unat_word_ariths)

lemma pseudo_cksum_bound: "unat (IPv4Header_pseudo_cksum h) < 2 ^ 20"
proof -
  have "unat (ucast (ip_proto h) :: u32) \<le> 255" using unat_u8_bound [of "ip_proto h"] by (simp add: unat_ucast_up)
  moreover have "unat (ucast (IPv4Header_payload_length h) :: u32) \<le> 65535"
    using unsigned_less [of "IPv4Header_payload_length h", where 'a = nat] by (simp add: unat_ucast_up)
  moreover have "unat (drop_bit 16 (ip_src h) + (ip_src h AND 0xffff)) \<le> 65535 + 65535"
    "unat (drop_bit 16 (ip_dst h) + (ip_dst h AND 0xffff)) \<le> 65535 + 65535"
    by (rule unat_sum_le [OF half_words]; simp)+
  ultimately have "unat (IPv4Header_pseudo_cksum h) \<le> 65535 + 65535 + (65535 + 65535) + 255 + 65535"
    unfolding IPv4Header_pseudo_cksum_def Let_def by (intro unat_sum_le) (simp_all add: half_words)
  then show ?thesis by simp
qed

lemma pseudo_cksum_sealed [simp]: "IPv4Header_pseudo_cksum (h\<lparr>ip_cksum := c\<rparr>) = IPv4Header_pseudo_cksum h"
  by (simp add: IPv4Header_pseudo_cksum_def IPv4Header_payload_length_def)

lemma datagram_len_small: "seg_fits seg \<Longrightarrow> datagram_len seg < 2 ^ 16"
  by (simp add: seg_fits_def th_wf_def datagram_len_def)

lemma tcp_datagram_len:
  assumes "seg_fits seg"
  shows "unat (ip_len (dg_header (tcp_datagram src dst seg))) = datagram_len seg"
  using datagram_len_small [OF assms] by (simp add: tcp_datagram_def Let_def unat_of_nat)

lemma tcp_datagram_ok:
  assumes "seg_fits seg"
  shows "dg_ok (tcp_datagram src dst seg)"
proof -
  have "th_wf (ts_header (seg_sealed seg ck))" for ck using assms by (simp add: seg_fits_def seg_sealed_def)
  from length_tcp_wire [OF this] show ?thesis
    using tcp_datagram_len [OF assms, of src dst]
    by (simp add: dg_ok_def datagram_len_def ip_wf_def tcp_datagram_def Let_def IPv4Datagram_new_def IPv4Header_new_def seg_sealed_def)
qed

lemma set_ports_fits [simp]: "seg_fits (TCPSegment_set_ports p q seg) = seg_fits seg"
  by (simp add: seg_fits_def TCPSegment_set_ports_def th_wf_def)

lemma set_ports_simps [simp]:
  "ts_payload (TCPSegment_set_ports p q seg) = ts_payload seg"
  "th_doff (ts_header (TCPSegment_set_ports p q seg)) = th_doff (ts_header seg)"
  "th_sport (ts_header (TCPSegment_set_ports p q seg)) = p" "th_dport (ts_header (TCPSegment_set_ports p q seg)) = q"
  "th_syn (ts_header (TCPSegment_set_ports p q seg)) = th_syn (ts_header seg)"
  "th_rst (ts_header (TCPSegment_set_ports p q seg)) = th_rst (ts_header seg)"
  by (simp_all add: TCPSegment_set_ports_def)

lemma wrap_eq:
  assumes "resolver_ok R" and "connected_to ip port ip' port' a" and "seg_fits seg"
  shows "TCPOverIPv4Adapter_wrap_tcp_in_ip R seg a =
    Inr (tcp_datagram ip ip' (TCPSegment_set_ports port port' seg), TCPSegment_set_ports port port' seg)"
proof -
  let ?seg = "TCPSegment_set_ports port port' seg"
  let ?len = "ucast (5 :: u8) * 4 + ucast (th_doff (ts_header seg)) * 4 + sz (ts_payload seg) :: size_t"
  have "unat (ucast (5 :: u8) * 4 + ucast (th_doff (ts_header seg)) * 4 :: size_t) = 20 + 4 * unat (th_doff (ts_header seg))"
    using assms(3) by (subst unat_add_nowrap) (simp_all add: unat_4doff seg_fits_def th_wf_def)
  then have "unat ?len = datagram_len ?seg"
    using assms(3) by (subst unat_add_nowrap) (simp_all add: seg_fits_def th_wf_def fits_def datagram_len_def)
  then have "(ucast ?len :: u16) = word_of_nat (datagram_len ?seg)"
    by (metis of_nat_unat)
  moreover have "th_wf (ts_header ?seg)" using assms(3) by (simp add: seg_fits_def th_wf_def)
  ultimately show ?thesis
    using assms(1,2)
    by (simp add: TCPOverIPv4Adapter_wrap_tcp_in_ip_def connected_to_def Let_def tcp_datagram_def
        IPv4Datagram_new_def IPv4Header_new_def TCPSegment_serialize_eq)
qed

lemma arrived_parse:
  assumes "seg_fits seg"
  shows "TCPSegment_parse seg0 (dg_payload (dg_sealed (tcp_datagram src dst seg)))
      (IPv4Header_pseudo_cksum (dg_header (dg_sealed (tcp_datagram src dst seg)))) = (NoError, arrived src dst seg)"
proof -
  let ?ck = "IPv4Header_pseudo_cksum (dg_header (tcp_datagram src dst seg))"
  have "seg_ok seg ?ck" using assms pseudo_cksum_bound by (simp add: seg_ok_def seg_fits_def)
  from TCPSegment_roundtrip [OF this] show ?thesis
    by (simp add: arrived_def dg_sealed_def) (simp add: tcp_datagram_def Let_def)
qed

lemma tcp_datagram_header [simp]:
  "ip_src (dg_header (dg_sealed (tcp_datagram src dst seg))) = src"
  "ip_dst (dg_header (dg_sealed (tcp_datagram src dst seg))) = dst"
  "ip_proto (dg_header (dg_sealed (tcp_datagram src dst seg))) = PROTO_TCP"
  by (simp_all add: dg_sealed_def tcp_datagram_def Let_def IPv4Datagram_new_def IPv4Header_new_def)

lemma arrived_header [simp]:
  "th_sport (ts_header (arrived src dst seg)) = th_sport (ts_header seg)"
  "th_dport (ts_header (arrived src dst seg)) = th_dport (ts_header seg)"
  "th_syn (ts_header (arrived src dst seg)) = th_syn (ts_header seg)"
  "th_rst (ts_header (arrived src dst seg)) = th_rst (ts_header seg)"
  by (simp_all add: arrived_def seg_sealed_def)

text \<open>What a connected adapter makes of any datagram.\<close>

definition related :: "u32 \<Rightarrow> u16 \<Rightarrow> u32 \<Rightarrow> u16 \<Rightarrow> IPv4Datagram \<Rightarrow> bool" where
  "related ip port ip' port' d \<longleftrightarrow>
     (let h = dg_header d; (res, seg) = TCPSegment_parse TCPSegment_new (dg_payload d) (IPv4Header_pseudo_cksum h)
      in ip_dst h = ip \<and> ip_src h = ip' \<and> ip_proto h = PROTO_TCP \<and> res = NoError
         \<and> th_dport (ts_header seg) = port \<and> th_sport (ts_header seg) = port')"

lemma unwrap_connected:
  assumes "resolver_ok R" and "connected_to ip port ip' port' a"
  shows "TCPOverIPv4Adapter_unwrap_tcp_in_ip R d a =
    Inr (if related ip port ip' port' d
         then Some (snd (TCPSegment_parse TCPSegment_new (dg_payload d) (IPv4Header_pseudo_cksum (dg_header d)))) else None, a)"
  using assms
  by (auto simp: TCPOverIPv4Adapter_unwrap_tcp_in_ip_def connected_to_def related_def accept_peer_def Let_def
      split: prod.splits)

lemma unwrap_listening:
  assumes "resolver_ok R" and "listens_on port a"
    and "TCPSegment_parse TCPSegment_new (dg_payload d) (IPv4Header_pseudo_cksum (dg_header d)) = (res, seg)"
  shows "TCPOverIPv4Adapter_unwrap_tcp_in_ip R d a =
    (if ip_proto (dg_header d) = PROTO_TCP \<and> res = NoError \<and> th_dport (ts_header seg) = port
        \<and> th_syn (ts_header seg) \<and> \<not> th_rst (ts_header seg)
     then Inr (Some seg, \<lparr>fa_cfg = (fa_cfg a)\<lparr>fc_source := ipv4_address (ip_dst (dg_header d)) port,
         fc_destination := ipv4_address (ip_src (dg_header d)) (th_sport (ts_header seg))\<rparr>, fa_listen = False\<rparr>)
     else Inr (None, a))"
  using assms(1,2) assms(3)
  by (cases a) (auto simp: TCPOverIPv4Adapter_unwrap_tcp_in_ip_def listens_on_def accept_peer_def Let_def of_ip_eq
      FdAdapterBase_set_listening_def)

section \<open>Properties\<close>

text \<open>
  C33. A segment that an adapter wraps reaches the adapter at the other end. Wrapping never
  throws, the datagram can be serialized, and parsing the bytes and unwrapping the datagram
  gives the segment with the port numbers of the connection and its checksum; the adapter
  that receives is either connected to the sender and stays as it is, or it listens on the
  port, the segment opens a connection, and it is then connected to the sender.
\<close>

theorem segment_crosses_ip:
  assumes "resolver_ok R" and "connected_to ip port ip' port' a" and "seg_fits seg"
    and "connected_to ip' port' ip port b \<or> (listens_on port' b \<and> th_syn (ts_header seg) \<and> \<not> th_rst (ts_header seg))"
  shows "\<exists>d s b'. TCPOverIPv4Adapter_wrap_tcp_in_ip R seg a = Inr (d, TCPSegment_set_ports port port' seg)
    \<and> IPv4Datagram_serialize d = Inr s
    \<and> TCPOverIPv4Adapter_unwrap_tcp_in_ip R (snd (IPv4Datagram_parse IPv4Datagram_new s)) b
        = Inr (Some (arrived ip ip' (TCPSegment_set_ports port port' seg)), b')
    \<and> connected_to ip' port' ip port b' \<and> (\<not> fa_listen b \<longrightarrow> b' = b)"
proof -
  let ?seg = "TCPSegment_set_ports port port' seg" and ?d = "tcp_datagram ip ip' (TCPSegment_set_ports port port' seg)"
  have ok: "dg_ok ?d" using assms(3) by (simp add: tcp_datagram_ok)
  obtain s where s: "IPv4Datagram_serialize ?d = Inr s" using IPv4Datagram_serialize_eq [OF ok] by blast
  have parsed: "snd (IPv4Datagram_parse IPv4Datagram_new s) = dg_sealed ?d"
    using IPv4Datagram_roundtrip(1) [OF ok s] by simp
  have seg: "TCPSegment_parse TCPSegment_new (dg_payload (dg_sealed ?d)) (IPv4Header_pseudo_cksum (dg_header (dg_sealed ?d)))
      = (NoError, arrived ip ip' ?seg)"
    using assms(3) by (simp add: arrived_parse)
  show ?thesis
  proof (cases "connected_to ip' port' ip port b")
    case True
    then have "TCPOverIPv4Adapter_unwrap_tcp_in_ip R (dg_sealed ?d) b = Inr (Some (arrived ip ip' ?seg), b)"
      using unwrap_connected [OF assms(1)] seg by (simp add: related_def)
    then show ?thesis using wrap_eq [OF assms(1-3)] s parsed True by auto
  next
    case False
    then have b: "listens_on port' b" "th_syn (ts_header seg)" "\<not> th_rst (ts_header seg)" using assms(4) by auto
    show ?thesis
      using wrap_eq [OF assms(1-3)] s parsed b unwrap_listening [OF assms(1) b(1) seg]
      by (auto simp: connected_to_def listens_on_def)
  qed
qed

text \<open>Two endpoints of a connection, and a listener.\<close>

definition example_adapter :: "u32 \<Rightarrow> u16 \<Rightarrow> u32 \<Rightarrow> u16 \<Rightarrow> FdAdapterBase" where
  "example_adapter ip port ip' port' = \<lparr>fa_cfg = \<lparr>fc_source = ipv4_address ip port, fc_destination = ipv4_address ip' port',
     fc_loss_rate_dn = 0, fc_loss_rate_up = 0\<rparr>, fa_listen = False\<rparr>"

lemma example_adapter_connected: "connected_to ip port ip' port' (example_adapter ip port ip' port')"
  by (simp add: connected_to_def example_adapter_def)

lemma example_adapter_listens: "listens_on port (FdAdapterBase_set_listening True (example_adapter ip port ip' port'))"
  by (auto simp: listens_on_def example_adapter_def FdAdapterBase_set_listening_def)

theorem segment_crosses_ip_witness:
  "\<exists>d s b'. TCPOverIPv4Adapter_wrap_tcp_in_ip decimal_resolver (TCPSegment_new\<lparr>ts_payload := [1, 2, 3]\<rparr>) (example_adapter 1 80 2 90)
      = Inr (d, TCPSegment_set_ports 80 90 (TCPSegment_new\<lparr>ts_payload := [1, 2, 3]\<rparr>)) \<and> IPv4Datagram_serialize d = Inr s
    \<and> TCPOverIPv4Adapter_unwrap_tcp_in_ip decimal_resolver (snd (IPv4Datagram_parse IPv4Datagram_new s)) (example_adapter 2 90 1 80)
      = Inr (Some (arrived 1 2 (TCPSegment_set_ports 80 90 (TCPSegment_new\<lparr>ts_payload := [1, 2, 3]\<rparr>))), b')"
proof -
  have "seg_fits (TCPSegment_new\<lparr>ts_payload := [1, 2, 3]\<rparr>)"
    by (simp add: seg_fits_def th_wf_def TCPSegment_new_def TCPHeader_new_def)
  from segment_crosses_ip [OF decimal_resolver_ok example_adapter_connected this disjI1 [OF example_adapter_connected]]
  show ?thesis by blast
qed

text \<open>
  C34. An adapter hands up only what belongs to its connection. Connected, it returns the
  segment of a datagram exactly when the addresses, the protocol and both ports are those
  of the connection and the segment parses, and it never changes. Listening, it returns
  nothing and keeps listening unless the datagram holds a segment to its port with SYN and
  without RST, in which case it becomes connected to the sender. It never throws.
\<close>

theorem adapter_filters:
  assumes "resolver_ok R"
    and "TCPSegment_parse TCPSegment_new (dg_payload d) (IPv4Header_pseudo_cksum (dg_header d)) = (res, seg)"
  shows "(connected_to ip port ip' port' a \<longrightarrow> TCPOverIPv4Adapter_unwrap_tcp_in_ip R d a =
      Inr (if ip_dst (dg_header d) = ip \<and> ip_src (dg_header d) = ip' \<and> ip_proto (dg_header d) = PROTO_TCP \<and> res = NoError
             \<and> th_dport (ts_header seg) = port \<and> th_sport (ts_header seg) = port' then Some seg else None, a))
    \<and> (listens_on port b \<longrightarrow>
        (if ip_proto (dg_header d) = PROTO_TCP \<and> res = NoError \<and> th_dport (ts_header seg) = port
           \<and> th_syn (ts_header seg) \<and> \<not> th_rst (ts_header seg)
         then \<exists>b'. TCPOverIPv4Adapter_unwrap_tcp_in_ip R d b = Inr (Some seg, b')
           \<and> connected_to (ip_dst (dg_header d)) port (ip_src (dg_header d)) (th_sport (ts_header seg)) b'
         else TCPOverIPv4Adapter_unwrap_tcp_in_ip R d b = Inr (None, b)))"
proof
  show "connected_to ip port ip' port' a \<longrightarrow> TCPOverIPv4Adapter_unwrap_tcp_in_ip R d a =
      Inr (if ip_dst (dg_header d) = ip \<and> ip_src (dg_header d) = ip' \<and> ip_proto (dg_header d) = PROTO_TCP \<and> res = NoError
             \<and> th_dport (ts_header seg) = port \<and> th_sport (ts_header seg) = port' then Some seg else None, a)"
    using unwrap_connected [OF assms(1), of ip port ip' port' a d] assms(2) by (simp add: related_def Let_def)
qed (use unwrap_listening [OF assms(1) _ assms(2)] in \<open>auto simp: connected_to_def\<close>)

theorem adapter_filters_witness:
  "TCPOverIPv4Adapter_unwrap_tcp_in_ip decimal_resolver (IPv4Datagram_new\<lparr>dg_payload := [1, 2, 3]\<rparr>)
      (FdAdapterBase_set_listening True (example_adapter 1 80 2 90))
    = Inr (None, FdAdapterBase_set_listening True (example_adapter 1 80 2 90))"
proof -
  let ?d = "IPv4Datagram_new\<lparr>dg_payload := [1, 2, 3]\<rparr>"
  obtain res seg where seg: "TCPSegment_parse TCPSegment_new (dg_payload ?d) (IPv4Header_pseudo_cksum (dg_header ?d)) = (res, seg)"
    by force
  have "fst (TCPSegment_parse TCPSegment_new (dg_payload ?d) (IPv4Header_pseudo_cksum (dg_header ?d))) \<noteq> NoError"
    by code_simp
  then have "res \<noteq> NoError" using seg by simp
  then show ?thesis
    using adapter_filters [OF decimal_resolver_ok seg, where port = 80
        and b = "FdAdapterBase_set_listening True (example_adapter 1 80 2 90)"]
      example_adapter_listens by simp
qed

end
