(* ===== verification/File_Descriptor.thy ===== *)
theory File_Descriptor
  imports Buffers
begin

unbundle bit_operations_syntax

text \<open>
  File descriptors: \<^verbatim>\<open>src/libsponge/util/file_descriptor.hh\<close> and \<^verbatim>\<open>.cc\<close>, with the wrapper
  \<open>SystemCall\<close> of \<^verbatim>\<open>util.cc\<close>. A \<^verbatim>\<open>FileDescriptor\<close> is a shared pointer to an
  \<open>FDWrapper\<close>; the methods are functions on the wrapper. The operating system is a
  parameter: a record of system calls on a state of its own type \<open>'k\<close>, each of which
  returns its value, the value of \<open>errno\<close> and the new state. What the theorems need of a
  call is stated as a predicate on that record.
\<close>

section \<open>The operating system\<close>

record pollfd =
  pfd_fd :: int
  pfd_events :: u16
  pfd_revents :: u16

record 'k Syscalls =
  sys_read :: "int \<Rightarrow> size_t \<Rightarrow> 'k \<Rightarrow> (int \<times> int \<times> bytes) \<times> 'k"
  sys_writev :: "int \<Rightarrow> (bytes \<times> size_t) list \<Rightarrow> 'k \<Rightarrow> (int \<times> int) \<times> 'k"
  sys_close :: "int \<Rightarrow> 'k \<Rightarrow> (int \<times> int) \<times> 'k"
  sys_fcntl :: "int \<Rightarrow> int \<Rightarrow> int \<Rightarrow> 'k \<Rightarrow> (int \<times> int) \<times> 'k"
  sys_shutdown :: "int \<Rightarrow> int \<Rightarrow> 'k \<Rightarrow> (int \<times> int) \<times> 'k"
  sys_poll :: "pollfd list \<Rightarrow> int \<Rightarrow> 'k \<Rightarrow> (int \<times> int \<times> pollfd list) \<times> 'k"
  sys_recvfrom :: "int \<Rightarrow> size_t \<Rightarrow> 'k \<Rightarrow> (int \<times> int \<times> bytes \<times> bytes \<times> u32) \<times> 'k"
  sys_sendmsg :: "int \<Rightarrow> bytes \<Rightarrow> u32 \<Rightarrow> (bytes \<times> size_t) list \<Rightarrow> 'k \<Rightarrow> (int \<times> int) \<times> 'k"
  sys_clock :: "'k \<Rightarrow> u64 \<times> 'k"
  sys_socket :: "int \<Rightarrow> int \<Rightarrow> 'k \<Rightarrow> (int \<times> int) \<times> 'k"
  sys_socketpair :: "int \<Rightarrow> 'k \<Rightarrow> (int \<times> int \<times> int \<times> int) \<times> 'k"
  sys_getsockopt :: "int \<Rightarrow> int \<Rightarrow> 'k \<Rightarrow> (int \<times> int \<times> int \<times> int) \<times> 'k"
  sys_setsockopt :: "int \<Rightarrow> int \<Rightarrow> int \<Rightarrow> int \<Rightarrow> 'k \<Rightarrow> (int \<times> int) \<times> 'k"
  sys_name :: "string \<Rightarrow> int \<Rightarrow> 'k \<Rightarrow> (int \<times> int \<times> bytes \<times> u32) \<times> 'k"
  sys_bind :: "int \<Rightarrow> bytes \<Rightarrow> u32 \<Rightarrow> 'k \<Rightarrow> (int \<times> int) \<times> 'k"
  sys_connect :: "int \<Rightarrow> bytes \<Rightarrow> u32 \<Rightarrow> 'k \<Rightarrow> (int \<times> int) \<times> 'k"
  sys_listen :: "int \<Rightarrow> int \<Rightarrow> 'k \<Rightarrow> (int \<times> int) \<times> 'k"
  sys_accept :: "int \<Rightarrow> 'k \<Rightarrow> (int \<times> int) \<times> 'k"

text \<open>
  The return value is converted to an \<^verbatim>\<open>int\<close>; a negative one raises \<open>UnixError\<close> unless
  \<open>errno\<close> is the masked value.
\<close>

definition SystemCall :: "string \<Rightarrow> int \<Rightarrow> int \<Rightarrow> int \<Rightarrow> int result" where
  "SystemCall attempt return_value errno errno_mask =
     (let return_value = signed_take_bit 31 return_value
      in if 0 \<le> return_value \<or> errno = errno_mask then Inr return_value
         else Inl (UnixError attempt errno))"

section \<open>Descriptors\<close>

record FDWrapper =
  fd_num :: int
  fd_eof :: bool
  fd_closed :: bool
  fd_read_count :: u32
  fd_write_count :: u32

definition FDWrapper_new :: "int \<Rightarrow> FDWrapper result" where
  "FDWrapper_new fd =
     (if fd < 0 then Inl (RuntimeError ''invalid fd number'')
      else Inr \<lparr>fd_num = fd, fd_eof = False, fd_closed = False, fd_read_count = 0, fd_write_count = 0\<rparr>)"

definition FDWrapper_close :: "'k Syscalls \<Rightarrow> FDWrapper \<Rightarrow> 'k \<Rightarrow> (FDWrapper \<times> 'k) result" where
  "FDWrapper_close K w k =
     (let ((ret, errno), k) = sys_close K (fd_num w) k
      in bindE (SystemCall ''close'' ret errno 0) (\<lambda>_. Inr (w\<lparr>fd_eof := True, fd_closed := True\<rparr>, k)))"

definition FDWrapper_destroy :: "'k Syscalls \<Rightarrow> FDWrapper \<Rightarrow> 'k \<Rightarrow> 'k" where
  "FDWrapper_destroy K w k =
     (if fd_closed w then k
      else case FDWrapper_close K w k of Inl _ \<Rightarrow> snd (sys_close K (fd_num w) k) | Inr (_, k) \<Rightarrow> k)"

definition FileDescriptor_register_read :: "FDWrapper \<Rightarrow> FDWrapper" where
  "FileDescriptor_register_read w = w\<lparr>fd_read_count := fd_read_count w + 1\<rparr>"

definition FileDescriptor_register_write :: "FDWrapper \<Rightarrow> FDWrapper" where
  "FileDescriptor_register_write w = w\<lparr>fd_write_count := fd_write_count w + 1\<rparr>"

definition BUFFER_SIZE :: size_t where
  "BUFFER_SIZE = 1024 * 1024"

definition FileDescriptor_read :: "'k Syscalls \<Rightarrow> size_t \<Rightarrow> FDWrapper \<Rightarrow> 'k \<Rightarrow> (bytes \<times> FDWrapper \<times> 'k) result" where
  "FileDescriptor_read K limit w k =
     (let size_to_read = min BUFFER_SIZE limit;
          ((ret, errno, str), k) = sys_read K (fd_num w) size_to_read k
      in bindE (SystemCall ''read'' ret errno 0) (\<lambda>bytes_read.
           let w = (if limit > 0 \<and> bytes_read = 0 then w\<lparr>fd_eof := True\<rparr> else w)
           in if bytes_read > sint size_to_read then Inl (RuntimeError ''read() read more than requested'')
              else Inr (take (nat bytes_read) str, FileDescriptor_register_read w, k)))"

text \<open>
  The loop of \<^verbatim>\<open>write\<close>: one \<open>writev\<close> with everything that is left; without
  \<open>write_all\<close> it runs once.
\<close>

lemma BufferViewList_remove_prefix_decreases:
  "BufferViewList_remove_prefix n l = Inr l' \<Longrightarrow> n \<noteq> 0 \<Longrightarrow> length (concat l') < length (concat l)"
proof (induction n l arbitrary: l' rule: BufferViewList_remove_prefix.induct)
  case (2 n v vs)
  consider "n < sz v" | "\<not> n < sz v" "n = sz v" | "\<not> n < sz v" "n \<noteq> sz v" by blast
  then show ?case
  proof cases
    case 1
    with 2(2,3) have "l' = drop (unat n) v # vs" by (auto simp: word_gt_0)
    moreover have "0 < unat n" "unat n \<le> length v"
      using 2(3) 1 unat_sz_le [of v] by (auto simp: unat_gt_0 word_less_nat_alt)
    ultimately show ?thesis by simp
  next
    case 2
    with "2.prems" have "v \<noteq> []" by auto
    moreover have "l' = vs"
      using 2 "2.prems" by (cases vs) (auto simp: word_gt_0)
    ultimately show ?thesis by simp
  next
    case 3
    with 2 have "BufferViewList_remove_prefix (n - sz v) vs = Inr l'" by (auto simp: word_gt_0)
    then have "length (concat l') < length (concat vs)" using 2 3 by (auto simp: word_gt_0)
    then show ?thesis by simp
  qed
qed (auto split: if_splits simp: word_gt_0)

lemma BufferViewList_remove_none [simp]: "BufferViewList_remove_prefix 0 l = Inr l"
  by (cases l) auto

definition write_step :: "'k Syscalls \<Rightarrow> BufferViewList \<Rightarrow> FDWrapper \<Rightarrow> 'k \<Rightarrow> (size_t \<times> BufferViewList \<times> FDWrapper \<times> 'k) result" where
  "write_step K buffer w k =
     (let ((ret, errno), k) = sys_writev K (fd_num w) (BufferViewList_as_iovecs buffer) k
      in bindE (SystemCall ''writev'' ret errno 0) (\<lambda>bytes_written.
           if bytes_written = 0 \<and> BufferViewList_size buffer \<noteq> 0
           then Inl (RuntimeError ''write returned 0 given non-empty input buffer'')
           else if bytes_written > sint (BufferViewList_size buffer)
           then Inl (RuntimeError ''write wrote more than length of input buffer'')
           else bindE (BufferViewList_remove_prefix (word_of_int bytes_written) buffer) (\<lambda>buffer.
             Inr (word_of_int bytes_written, buffer, FileDescriptor_register_write w, k))))"

lemma SystemCall_range: "SystemCall a ret errno m = Inr r \<Longrightarrow> - (2 ^ 31) \<le> r \<and> r < 2 ^ 31"
  using signed_take_bit_int_greater_eq_minus_exp [of 31 ret] signed_take_bit_int_less_exp [of 31 ret]
  by (auto simp: SystemCall_def Let_def split: if_splits)

lemma word_of_int_eq_0: "- (2 ^ 31) \<le> r \<Longrightarrow> r < 2 ^ 31 \<Longrightarrow> (word_of_int r :: size_t) = 0 \<Longrightarrow> r = 0"
proof -
  assume r: "- (2 ^ 31) \<le> r" "r < 2 ^ 31" and "(word_of_int r :: size_t) = 0"
  then have "sint (word_of_int r :: size_t) = 0" by simp
  moreover have "sint (word_of_int r :: size_t) = r"
    using r by (simp add: sint_sbintrunc' signed_take_bit_int_eq_self)
  ultimately show "r = 0" by simp
qed

lemma write_step_decreases:
  assumes "write_step K buffer w k = Inr (n, buffer', w', k')" and "BufferViewList_size buffer' \<noteq> 0"
  shows "length (concat buffer') < length (concat buffer)"
proof -
  obtain ret errno k1 r where r: "SystemCall ''writev'' ret errno 0 = Inr r"
    and zero: "\<not> (r = 0 \<and> BufferViewList_size buffer \<noteq> 0)"
    and rest: "BufferViewList_remove_prefix (word_of_int r) buffer = Inr buffer'"
    using assms(1) unfolding write_step_def
    by (auto simp: Let_def bindE_Inr_iff split: prod.splits if_splits)
  show ?thesis
  proof (cases "(word_of_int r :: size_t) = 0")
    case True
    then have "r = 0" using SystemCall_range [OF r] word_of_int_eq_0 by blast
    with zero rest assms(2) show ?thesis by auto
  next
    case False
    then show ?thesis using BufferViewList_remove_prefix_decreases [OF rest] by simp
  qed
qed

function write_loop :: "'k Syscalls \<Rightarrow> BufferViewList \<Rightarrow> bool \<Rightarrow> size_t \<Rightarrow> FDWrapper \<Rightarrow> 'k \<Rightarrow> (size_t \<times> FDWrapper \<times> 'k) result" where
  "write_loop K buffer write_all written w k =
     bindE (write_step K buffer w k) (\<lambda>(n, buffer, w, k).
       if write_all \<and> BufferViewList_size buffer \<noteq> 0 then write_loop K buffer write_all (written + n) w k
       else Inr (written + n, w, k))"
  by pat_completeness auto
termination
  by (relation "measure (\<lambda>(K, buffer, write_all, written, w, k). length (concat buffer))")
    (auto dest: write_step_decreases)

declare write_loop.simps [simp del]

definition FileDescriptor_write :: "'k Syscalls \<Rightarrow> BufferViewList \<Rightarrow> bool \<Rightarrow> FDWrapper \<Rightarrow> 'k \<Rightarrow> (size_t \<times> FDWrapper \<times> 'k) result" where
  "FileDescriptor_write K buffer write_all w k = write_loop K buffer write_all 0 w k"

definition F_GETFL :: int where "F_GETFL = 3"

definition F_SETFL :: int where "F_SETFL = 4"

definition O_NONBLOCK :: u32 where "O_NONBLOCK = 0x800"

definition FileDescriptor_set_blocking :: "'k Syscalls \<Rightarrow> bool \<Rightarrow> FDWrapper \<Rightarrow> 'k \<Rightarrow> 'k result" where
  "FileDescriptor_set_blocking K blocking_state w k =
     (let ((ret, errno), k) = sys_fcntl K (fd_num w) F_GETFL 0 k
      in bindE (SystemCall ''fcntl'' ret errno 0) (\<lambda>flags.
           let flags = (word_of_int flags :: u32);
               flags = (if blocking_state then flags XOR (flags AND O_NONBLOCK) else flags OR O_NONBLOCK);
               ((ret, errno), k) = sys_fcntl K (fd_num w) F_SETFL (sint flags) k
           in bindE (SystemCall ''fcntl'' ret errno 0) (\<lambda>_. Inr k)))"

section \<open>What a write does\<close>

text \<open>
  What the code relies on of \<open>writev\<close>: it takes a prefix of the bytes it is given, of the
  length it returns, which is at most \<^verbatim>\<open>INT_MAX\<close>, and a failure sets \<open>errno\<close>. \<open>sink\<close>
  reads from the state of the system what was written to the descriptor so far.
\<close>

definition writev_ok :: "'k Syscalls \<Rightarrow> int \<Rightarrow> ('k \<Rightarrow> bytes) \<Rightarrow> bool" where
  "writev_ok K fd sink \<longleftrightarrow>
     (\<forall>iov k ret errno k'. sys_writev K fd iov k = ((ret, errno), k') \<longrightarrow>
        - (2 ^ 31) \<le> ret \<and> ret < 2 ^ 31 \<and> ret \<le> int (length (concat (map fst iov))) \<and> (ret < 0 \<longrightarrow> errno \<noteq> 0)
        \<and> sink k' = sink k @ take (nat ret) (concat (map fst iov)))"

text \<open>
  The exceptions that a descriptor, or the event loop, raises because of an answer of the
  system: a failed call, or an answer the code refuses.
\<close>

definition system_error :: "exn \<Rightarrow> bool" where
  "system_error e \<longleftrightarrow> (\<exists>a n. e = UnixError a n)
     \<or> e = RuntimeError ''read() read more than requested''
     \<or> e = RuntimeError ''write returned 0 given non-empty input buffer''
     \<or> e = RuntimeError ''write wrote more than length of input buffer''
     \<or> e = RuntimeError ''EventLoop: error on polled file descriptor''"

lemma system_error_simps [simp]:
  "system_error (UnixError a n)"
  "system_error (RuntimeError ''read() read more than requested'')"
  "system_error (RuntimeError ''write returned 0 given non-empty input buffer'')"
  "system_error (RuntimeError ''write wrote more than length of input buffer'')"
  "system_error (RuntimeError ''EventLoop: error on polled file descriptor'')"
  "\<not> system_error (OutOfRange m)" "\<not> system_error (InvalidArgument m)" "\<not> system_error (Undefined m)"
  by (simp_all add: system_error_def)

lemma not_busy_wait [simp]:
  "\<not> system_error (RuntimeError ''EventLoop: busy wait detected: callback did not read/write fd and is still interested'')"
  by (simp add: system_error_def)

lemma concat_iovecs [simp]: "concat (map fst (BufferViewList_as_iovecs l)) = concat l"
  by (simp add: BufferViewList_as_iovecs_def comp_def)

lemma SystemCall_id: "- (2 ^ 31) \<le> ret \<Longrightarrow> ret < 2 ^ 31 \<Longrightarrow> SystemCall a ret errno m =
    (if 0 \<le> ret \<or> errno = m then Inr ret else Inl (UnixError a errno))"
  by (simp add: SystemCall_def Let_def signed_take_bit_int_eq_self)

lemma sint_size:
  assumes "length (concat l) < 2 ^ 63"
  shows "sint (BufferViewList_size l) = int (length (concat l))"
proof -
  have "sint (word_of_int (int (length (concat l))) :: size_t) = int (length (concat l))"
    using assms by (simp only: sint_sbintrunc') (simp add: signed_take_bit_int_eq_self)
  then show ?thesis by (simp add: BufferViewList_size_eq sz_def)
qed

lemma write_step_spec:
  assumes "writev_ok K (fd_num w) sink" and "length (concat buffer) < 2 ^ 63"
  shows "case write_step K buffer w k of
      Inl e \<Rightarrow> system_error e
    | Inr (n, buffer', w', k') \<Rightarrow> concat buffer = take (unat n) (concat buffer) @ concat buffer'
        \<and> unat n \<le> length (concat buffer) \<and> (concat buffer \<noteq> [] \<longrightarrow> 0 < unat n)
        \<and> w' = FileDescriptor_register_write w \<and> sink k' = sink k @ take (unat n) (concat buffer)"
proof -
  obtain ret errno k' where call: "sys_writev K (fd_num w) (BufferViewList_as_iovecs buffer) k = ((ret, errno), k')"
    by (metis prod.exhaust)
  with assms(1) have ret: "- (2 ^ 31) \<le> ret" "ret < 2 ^ 31" "ret \<le> int (length (concat buffer))" "ret < 0 \<Longrightarrow> errno \<noteq> 0"
    "sink k' = sink k @ take (nat ret) (concat buffer)"
    unfolding writev_ok_def by force+
  have fits: "fits (concat buffer)" using assms(2) by (simp add: fits_def)
  show ?thesis
  proof (cases "ret < 0 \<or> (ret = 0 \<and> BufferViewList_size buffer \<noteq> 0)")
    case True
    then show ?thesis using ret(1,2,4) by (auto simp: write_step_def call SystemCall_id)
  next
    case False
    let ?n = "word_of_int ret :: size_t"
    have "?n = word_of_nat (nat ret)" using False by simp
    then have n: "unat ?n = nat ret" using False ret(2) by (simp only: unat_of_nat) simp
    then obtain rest where rest: "BufferViewList_remove_prefix ?n buffer = Inr rest"
      "concat rest = drop (unat ?n) (concat buffer)"
      using views.removes [OF fits, of ?n] nat_le_iff [THEN iffD2, OF ret(3)] by (auto simp: n)
    have "write_step K buffer w k = Inr (?n, rest, FileDescriptor_register_write w, k')"
      using False ret(1-3) rest(1) by (simp add: write_step_def call SystemCall_id sint_size [OF assms(2)])
    moreover have "concat buffer \<noteq> [] \<longrightarrow> 0 < ret"
      using False fits by (auto simp: BufferViewList_size_eq sz_eq_0_iff)
    ultimately show ?thesis using ret(3,5) rest(2) n by simp
  qed
qed

lemma write_loop_all:
  assumes "writev_ok K (fd_num w) sink" and "length (concat buffer) < 2 ^ 63"
  shows "case write_loop K buffer True written w k of
      Inl e \<Rightarrow> system_error e
    | Inr (n, w', k') \<Rightarrow> n = written + sz (concat buffer) \<and> sink k' = sink k @ concat buffer
        \<and> fd_num w' = fd_num w \<and> fd_eof w' = fd_eof w \<and> fd_closed w' = fd_closed w"
  using assms
proof (induction K buffer True written w k rule: write_loop.induct)
  case (1 K buffer written w k)
  note step = write_step_spec [OF "1.prems", of k]
  show ?case
  proof (cases "write_step K buffer w k")
    case (Inl e)
    then show ?thesis using step by (simp add: write_loop.simps)
  next
    case (Inr x)
    obtain n buffer' w1 k1 where x: "x = (n, buffer', w1, k1)" by (metis prod_cases4)
    have split: "concat buffer = take (unat n) (concat buffer) @ concat buffer'" and n: "unat n \<le> length (concat buffer)"
      and w1: "w1 = FileDescriptor_register_write w" and k1: "sink k1 = sink k @ take (unat n) (concat buffer)"
      using step Inr x by auto
    have size: "written + n + sz (concat buffer') = written + sz (concat buffer)"
      using arg_cong [OF split, of sz] n by (simp add: sz_append) (simp add: sz_def)
    have small: "length (concat buffer') < 2 ^ 63"
      using arg_cong [OF split, of length] "1.prems"(2) by simp
    show ?thesis
    proof (cases "BufferViewList_size buffer' = 0")
      case True
      then have none: "concat buffer' = []"
        using small by (simp add: BufferViewList_size_eq sz_eq_0_iff fits_def)
      have "n = sz (concat buffer)" using size unfolding none by simp
      moreover have "take (unat n) (concat buffer) = concat buffer" using split none by (metis append_Nil2)
      ultimately show ?thesis
        using True Inr x w1 k1 by (simp add: write_loop.simps [of K buffer] FileDescriptor_register_write_def)
    next
      case False
      have "writev_ok K (fd_num w1) sink" using "1.prems"(1) w1 by (simp add: FileDescriptor_register_write_def)
      from "1.hyps" [OF Inr x [symmetric] refl refl _ this small] False
      have "case write_loop K buffer' True (written + n) w1 k1 of Inl e \<Rightarrow> system_error e
        | Inr (m, w', k') \<Rightarrow> m = written + n + sz (concat buffer') \<and> sink k' = sink k1 @ concat buffer'
          \<and> fd_num w' = fd_num w1 \<and> fd_eof w' = fd_eof w1 \<and> fd_closed w' = fd_closed w1" by simp
      moreover have "sink k1 @ concat buffer' = sink k @ concat buffer" using k1 split by simp
      ultimately show ?thesis
        using False Inr x size w1
        by (simp add: write_loop.simps [of K buffer] FileDescriptor_register_write_def split: sum.splits prod.splits)
    qed
  qed
qed

text \<open>
  C31. Writing a buffer list with \<open>write_all\<close> ends, whatever the operating system answers,
  and unless the system fails it returns the size of the list and the descriptor got all of
  its bytes once and in order, however \<open>writev\<close> splits them; the only exceptions are the
  errors of the system. Without \<open>write_all\<close> the number returned is that of the prefix
  taken, which is not empty unless the list is, and the descriptor is counted as written once.
\<close>

theorem write_delivers:
  assumes "writev_ok K (fd_num w) sink" and "length (concat buffer) < 2 ^ 63"
  shows "(case FileDescriptor_write K buffer True w k of
        Inl e \<Rightarrow> system_error e
      | Inr (n, w', k') \<Rightarrow> n = BufferViewList_size buffer \<and> sink k' = sink k @ concat buffer)
    \<and> (case FileDescriptor_write K buffer False w k of
        Inl e \<Rightarrow> system_error e
      | Inr (n, w', k') \<Rightarrow> sink k' = sink k @ take (unat n) (concat buffer) \<and> unat n \<le> length (concat buffer)
          \<and> (concat buffer \<noteq> [] \<longrightarrow> 0 < n) \<and> fd_write_count w' = fd_write_count w + 1)"
proof
  show "case FileDescriptor_write K buffer True w k of
        Inl e \<Rightarrow> system_error e
      | Inr (n, w', k') \<Rightarrow> n = BufferViewList_size buffer \<and> sink k' = sink k @ concat buffer"
    using write_loop_all [OF assms, of 0 k]
    by (auto simp: FileDescriptor_write_def BufferViewList_size_eq split: sum.splits)
  show "case FileDescriptor_write K buffer False w k of
        Inl e \<Rightarrow> system_error e
      | Inr (n, w', k') \<Rightarrow> sink k' = sink k @ take (unat n) (concat buffer) \<and> unat n \<le> length (concat buffer)
          \<and> (concat buffer \<noteq> [] \<longrightarrow> 0 < n) \<and> fd_write_count w' = fd_write_count w + 1"
    using write_step_spec [OF assms, of k]
    by (cases "write_step K buffer w k")
      (auto simp: FileDescriptor_write_def write_loop.simps FileDescriptor_register_write_def unat_gt_0 word_gt_0)
qed

text \<open>
  A system with one descriptor that takes at most two bytes at a time.
\<close>

definition slow_writer :: "bytes Syscalls" where
  "slow_writer = \<lparr>
     sys_read = \<lambda>fd n k. ((0, 0, []), k),
     sys_writev = \<lambda>fd iov k. let d = take 2 (concat (map fst iov)) in ((int (length d), 0), k @ d),
     sys_close = \<lambda>fd k. ((0, 0), k),
     sys_fcntl = \<lambda>fd cmd arg k. ((0, 0), k),
     sys_shutdown = \<lambda>fd how k. ((0, 0), k),
     sys_poll = \<lambda>ps timeout k. ((0, 0, ps), k),
     sys_recvfrom = \<lambda>fd n k. ((0, 0, [], [], 0), k),
     sys_sendmsg = \<lambda>fd to n iov k. ((0, 0), k),
     sys_clock = \<lambda>k. (0, k),
     sys_socket = \<lambda>domain type k. ((3, 0), k),
     sys_socketpair = \<lambda>type k. ((0, 0, 3, 4), k),
     sys_getsockopt = \<lambda>fd option k. ((0, 0, 0, 4), k),
     sys_setsockopt = \<lambda>fd level option v k. ((0, 0), k),
     sys_name = \<lambda>call fd k. ((0, 0, [], 0), k),
     sys_bind = \<lambda>fd a n k. ((0, 0), k),
     sys_connect = \<lambda>fd a n k. ((0, 0), k),
     sys_listen = \<lambda>fd backlog k. ((0, 0), k),
     sys_accept = \<lambda>fd k. ((3, 0), k)\<rparr>"

lemma slow_writer_ok: "writev_ok slow_writer fd (\<lambda>k. k)"
  by (auto simp: writev_ok_def slow_writer_def Let_def min_def)

theorem write_delivers_witness:
  "case FileDescriptor_write slow_writer [[1, 2, 3], [], [4, 5]] True
      \<lparr>fd_num = 1, fd_eof = False, fd_closed = False, fd_read_count = 0, fd_write_count = 0\<rparr> [] of
    Inl e \<Rightarrow> system_error e
  | Inr (n, w', k') \<Rightarrow> n = 5 \<and> k' = [1, 2, 3, 4, 5]"
  using write_delivers [OF slow_writer_ok,
      where w = "\<lparr>fd_num = 1, fd_eof = False, fd_closed = False, fd_read_count = 0, fd_write_count = 0\<rparr>"
        and buffer = "[[1, 2, 3], [], [4, 5]]" and k = "[]"]
  by (auto simp: BufferViewList_size_def sz_def split: sum.splits)

end
