(* ===== verification/Socket.thy ===== *)
theory Socket
  imports Address File_Descriptor
begin

text \<open>
  Sockets: \<^verbatim>\<open>src/libsponge/util/socket.hh\<close> and \<^verbatim>\<open>.cc\<close>. A socket is a file descriptor;
  its methods are system calls with the checks the code makes on their answers.
\<close>

section \<open>Construction\<close>

definition SO_TYPE :: int where "SO_TYPE = 3"

definition SO_DOMAIN :: int where "SO_DOMAIN = 39"

definition SOL_SOCKET :: int where "SOL_SOCKET = 1"

definition SO_REUSEADDR :: int where "SO_REUSEADDR = 2"

definition SOCK_STREAM :: int where "SOCK_STREAM = 1"

definition SOCK_DGRAM :: int where "SOCK_DGRAM = 2"

definition AF_UNIX :: int where "AF_UNIX = 1"

definition Socket_new :: "'k Syscalls \<Rightarrow> int \<Rightarrow> int \<Rightarrow> 'k \<Rightarrow> (FDWrapper \<times> 'k) result" where
  "Socket_new K domain type k =
     (let ((ret, errno), k) = sys_socket K domain type k
      in bindE (SystemCall ''socket'' ret errno 0) (\<lambda>fd. bindE (FDWrapper_new fd) (\<lambda>w. Inr (w, k))))"

definition Socket_of_fd :: "'k Syscalls \<Rightarrow> FDWrapper \<Rightarrow> int \<Rightarrow> int \<Rightarrow> 'k \<Rightarrow> (FDWrapper \<times> 'k) result" where
  "Socket_of_fd K fd domain type k =
     (let ((ret, errno, actual_value, len), k) = sys_getsockopt K (fd_num fd) SO_DOMAIN k
      in bindE (SystemCall ''getsockopt'' ret errno 0) (\<lambda>_.
           if len \<noteq> 4 \<or> actual_value \<noteq> domain then Inl (RuntimeError ''socket domain mismatch'')
           else
             let ((ret, errno, actual_value, len), k) = sys_getsockopt K (fd_num fd) SO_TYPE k
             in bindE (SystemCall ''getsockopt'' ret errno 0) (\<lambda>_.
                  if len \<noteq> 4 \<or> actual_value \<noteq> type then Inl (RuntimeError ''socket type mismatch'')
                  else Inr (fd, k))))"

definition UDPSocket_new :: "'k Syscalls \<Rightarrow> 'k \<Rightarrow> (FDWrapper \<times> 'k) result" where
  "UDPSocket_new K k = Socket_new K AF_INET SOCK_DGRAM k"

definition UDPSocket_of_fd :: "'k Syscalls \<Rightarrow> FDWrapper \<Rightarrow> 'k \<Rightarrow> (FDWrapper \<times> 'k) result" where
  "UDPSocket_of_fd K fd k = Socket_of_fd K fd AF_INET SOCK_DGRAM k"

definition TCPSocket_new :: "'k Syscalls \<Rightarrow> 'k \<Rightarrow> (FDWrapper \<times> 'k) result" where
  "TCPSocket_new K k = Socket_new K AF_INET SOCK_STREAM k"

definition TCPSocket_of_fd :: "'k Syscalls \<Rightarrow> FDWrapper \<Rightarrow> 'k \<Rightarrow> (FDWrapper \<times> 'k) result" where
  "TCPSocket_of_fd K fd k = Socket_of_fd K fd AF_INET SOCK_STREAM k"

definition LocalStreamSocket_of_fd :: "'k Syscalls \<Rightarrow> FDWrapper \<Rightarrow> 'k \<Rightarrow> (FDWrapper \<times> 'k) result" where
  "LocalStreamSocket_of_fd K fd k = Socket_of_fd K fd AF_UNIX SOCK_STREAM k"

section \<open>Names and connections\<close>

definition Socket_get_address :: "'k Syscalls \<Rightarrow> string \<Rightarrow> FDWrapper \<Rightarrow> 'k \<Rightarrow> (Address \<times> 'k) result" where
  "Socket_get_address K name_of_function w k =
     (let ((ret, errno, address, len), k) = sys_name K name_of_function (fd_num w) k
      in bindE (SystemCall name_of_function ret errno 0) (\<lambda>_.
           bindE (Address_of_sockaddr address (ucast len)) (\<lambda>a. Inr (a, k))))"

definition Socket_local_address :: "'k Syscalls \<Rightarrow> FDWrapper \<Rightarrow> 'k \<Rightarrow> (Address \<times> 'k) result" where
  "Socket_local_address K w k = Socket_get_address K ''getsockname'' w k"

definition Socket_peer_address :: "'k Syscalls \<Rightarrow> FDWrapper \<Rightarrow> 'k \<Rightarrow> (Address \<times> 'k) result" where
  "Socket_peer_address K w k = Socket_get_address K ''getpeername'' w k"

definition Socket_bind :: "'k Syscalls \<Rightarrow> Address \<Rightarrow> FDWrapper \<Rightarrow> 'k \<Rightarrow> 'k result" where
  "Socket_bind K address w k =
     (let ((ret, errno), k) = sys_bind K (fd_num w) (ad_storage address) (ad_size address) k
      in bindE (SystemCall ''bind'' ret errno 0) (\<lambda>_. Inr k))"

definition Socket_connect :: "'k Syscalls \<Rightarrow> Address \<Rightarrow> FDWrapper \<Rightarrow> 'k \<Rightarrow> 'k result" where
  "Socket_connect K address w k =
     (let ((ret, errno), k) = sys_connect K (fd_num w) (ad_storage address) (ad_size address) k
      in bindE (SystemCall ''connect'' ret errno 0) (\<lambda>_. Inr k))"

definition SHUT_RD :: int where "SHUT_RD = 0"

definition SHUT_WR :: int where "SHUT_WR = 1"

definition SHUT_RDWR :: int where "SHUT_RDWR = 2"

definition Socket_shutdown :: "'k Syscalls \<Rightarrow> int \<Rightarrow> FDWrapper \<Rightarrow> 'k \<Rightarrow> (FDWrapper \<times> 'k) result" where
  "Socket_shutdown K how w k =
     (let ((ret, errno), k) = sys_shutdown K (fd_num w) how k
      in bindE (SystemCall ''shutdown'' ret errno 0) (\<lambda>_.
           if how = SHUT_RD then Inr (FileDescriptor_register_read w, k)
           else if how = SHUT_WR then Inr (FileDescriptor_register_write w, k)
           else if how = SHUT_RDWR then Inr (FileDescriptor_register_write (FileDescriptor_register_read w), k)
           else Inl (RuntimeError ''Socket::shutdown() called with invalid `how`'')))"

definition TCPSocket_listen :: "'k Syscalls \<Rightarrow> int \<Rightarrow> FDWrapper \<Rightarrow> 'k \<Rightarrow> 'k result" where
  "TCPSocket_listen K backlog w k =
     (let ((ret, errno), k) = sys_listen K (fd_num w) backlog k
      in bindE (SystemCall ''listen'' ret errno 0) (\<lambda>_. Inr k))"

definition TCPSocket_accept :: "'k Syscalls \<Rightarrow> FDWrapper \<Rightarrow> 'k \<Rightarrow> (FDWrapper \<times> FDWrapper \<times> 'k) result" where
  "TCPSocket_accept K w k =
     (let w = FileDescriptor_register_read w;
          ((ret, errno), k) = sys_accept K (fd_num w) k
      in bindE (SystemCall ''accept'' ret errno 0) (\<lambda>fd.
           bindE (FDWrapper_new fd) (\<lambda>peer.
             bindE (TCPSocket_of_fd K peer k) (\<lambda>(peer, k). Inr (peer, w, k)))))"

definition Socket_setsockopt :: "'k Syscalls \<Rightarrow> int \<Rightarrow> int \<Rightarrow> int \<Rightarrow> FDWrapper \<Rightarrow> 'k \<Rightarrow> 'k result" where
  "Socket_setsockopt K level option option_value w k =
     (let ((ret, errno), k) = sys_setsockopt K (fd_num w) level option option_value k
      in bindE (SystemCall ''setsockopt'' ret errno 0) (\<lambda>_. Inr k))"

definition Socket_set_reuseaddr :: "'k Syscalls \<Rightarrow> FDWrapper \<Rightarrow> 'k \<Rightarrow> 'k result" where
  "Socket_set_reuseaddr K w k = Socket_setsockopt K SOL_SOCKET SO_REUSEADDR 1 w k"

section \<open>Datagrams\<close>

record received_datagram =
  rd_source_address :: Address
  rd_payload :: bytes

definition UDPSocket_recv :: "'k Syscalls \<Rightarrow> size_t \<Rightarrow> FDWrapper \<Rightarrow> 'k \<Rightarrow> (received_datagram \<times> FDWrapper \<times> 'k) result" where
  "UDPSocket_recv K mtu w k =
     (let ((ret, errno, payload, datagram_source_address, fromlen), k) = sys_recvfrom K (fd_num w) mtu k
      in bindE (SystemCall ''recvfrom'' ret errno 0) (\<lambda>recv_len.
           if recv_len > sint mtu then Inl (RuntimeError ''recvfrom (oversized datagram)'')
           else
             let w = FileDescriptor_register_read w
             in bindE (Address_of_sockaddr datagram_source_address (ucast fromlen)) (\<lambda>source_address.
                  Inr (\<lparr>rd_source_address = source_address, rd_payload = take (nat recv_len) payload\<rparr>, w, k))))"

definition sendmsg_helper :: "'k Syscalls \<Rightarrow> int \<Rightarrow> bytes \<Rightarrow> u32 \<Rightarrow> BufferViewList \<Rightarrow> 'k \<Rightarrow> 'k result" where
  "sendmsg_helper K fd destination_address destination_address_len payload k =
     (let ((ret, errno), k) = sys_sendmsg K fd destination_address destination_address_len (BufferViewList_as_iovecs payload) k
      in bindE (SystemCall ''sendmsg'' ret errno 0) (\<lambda>bytes_sent.
           if word_of_int bytes_sent \<noteq> BufferViewList_size payload
           then Inl (RuntimeError ''datagram payload too big for sendmsg()'')
           else Inr k))"

definition UDPSocket_sendto :: "'k Syscalls \<Rightarrow> Address \<Rightarrow> BufferViewList \<Rightarrow> FDWrapper \<Rightarrow> 'k \<Rightarrow> (FDWrapper \<times> 'k) result" where
  "UDPSocket_sendto K destination payload w k =
     bindE (sendmsg_helper K (fd_num w) (ad_storage destination) (ad_size destination) payload k)
       (\<lambda>k. Inr (FileDescriptor_register_write w, k))"

definition UDPSocket_send :: "'k Syscalls \<Rightarrow> BufferViewList \<Rightarrow> FDWrapper \<Rightarrow> 'k \<Rightarrow> (FDWrapper \<times> 'k) result" where
  "UDPSocket_send K payload w k =
     bindE (sendmsg_helper K (fd_num w) [] 0 payload k) (\<lambda>k. Inr (FileDescriptor_register_write w, k))"

section \<open>What the calls do to the streams behind the descriptors\<close>

text \<open>
  \<open>rd fd\<close> and \<open>wr fd\<close> read from the state of the system the bytes that were read from
  and written to a descriptor so far. What the code relies on: \<open>read\<close> returns the next
  bytes of its descriptor, at most as many as asked for, \<open>writev\<close> takes a prefix of what it
  is given, neither touches another descriptor, and the other calls move no bytes. A
  negative answer sets \<open>errno\<close>, and every answer is an \<^verbatim>\<open>int\<close>.
\<close>

definition quiet :: "(int \<Rightarrow> 'k \<Rightarrow> bytes) \<Rightarrow> (int \<Rightarrow> 'k \<Rightarrow> bytes) \<Rightarrow> 'k \<Rightarrow> 'k \<Rightarrow> bool" where
  "quiet rd wr k k' \<longleftrightarrow> (\<forall>fd. rd fd k' = rd fd k \<and> wr fd k' = wr fd k)"

definition answer_ok :: "int \<Rightarrow> int \<Rightarrow> bool" where
  "answer_ok ret errno \<longleftrightarrow> - (2 ^ 31) \<le> ret \<and> ret < 2 ^ 31 \<and> (ret < 0 \<longrightarrow> errno \<noteq> 0)"

definition read_ok :: "'k Syscalls \<Rightarrow> (int \<Rightarrow> 'k \<Rightarrow> bytes) \<Rightarrow> (int \<Rightarrow> 'k \<Rightarrow> bytes) \<Rightarrow> bool" where
  "read_ok K rd wr \<longleftrightarrow> (\<forall>fd n k ret errno str k'. sys_read K fd n k = ((ret, errno, str), k') \<longrightarrow>
     answer_ok ret errno \<and> nat ret \<le> unat n \<and> nat ret \<le> length str
     \<and> (\<forall>f. rd f k' = (if f = fd then rd f k @ take (nat ret) str else rd f k) \<and> wr f k' = wr f k))"

definition write_ok :: "'k Syscalls \<Rightarrow> (int \<Rightarrow> 'k \<Rightarrow> bytes) \<Rightarrow> (int \<Rightarrow> 'k \<Rightarrow> bytes) \<Rightarrow> bool" where
  "write_ok K rd wr \<longleftrightarrow> (\<forall>fd iov k ret errno k'. sys_writev K fd iov k = ((ret, errno), k') \<longrightarrow>
     answer_ok ret errno \<and> nat ret \<le> length (concat (map fst iov))
     \<and> (\<forall>f. wr f k' = (if f = fd then wr f k @ take (nat ret) (concat (map fst iov)) else wr f k) \<and> rd f k' = rd f k))"

definition control_ok :: "'k Syscalls \<Rightarrow> (int \<Rightarrow> 'k \<Rightarrow> bytes) \<Rightarrow> (int \<Rightarrow> 'k \<Rightarrow> bytes) \<Rightarrow> bool" where
  "control_ok K rd wr \<longleftrightarrow>
     (\<forall>fd how k ret errno k'. sys_shutdown K fd how k = ((ret, errno), k') \<longrightarrow> answer_ok ret errno \<and> quiet rd wr k k')
     \<and> (\<forall>fd k ret errno k'. sys_close K fd k = ((ret, errno), k') \<longrightarrow> answer_ok ret errno \<and> quiet rd wr k k')
     \<and> (\<forall>fd cmd arg k ret errno k'. sys_fcntl K fd cmd arg k = ((ret, errno), k') \<longrightarrow> answer_ok ret errno \<and> quiet rd wr k k')
     \<and> (\<forall>ps t k r k'. sys_poll K ps t k = (r, k') \<longrightarrow> quiet rd wr k k')
     \<and> (\<forall>k t k'. sys_clock K k = (t, k') \<longrightarrow> quiet rd wr k k')"

definition system_ok :: "'k Syscalls \<Rightarrow> (int \<Rightarrow> 'k \<Rightarrow> bytes) \<Rightarrow> (int \<Rightarrow> 'k \<Rightarrow> bytes) \<Rightarrow> bool" where
  "system_ok K rd wr \<longleftrightarrow> read_ok K rd wr \<and> write_ok K rd wr \<and> control_ok K rd wr"

lemma SystemCall_answer:
  "answer_ok ret errno \<Longrightarrow> SystemCall a ret errno 0 = (if 0 \<le> ret then Inr ret else Inl (UnixError a errno))"
  by (auto simp: answer_ok_def SystemCall_id)

lemma sint_small:
  fixes x :: size_t
  assumes "unat x < 2 ^ 63"
  shows "sint x = int (unat x)"
proof -
  have "int (unat x) < int (2 ^ 63)" using assms by (simp only: of_nat_less_iff)
  moreover have "- (2 ^ 63) \<le> uint x" by (rule order_trans [of _ 0]) simp_all
  ultimately have "signed_take_bit 63 (uint x) = uint x" by (intro signed_take_bit_int_eq_self) simp_all
  then show ?thesis by (simp add: sint_uint)
qed

text \<open>Reading appends to what was read; the descriptor counts one read.\<close>

lemma read_good:
  assumes "system_ok K rd wr"
  shows "good system_error (\<lambda>(data, w', k'). length data \<le> unat limit \<and> length data \<le> 1048576
      \<and> (\<forall>f. rd f k' = (if f = fd_num w then rd f k @ data else rd f k) \<and> wr f k' = wr f k)
      \<and> w' = w\<lparr>fd_eof := (fd_eof w \<or> (0 < limit \<and> data = [])), fd_read_count := fd_read_count w + 1\<rparr>)
    (FileDescriptor_read K limit w k)"
proof -
  let ?n = "min BUFFER_SIZE limit"
  obtain ret errno str k' where call: "sys_read K (fd_num w) ?n k = ((ret, errno, str), k')" by (metis prod.exhaust)
  with assms have ret: "answer_ok ret errno" "nat ret \<le> unat ?n" "nat ret \<le> length str"
    and obs: "\<forall>f. rd f k' = (if f = fd_num w then rd f k @ take (nat ret) str else rd f k) \<and> wr f k' = wr f k"
    unfolding system_ok_def read_ok_def by blast+
  have n: "unat ?n \<le> 1048576" "unat ?n \<le> unat limit"
    by (auto simp: BUFFER_SIZE_def min_def word_le_nat_alt)
  then have "sint ?n = int (unat ?n)" by (intro sint_small) simp
  moreover have "take (nat ret) str = [] \<longleftrightarrow> ret = 0" if "0 \<le> ret" using that ret(3) by auto
  ultimately show ?thesis
    using call ret n obs
    by (cases w) (auto simp: FileDescriptor_read_def SystemCall_answer Let_def FileDescriptor_register_read_def
        simp del: take_eq_Nil)
qed

text \<open>A single write appends a prefix of the data to what was written; it counts one write.\<close>

lemma writev_ok_of: "write_ok K rd wr \<Longrightarrow> writev_ok K fd (wr fd)"
  unfolding write_ok_def writev_ok_def answer_ok_def by (metis nat_le_iff)

lemma write_once_good:
  assumes "system_ok K rd wr" and "length data < 2 ^ 63"
  shows "good system_error (\<lambda>(n, w', k'). unat n \<le> length data \<and> (data \<noteq> [] \<longrightarrow> 0 < unat n)
      \<and> (\<forall>f. wr f k' = (if f = fd_num w then wr f k @ take (unat n) data else wr f k) \<and> rd f k' = rd f k)
      \<and> w' = w\<lparr>fd_write_count := fd_write_count w + 1\<rparr>)
    (FileDescriptor_write K [data] False w k)"
proof -
  have W: "write_ok K rd wr" using assms(1) by (simp add: system_ok_def)
  have others: "wr f k' = wr f k \<and> rd g k' = rd g k"
    if "sys_writev K (fd_num w) iov k = (r, k')" "f \<noteq> fd_num w" for iov r k' f g
    using W that unfolding write_ok_def by (metis prod.exhaust)
  have rds: "rd g k' = rd g k" if "sys_writev K (fd_num w) iov k = (r, k')" for iov r k' g
    using W that unfolding write_ok_def by (metis prod.exhaust)
  show ?thesis
  proof (cases "write_step K [data] w k")
    case (Inl e)
    then show ?thesis
      using write_step_spec [OF writev_ok_of [OF W], where w = w and buffer = "[data]" and k = k] assms(2)
      by (simp add: FileDescriptor_write_def write_loop.simps)
  next
    case (Inr x)
    obtain n buffer w' k' where x: "x = (n, buffer, w', k')" by (metis prod_cases4)
    have spec: "unat n \<le> length data" "data \<noteq> [] \<longrightarrow> 0 < unat n" "w' = FileDescriptor_register_write w"
      "wr (fd_num w) k' = wr (fd_num w) k @ take (unat n) data"
      using write_step_spec [OF writev_ok_of [OF W], where w = w and buffer = "[data]" and k = k] assms(2) Inr x by auto
    obtain r where "sys_writev K (fd_num w) (BufferViewList_as_iovecs [data]) k = (r, k')"
      using Inr x by (auto simp: write_step_def bindE_Inr_iff Let_def split: prod.splits if_splits)
    with spec others rds Inr x show ?thesis
      by (auto simp: FileDescriptor_write_def write_loop.simps FileDescriptor_register_write_def)
  qed
qed

text \<open>Shutting down and closing move no bytes.\<close>

lemma shutdown_good:
  assumes "system_ok K rd wr" and "how \<in> {SHUT_RD, SHUT_WR, SHUT_RDWR}"
  shows "good system_error (\<lambda>(w', k'). quiet rd wr k k' \<and> w' = w\<lparr>
      fd_read_count := fd_read_count w + (if how = SHUT_WR then 0 else 1),
      fd_write_count := fd_write_count w + (if how = SHUT_RD then 0 else 1)\<rparr>)
    (Socket_shutdown K how w k)"
proof -
  obtain ret errno k' where call: "sys_shutdown K (fd_num w) how k = ((ret, errno), k')" by (metis prod.exhaust)
  with assms(1) have "answer_ok ret errno \<and> quiet rd wr k k'"
    unfolding system_ok_def control_ok_def by metis
  with call assms(2) show ?thesis
    by (cases w) (auto simp: Socket_shutdown_def SystemCall_answer SHUT_RD_def SHUT_WR_def SHUT_RDWR_def
        FileDescriptor_register_read_def FileDescriptor_register_write_def)
qed

lemma close_good:
  assumes "system_ok K rd wr"
  shows "good system_error (\<lambda>(w', k'). quiet rd wr k k' \<and> w' = w\<lparr>fd_eof := True, fd_closed := True\<rparr>) (FDWrapper_close K w k)"
proof -
  obtain ret errno k' where call: "sys_close K (fd_num w) k = ((ret, errno), k')" by (metis prod.exhaust)
  with assms(1) have "answer_ok ret errno \<and> quiet rd wr k k'"
    unfolding system_ok_def control_ok_def by blast
  with call show ?thesis by (auto simp: FDWrapper_close_def SystemCall_answer)
qed

lemma set_blocking_good:
  assumes "system_ok K rd wr"
  shows "good system_error (quiet rd wr k) (FileDescriptor_set_blocking K b w k)"
proof -
  have C: "answer_ok ret errno \<and> quiet rd wr k k'" if "sys_fcntl K fd cmd arg k = ((ret, errno), k')" for fd cmd arg k ret errno k'
    using assms that unfolding system_ok_def control_ok_def by blast
  obtain ret errno k1 where call: "sys_fcntl K (fd_num w) F_GETFL 0 k = ((ret, errno), k1)" by (metis prod.exhaust)
  show ?thesis
  proof (cases "0 \<le> ret")
    case True
    define flags where "flags = (if b then (word_of_int ret :: u32) XOR (word_of_int ret AND O_NONBLOCK) else word_of_int ret OR O_NONBLOCK)"
    obtain ret' errno' k2 where call2: "sys_fcntl K (fd_num w) F_SETFL (sint flags) k1 = ((ret', errno'), k2)" by (metis prod.exhaust)
    have "quiet rd wr k k2" using C [OF call] C [OF call2] by (simp add: quiet_def)
    then show ?thesis
      using True C [OF call] C [OF call2] call call2
      by (simp add: FileDescriptor_set_blocking_def SystemCall_answer Let_def flags_def)
  next
    case False
    then show ?thesis using C [OF call] call by (simp add: FileDescriptor_set_blocking_def SystemCall_answer)
  qed
qed

end
