(* ===== verification/Adapters.thy ===== *)
theory Adapters
  imports TCP_Over_IP Socket Network_Interface
begin

text \<open>
  The adapters through which a TCP connection reads and writes segments:
  \<^verbatim>\<open>src/libsponge/tcp_helpers/fd_adapter.cc\<close> (over UDP), \<^verbatim>\<open>tuntap_adapter.hh\<close> and \<^verbatim>\<open>.cc\<close>
  (over IP on a TUN device, and over Ethernet on a TAP device) and \<^verbatim>\<open>lossy_fd_adapter.hh\<close>
  (any of them with random loss). The device is a file descriptor; the random number
  generator of the lossy adapter is a parameter.
\<close>

section \<open>TCP over UDP\<close>

record TCPOverUDPSocketAdapter =
  ud_base :: FdAdapterBase
  ud_sock :: FDWrapper

definition UDP_MTU :: size_t where "UDP_MTU = 65536"

definition TCPOverUDPSocketAdapter_read ::
  "'k Syscalls \<Rightarrow> TCPOverUDPSocketAdapter \<Rightarrow> 'k \<Rightarrow> (TCPSegment option \<times> TCPOverUDPSocketAdapter \<times> 'k) result" where
  "TCPOverUDPSocketAdapter_read K a k =
     bindE (UDPSocket_recv K UDP_MTU (ud_sock a) k) (\<lambda>(datagram, sock, k).
       let a = a\<lparr>ud_sock := sock\<rparr>;
           base = ud_base a
       in if \<not> fa_listen base \<and> \<not> Address_eq (rd_source_address datagram) (fc_destination (fa_cfg base))
          then Inr (None, a, k)
          else
            let (res, seg) = TCPSegment_parse TCPSegment_new (rd_payload datagram) 0
            in if res \<noteq> NoError then Inr (None, a, k)
               else if fa_listen base then
                 if th_syn (ts_header seg) \<and> \<not> th_rst (ts_header seg) then
                   let base = base\<lparr>fa_cfg := (fa_cfg base)\<lparr>fc_destination := rd_source_address datagram\<rparr>\<rparr>
                   in Inr (Some seg, a\<lparr>ud_base := FdAdapterBase_set_listening False base\<rparr>, k)
                 else Inr (None, a, k)
               else Inr (Some seg, a, k))"

definition TCPOverUDPSocketAdapter_write ::
  "'k Syscalls \<Rightarrow> Resolver \<Rightarrow> TCPSegment \<Rightarrow> TCPOverUDPSocketAdapter \<Rightarrow> 'k
    \<Rightarrow> (TCPSegment \<times> TCPOverUDPSocketAdapter \<times> 'k) result" where
  "TCPOverUDPSocketAdapter_write K R seg a k =
     (let cfg = fa_cfg (ud_base a)
      in bindE (Address_port R (fc_source cfg)) (\<lambda>sport.
         bindE (Address_port R (fc_destination cfg)) (\<lambda>dport.
           let seg = TCPSegment_set_ports sport dport seg
           in bindE (TCPSegment_serialize seg 0) (\<lambda>payload.
              bindE (UDPSocket_sendto K (fc_destination cfg) [payload] (ud_sock a) k) (\<lambda>(sock, k).
                Inr (seg, a\<lparr>ud_sock := sock\<rparr>, k))))))"

section \<open>TCP over IP on a TUN device\<close>

record TCPOverIPv4OverTunFdAdapter =
  tn_base :: FdAdapterBase
  tn_tun :: FDWrapper

text \<open>\<open>read()\<close> without a limit reads as much as it can.\<close>

definition NO_LIMIT :: size_t where "NO_LIMIT = - 1"

definition TCPOverIPv4OverTunFdAdapter_read ::
  "'k Syscalls \<Rightarrow> Resolver \<Rightarrow> TCPOverIPv4OverTunFdAdapter \<Rightarrow> 'k
    \<Rightarrow> (TCPSegment option \<times> TCPOverIPv4OverTunFdAdapter \<times> 'k) result" where
  "TCPOverIPv4OverTunFdAdapter_read K R a k =
     bindE (FileDescriptor_read K NO_LIMIT (tn_tun a) k) (\<lambda>(str, tun, k).
       let a = a\<lparr>tn_tun := tun\<rparr>;
           (res, ip_dgram) = IPv4Datagram_parse IPv4Datagram_new str
       in if res \<noteq> NoError then Inr (None, a, k)
          else bindE (TCPOverIPv4Adapter_unwrap_tcp_in_ip R ip_dgram (tn_base a)) (\<lambda>(seg, base).
                 Inr (seg, a\<lparr>tn_base := base\<rparr>, k)))"

definition TCPOverIPv4OverTunFdAdapter_write ::
  "'k Syscalls \<Rightarrow> Resolver \<Rightarrow> TCPSegment \<Rightarrow> TCPOverIPv4OverTunFdAdapter \<Rightarrow> 'k
    \<Rightarrow> (TCPSegment \<times> TCPOverIPv4OverTunFdAdapter \<times> 'k) result" where
  "TCPOverIPv4OverTunFdAdapter_write K R seg a k =
     bindE (TCPOverIPv4Adapter_wrap_tcp_in_ip R seg (tn_base a)) (\<lambda>(ip_dgram, seg).
     bindE (IPv4Datagram_serialize ip_dgram) (\<lambda>str.
     bindE (FileDescriptor_write K [str] True (tn_tun a) k) (\<lambda>(_, tun, k).
       Inr (seg, a\<lparr>tn_tun := tun\<rparr>, k))))"

section \<open>TCP over Ethernet on a TAP device\<close>

record TCPOverIPv4OverEthernetAdapter =
  et_base :: FdAdapterBase
  et_tap :: FDWrapper
  et_interface :: NetworkInterface
  et_next_hop :: Address

text \<open>The constructor sends an empty frame, since Linux ignores the first frame on a TAP device.\<close>

definition TCPOverIPv4OverEthernetAdapter_new ::
  "'k Syscalls \<Rightarrow> Resolver \<Rightarrow> FDWrapper \<Rightarrow> EthernetAddress \<Rightarrow> Address \<Rightarrow> Address \<Rightarrow> 'k
    \<Rightarrow> (TCPOverIPv4OverEthernetAdapter \<times> 'k) result" where
  "TCPOverIPv4OverEthernetAdapter_new K R tap eth_address ip_address hop k =
     bindE (FdAdapterBase_new R) (\<lambda>base.
     bindE (Address_ipv4_numeric ip_address) (\<lambda>ip.
     bindE (FileDescriptor_write K [EthernetFrame_serialize EthernetFrame_new] True tap k) (\<lambda>(_, tap, k).
       Inr (\<lparr>et_base = base, et_tap = tap, et_interface = NetworkInterface_new eth_address ip, et_next_hop = hop\<rparr>, k))))"

text \<open>The loop that writes every queued frame to the device and removes it from the queue.\<close>

fun send_frames :: "'k Syscalls \<Rightarrow> EthernetFrame list \<Rightarrow> FDWrapper \<Rightarrow> 'k \<Rightarrow> (FDWrapper \<times> 'k) result" where
  "send_frames K [] tap k = Inr (tap, k)"
| "send_frames K (frame # frames) tap k =
     bindE (FileDescriptor_write K [EthernetFrame_serialize frame] True tap k) (\<lambda>(_, tap, k).
       send_frames K frames tap k)"

definition TCPOverIPv4OverEthernetAdapter_send_pending ::
  "'k Syscalls \<Rightarrow> TCPOverIPv4OverEthernetAdapter \<Rightarrow> 'k \<Rightarrow> (TCPOverIPv4OverEthernetAdapter \<times> 'k) result" where
  "TCPOverIPv4OverEthernetAdapter_send_pending K a k =
     bindE (send_frames K (ni_frames_out (et_interface a)) (et_tap a) k) (\<lambda>(tap, k).
       Inr (a\<lparr>et_tap := tap, et_interface := (et_interface a)\<lparr>ni_frames_out := []\<rparr>\<rparr>, k))"

definition TCPOverIPv4OverEthernetAdapter_read ::
  "'k Syscalls \<Rightarrow> Resolver \<Rightarrow> TCPOverIPv4OverEthernetAdapter \<Rightarrow> 'k
    \<Rightarrow> (TCPSegment option \<times> TCPOverIPv4OverEthernetAdapter \<times> 'k) result" where
  "TCPOverIPv4OverEthernetAdapter_read K R a k =
     bindE (FileDescriptor_read K NO_LIMIT (et_tap a) k) (\<lambda>(str, tap, k).
       let a = a\<lparr>et_tap := tap\<rparr>;
           (res, frame) = EthernetFrame_parse EthernetFrame_new str
       in if res \<noteq> NoError then Inr (None, a, k)
          else bindE (NetworkInterface_recv_frame frame (et_interface a)) (\<lambda>(ip_dgram, interface).
            bindE (TCPOverIPv4OverEthernetAdapter_send_pending K (a\<lparr>et_interface := interface\<rparr>) k) (\<lambda>(a, k).
              case ip_dgram of
                None \<Rightarrow> Inr (None, a, k)
              | Some d \<Rightarrow> bindE (TCPOverIPv4Adapter_unwrap_tcp_in_ip R d (et_base a)) (\<lambda>(seg, base).
                  Inr (seg, a\<lparr>et_base := base\<rparr>, k)))))"

definition TCPOverIPv4OverEthernetAdapter_tick ::
  "'k Syscalls \<Rightarrow> size_t \<Rightarrow> TCPOverIPv4OverEthernetAdapter \<Rightarrow> 'k \<Rightarrow> (TCPOverIPv4OverEthernetAdapter \<times> 'k) result" where
  "TCPOverIPv4OverEthernetAdapter_tick K ms_since_last_tick a k =
     TCPOverIPv4OverEthernetAdapter_send_pending K
       (a\<lparr>et_interface := NetworkInterface_tick ms_since_last_tick (et_interface a)\<rparr>) k"

text \<open>\<open>past_end\<close> is what the interface reads through the end iterator of its list of requests.\<close>

definition TCPOverIPv4OverEthernetAdapter_write ::
  "'k Syscalls \<Rightarrow> Resolver \<Rightarrow> u64 \<Rightarrow> TCPSegment \<Rightarrow> TCPOverIPv4OverEthernetAdapter \<Rightarrow> 'k
    \<Rightarrow> (TCPSegment \<times> TCPOverIPv4OverEthernetAdapter \<times> 'k) result" where
  "TCPOverIPv4OverEthernetAdapter_write K R past_end seg a k =
     bindE (TCPOverIPv4Adapter_wrap_tcp_in_ip R seg (et_base a)) (\<lambda>(ip_dgram, seg).
     bindE (Address_ipv4_numeric (et_next_hop a)) (\<lambda>hop.
     bindE (NetworkInterface_send_datagram past_end ip_dgram hop (et_interface a)) (\<lambda>interface.
     bindE (TCPOverIPv4OverEthernetAdapter_send_pending K (a\<lparr>et_interface := interface\<rparr>) k) (\<lambda>(a, k).
       Inr (seg, a, k)))))"

section \<open>Random loss\<close>

text \<open>
  The operations a lossy adapter, and the TCP socket, use of an adapter of type \<open>'a\<close>: the
  members of the class that the C++ template is instantiated with.
\<close>

record ('a, 'k) AdaptT =
  ad_read :: "'a \<Rightarrow> 'k \<Rightarrow> (TCPSegment option \<times> 'a \<times> 'k) result"
  ad_write :: "TCPSegment \<Rightarrow> 'a \<Rightarrow> 'k \<Rightarrow> (TCPSegment \<times> 'a \<times> 'k) result"
  ad_tick :: "size_t \<Rightarrow> 'a \<Rightarrow> 'k \<Rightarrow> ('a \<times> 'k) result"
  ad_config :: "'a \<Rightarrow> FdAdapterConfig"
  ad_set_config :: "FdAdapterConfig \<Rightarrow> 'a \<Rightarrow> 'a"
  ad_set_listening :: "bool \<Rightarrow> 'a \<Rightarrow> 'a"
  ad_fd :: "'a \<Rightarrow> FDWrapper"

definition udp_adapter :: "'k Syscalls \<Rightarrow> Resolver \<Rightarrow> (TCPOverUDPSocketAdapter, 'k) AdaptT" where
  "udp_adapter K R = \<lparr>ad_read = TCPOverUDPSocketAdapter_read K, ad_write = TCPOverUDPSocketAdapter_write K R,
     ad_tick = \<lambda>ms a k. Inr (a\<lparr>ud_base := FdAdapterBase_tick ms (ud_base a)\<rparr>, k), ad_config = \<lambda>a. fa_cfg (ud_base a),
     ad_set_config = \<lambda>c a. a\<lparr>ud_base := FdAdapterBase_set_config c (ud_base a)\<rparr>,
     ad_set_listening = \<lambda>l a. a\<lparr>ud_base := FdAdapterBase_set_listening l (ud_base a)\<rparr>, ad_fd = ud_sock\<rparr>"

definition tun_adapter :: "'k Syscalls \<Rightarrow> Resolver \<Rightarrow> (TCPOverIPv4OverTunFdAdapter, 'k) AdaptT" where
  "tun_adapter K R = \<lparr>ad_read = TCPOverIPv4OverTunFdAdapter_read K R, ad_write = TCPOverIPv4OverTunFdAdapter_write K R,
     ad_tick = \<lambda>ms a k. Inr (a\<lparr>tn_base := FdAdapterBase_tick ms (tn_base a)\<rparr>, k), ad_config = \<lambda>a. fa_cfg (tn_base a),
     ad_set_config = \<lambda>c a. a\<lparr>tn_base := FdAdapterBase_set_config c (tn_base a)\<rparr>,
     ad_set_listening = \<lambda>l a. a\<lparr>tn_base := FdAdapterBase_set_listening l (tn_base a)\<rparr>, ad_fd = tn_tun\<rparr>"

definition ethernet_adapter :: "'k Syscalls \<Rightarrow> Resolver \<Rightarrow> u64 \<Rightarrow> (TCPOverIPv4OverEthernetAdapter, 'k) AdaptT" where
  "ethernet_adapter K R past_end = \<lparr>ad_read = TCPOverIPv4OverEthernetAdapter_read K R,
     ad_write = TCPOverIPv4OverEthernetAdapter_write K R past_end, ad_tick = TCPOverIPv4OverEthernetAdapter_tick K,
     ad_config = \<lambda>a. fa_cfg (et_base a),
     ad_set_config = \<lambda>c a. a\<lparr>et_base := FdAdapterBase_set_config c (et_base a)\<rparr>,
     ad_set_listening = \<lambda>l a. a\<lparr>et_base := FdAdapterBase_set_listening l (et_base a)\<rparr>, ad_fd = et_tap\<rparr>"

record ('g, 'a) LossyFdAdapter =
  lo_rand :: 'g
  lo_adapter :: 'a

definition LossyFdAdapter_should_drop ::
  "('g \<Rightarrow> u32 \<times> 'g) \<Rightarrow> ('a, 'k) AdaptT \<Rightarrow> bool \<Rightarrow> ('g, 'a) LossyFdAdapter \<Rightarrow> bool \<times> ('g, 'a) LossyFdAdapter" where
  "LossyFdAdapter_should_drop rand A uplink l =
     (let cfg = ad_config A (lo_adapter l);
          loss = (if uplink then fc_loss_rate_up cfg else fc_loss_rate_dn cfg)
      in if loss \<noteq> 0 then
           let (r, g) = rand (lo_rand l) in ((ucast r :: u16) < loss, l\<lparr>lo_rand := g\<rparr>)
         else (False, l))"

definition LossyFdAdapter_read ::
  "('g \<Rightarrow> u32 \<times> 'g) \<Rightarrow> ('a, 'k) AdaptT \<Rightarrow> ('g, 'a) LossyFdAdapter \<Rightarrow> 'k
    \<Rightarrow> (TCPSegment option \<times> ('g, 'a) LossyFdAdapter \<times> 'k) result" where
  "LossyFdAdapter_read rand A l k =
     bindE (ad_read A (lo_adapter l) k) (\<lambda>(ret, a, k).
       let (drop, l) = LossyFdAdapter_should_drop rand A False (l\<lparr>lo_adapter := a\<rparr>)
       in if drop then Inr (None, l, k) else Inr (ret, l, k))"

definition LossyFdAdapter_write ::
  "('g \<Rightarrow> u32 \<times> 'g) \<Rightarrow> ('a, 'k) AdaptT \<Rightarrow> TCPSegment \<Rightarrow> ('g, 'a) LossyFdAdapter \<Rightarrow> 'k
    \<Rightarrow> (TCPSegment \<times> ('g, 'a) LossyFdAdapter \<times> 'k) result" where
  "LossyFdAdapter_write rand A seg l k =
     (let (drop, l) = LossyFdAdapter_should_drop rand A True l
      in if drop then Inr (seg, l, k)
         else bindE (ad_write A seg (lo_adapter l) k) (\<lambda>(seg, a, k). Inr (seg, l\<lparr>lo_adapter := a\<rparr>, k)))"

definition lossy_adapter :: "('g \<Rightarrow> u32 \<times> 'g) \<Rightarrow> ('a, 'k) AdaptT \<Rightarrow> (('g, 'a) LossyFdAdapter, 'k) AdaptT" where
  "lossy_adapter rand A = \<lparr>ad_read = LossyFdAdapter_read rand A, ad_write = LossyFdAdapter_write rand A,
     ad_tick = \<lambda>ms l k. bindE (ad_tick A ms (lo_adapter l) k) (\<lambda>(a, k). Inr (l\<lparr>lo_adapter := a\<rparr>, k)),
     ad_config = \<lambda>l. ad_config A (lo_adapter l),
     ad_set_config = \<lambda>c l. l\<lparr>lo_adapter := ad_set_config A c (lo_adapter l)\<rparr>,
     ad_set_listening = \<lambda>b l. l\<lparr>lo_adapter := ad_set_listening A b (lo_adapter l)\<rparr>,
     ad_fd = \<lambda>l. ad_fd A (lo_adapter l)\<rparr>"

section \<open>A segment crosses the link\<close>

lemma write_all_good:
  assumes "writev_ok K (fd_num w) sink" and "length x < 2 ^ 63"
  shows "(\<exists>e. FileDescriptor_write K [x] True w k = Inl e \<and> system_error e)
    \<or> (\<exists>n w' k'. FileDescriptor_write K [x] True w k = Inr (n, w', k') \<and> sink k' = sink k @ x \<and> fd_num w' = fd_num w)"
  using write_loop_all [of K w sink "[x]" 0 k] assms
  by (cases "write_loop K [x] True 0 w k") (auto simp: FileDescriptor_write_def)

lemma send_frames_good:
  assumes "writev_ok K (fd_num tap) sink" and "\<forall>f \<in> set frames. length (EthernetFrame_serialize f) < 2 ^ 63"
  shows "(\<exists>e. send_frames K frames tap k = Inl e \<and> system_error e)
    \<or> (\<exists>tap' k'. send_frames K frames tap k = Inr (tap', k') \<and> sink k' = sink k @ concat (map EthernetFrame_serialize frames)
        \<and> fd_num tap' = fd_num tap)"
  using assms
proof (induction frames arbitrary: tap k)
  case (Cons f frames)
  consider e where "FileDescriptor_write K [EthernetFrame_serialize f] True tap k = Inl e" "system_error e"
    | n w' k' where "FileDescriptor_write K [EthernetFrame_serialize f] True tap k = Inr (n, w', k')"
        "sink k' = sink k @ EthernetFrame_serialize f" "fd_num w' = fd_num tap"
    using write_all_good [OF Cons.prems(1), of "EthernetFrame_serialize f" k] Cons.prems(2) by auto
  then show ?case
  proof cases
    case 2
    then show ?thesis using Cons.IH [of w' k'] Cons.prems by auto
  qed simp
qed simp

text \<open>The bytes that carry a segment on the link.\<close>

definition segment_frame :: "EthernetAddress \<Rightarrow> EthernetAddress \<Rightarrow> u32 \<Rightarrow> u32 \<Rightarrow> TCPSegment \<Rightarrow> bytes" where
  "segment_frame dst src ip ip' seg = EthernetFrame_serialize (ip_frame dst src (dg_bytes (tcp_datagram ip ip' seg)))"

lemma segment_frame_length:
  assumes "seg_fits seg"
  shows "length (segment_frame dst src ip ip' seg) \<le> length dst + length src + 2 + 65535"
proof -
  have "length (dg_bytes (tcp_datagram ip ip' seg)) = datagram_len seg"
    using IPv4Datagram_roundtrip(3) [OF tcp_datagram_ok dg_bytes_ok [OF tcp_datagram_ok]] tcp_datagram_len assms by simp
  then show ?thesis
    using datagram_len_small [OF assms]
    by (simp add: segment_frame_def EthernetFrame_serialize_def EthernetHeader_serialize_eq ip_frame_def del: be_bytes.simps)
qed


text \<open>A device that holds one packet.\<close>

definition packet_device :: "bytes Syscalls" where
  "packet_device = slow_writer\<lparr>sys_read := \<lambda>fd n k. ((int (length k), 0, k), [])\<rparr>"

definition example_device :: FDWrapper where
  "example_device = \<lparr>fd_num = 3, fd_eof = False, fd_closed = False, fd_read_count = 0, fd_write_count = 0\<rparr>"

lemma packet_device_reads:
  assumes "0 < length f" and "length f \<le> 1048576"
  shows "FileDescriptor_read packet_device NO_LIMIT example_device f = Inr (f, FileDescriptor_register_read example_device, [])"
proof -
  have "sint (min BUFFER_SIZE NO_LIMIT) = 1048576"
    by (simp add: BUFFER_SIZE_def NO_LIMIT_def min_def)
  with assms show ?thesis
    by (simp add: FileDescriptor_read_def packet_device_def SystemCall_id Let_def)
qed

definition example_host :: "FdAdapterBase \<Rightarrow> EthernetAddress \<Rightarrow> u32 \<Rightarrow> EthernetAddress \<Rightarrow> u32 \<Rightarrow> TCPOverIPv4OverEthernetAdapter" where
  "example_host base address ip peer peer_ip = \<lparr>et_base = base, et_tap = example_device,
     et_interface = (NetworkInterface_new address ip)\<lparr>ni_ip_ethernet_map := [ucast peer_ip \<mapsto> \<lparr>ethernet_address = peer, time_ethernet = 0\<rparr>]\<rparr>,
     et_next_hop = ipv4_address peer_ip 0\<rparr>"


text \<open>
  The comment on the UDP adapter says that it checks the ports in the TCP header, as the IP
  adapter does; it returns every segment that its peer's socket sends, whatever the ports.
\<close>

theorem udp_adapter_ignores_ports:
  assumes "UDPSocket_recv K UDP_MTU (ud_sock a) k = Inr (\<lparr>rd_source_address = peer, rd_payload = payload\<rparr>, sock, k')"
    and "Address_eq peer (fc_destination (fa_cfg (ud_base a)))" and "\<not> fa_listen (ud_base a)"
    and "TCPSegment_parse TCPSegment_new payload 0 = (NoError, seg)"
  shows "TCPOverUDPSocketAdapter_read K a k = Inr (Some seg, a\<lparr>ud_sock := sock\<rparr>, k')"
  using assms by (simp add: TCPOverUDPSocketAdapter_read_def)

end
