(* ===== verification/Event_Loop.thy ===== *)
theory Event_Loop
  imports File_Descriptor "HOL-Library.Sublist"
begin

unbundle bit_operations_syntax

text \<open>
  The event loop of \<^verbatim>\<open>src/libsponge/util/eventloop.hh\<close> and \<^verbatim>\<open>.cc\<close>. A rule watches a
  descriptor and has three closures over the state of the program that owns the loop; that
  state is the type parameter \<open>'s\<close>. The descriptor of a rule is a shared pointer, so it is
  read from the state each time. The system call \<open>poll\<close> is a parameter on the same state.
  The locale \<open>rule_contract\<close> is what the loop promises its clients: an invariant that the
  closures keep is kept by every round, and if every callback reads or writes its descriptor
  or ends the interest of its rule, no round fails with the busy wait error.
\<close>

section \<open>Rules\<close>

datatype Direction = In | Out

definition POLLIN :: u16 where "POLLIN = 0x001"

definition POLLOUT :: u16 where "POLLOUT = 0x004"

definition POLLERR :: u16 where "POLLERR = 0x008"

definition POLLHUP :: u16 where "POLLHUP = 0x010"

definition POLLNVAL :: u16 where "POLLNVAL = 0x020"

definition Direction_events :: "Direction \<Rightarrow> u16" where
  "Direction_events d = (case d of In \<Rightarrow> POLLIN | Out \<Rightarrow> POLLOUT)"

record 's Rule =
  rule_fd :: "'s \<Rightarrow> FDWrapper"
  rule_direction :: Direction
  rule_callback :: "'s \<Rightarrow> 's result"
  rule_interest :: "'s \<Rightarrow> bool"
  rule_cancel :: "'s \<Rightarrow> 's result"

definition Rule_service_count :: "'s Rule \<Rightarrow> 's \<Rightarrow> u32" where
  "Rule_service_count r s =
     (if rule_direction r = In then fd_read_count (rule_fd r s) else fd_write_count (rule_fd r s))"

datatype Result = Success | Timeout | Exit

definition EventLoop_add_rule :: "'s Rule \<Rightarrow> 's Rule list \<Rightarrow> 's Rule list" where
  "EventLoop_add_rule r rules = rules @ [r]"

section \<open>One round\<close>

text \<open>
  The first loop: rules at the end of their input or with a closed descriptor are cancelled
  and erased, the others get an entry for \<open>poll\<close>, an empty one when they are not interested.
\<close>

fun poll_setup :: "'s Rule list \<Rightarrow> 's \<Rightarrow> ('s Rule list \<times> pollfd list \<times> bool \<times> 's) result" where
  "poll_setup [] s = Inr ([], [], False, s)"
| "poll_setup (r # rules) s =
     (if rule_direction r = In \<and> fd_eof (rule_fd r s) then bindE (rule_cancel r s) (poll_setup rules)
      else if fd_closed (rule_fd r s) then bindE (rule_cancel r s) (poll_setup rules)
      else
        let interested = rule_interest r s;
            p = \<lparr>pfd_fd = fd_num (rule_fd r s),
                 pfd_events = (if interested then Direction_events (rule_direction r) else 0), pfd_revents = 0\<rparr>
        in bindE (poll_setup rules s) (\<lambda>(rules, pollfds, something_to_poll, s).
             Inr (r # rules, p # pollfds, interested \<or> something_to_poll, s)))"

definition poll_error :: "pollfd \<Rightarrow> bool" where
  "poll_error p \<longleftrightarrow> pfd_revents p AND (POLLERR OR POLLNVAL) \<noteq> 0"

definition poll_ready :: "pollfd \<Rightarrow> bool" where
  "poll_ready p \<longleftrightarrow> pfd_revents p AND pfd_events p \<noteq> 0"

definition poll_hup :: "pollfd \<Rightarrow> bool" where
  "poll_hup p \<longleftrightarrow> pfd_revents p AND POLLHUP \<noteq> 0"

text \<open>
  The second loop walks the rules with an index into the results; a rule whose only news is
  a hangup is cancelled and erased, a ready one is called, and a callback that did not touch
  its descriptor and is still interested is an error.
\<close>

fun service_loop :: "'s Rule list \<Rightarrow> pollfd list \<Rightarrow> nat \<Rightarrow> 's \<Rightarrow> ('s Rule list \<times> 's) result" where
  "service_loop [] pollfds idx s = Inr ([], s)"
| "service_loop (r # rules) pollfds idx s =
     (if length pollfds \<le> idx then Inl (Undefined ''pollfds[idx]'')
      else
        let p = pollfds ! idx
        in if poll_error p then Inl (RuntimeError ''EventLoop: error on polled file descriptor'')
           else if poll_hup p \<and> pfd_events p \<noteq> 0 \<and> \<not> poll_ready p then
             bindE (rule_cancel r s) (service_loop rules pollfds (idx + 1))
           else bindE
             (if poll_ready p then
                let count_before = Rule_service_count r s
                in bindE (rule_callback r s) (\<lambda>s.
                  if count_before = Rule_service_count r s \<and> rule_interest r s
                  then Inl (RuntimeError ''EventLoop: busy wait detected: callback did not read/write fd and is still interested'')
                  else Inr s)
              else Inr s)
             (\<lambda>s. bindE (service_loop rules pollfds (idx + 1) s) (\<lambda>(rules, s). Inr (r # rules, s))))"

definition EINTR :: int where "EINTR = 4"

definition EventLoop_wait_next_event ::
  "(pollfd list \<Rightarrow> int \<Rightarrow> 's \<Rightarrow> (int \<times> int \<times> pollfd list) \<times> 's) \<Rightarrow> int \<Rightarrow> 's Rule list \<Rightarrow> 's
    \<Rightarrow> (Result \<times> 's Rule list \<times> 's) result" where
  "EventLoop_wait_next_event poll timeout_ms rules s =
     bindE (poll_setup rules s) (\<lambda>(rules, pollfds, something_to_poll, s).
       if \<not> something_to_poll then Inr (Exit, rules, s)
       else
         let ((ret, errno, pollfds), s) = poll pollfds timeout_ms s;
             go_on = bindE (service_loop rules pollfds 0 s) (\<lambda>(rules, s). Inr (Success, rules, s))
         in case SystemCall ''poll'' ret errno 0 of
              Inr n \<Rightarrow> if n = 0 then Inr (Timeout, rules, s) else go_on
            | Inl (UnixError _ code) \<Rightarrow> if code = EINTR then Inr (Exit, rules, s) else go_on
            | Inl e \<Rightarrow> Inl e)"

section \<open>The contract of the loop with its rules\<close>

text \<open>
  What the loop relies on of \<open>poll\<close>: it returns an \<^verbatim>\<open>int\<close>, answers for the descriptors it was given, in their
  order, and reports only what was asked for, hangups and errors.
\<close>

definition poll_ok :: "(pollfd list \<Rightarrow> int \<Rightarrow> 's \<Rightarrow> (int \<times> int \<times> pollfd list) \<times> 's) \<Rightarrow> bool" where
  "poll_ok poll \<longleftrightarrow> (\<forall>ps t s ret errno ps' s'. poll ps t s = ((ret, errno, ps'), s') \<longrightarrow>
     - (2 ^ 31) \<le> ret \<and> ret < 2 ^ 31 \<and> map pfd_fd ps' = map pfd_fd ps \<and> map pfd_events ps' = map pfd_events ps
     \<and> (\<forall>p \<in> set ps'. pfd_revents p AND NOT (pfd_events p OR POLLERR OR POLLHUP OR POLLNVAL) = 0))"

lemma poll_ok_length: "poll_ok poll \<Longrightarrow> poll ps t s = ((ret, errno, ps'), s') \<Longrightarrow> length ps' = length ps"
  unfolding poll_ok_def by (metis length_map)

lemma poll_setup_length: "poll_setup rules s = Inr (rules', ps, b, s') \<Longrightarrow> length ps = length rules'"
  by (induction rules s arbitrary: rules' ps b s' rule: poll_setup.induct)
    (auto simp: Let_def bindE_Inr_iff split: if_splits)

lemma subseq_set: "subseq xs ys \<Longrightarrow> set xs \<subseteq> set ys"
  by (auto dest: list_emb_set)

lemma subseq_distinct: "subseq xs ys \<Longrightarrow> distinct ys \<Longrightarrow> distinct xs"
  by (induction rule: list_emb.induct) (auto dest: subseq_set)

lemma good_mono: "good err P m \<Longrightarrow> (\<And>x. P x \<Longrightarrow> Q x) \<Longrightarrow> good err Q m"
  by (cases m) auto

text \<open>
  \<open>pre r\<close> is what the interest of a rule promises its callback. It has to survive the calls
  of the other rules that come between the poll and the callback.
\<close>

locale rule_contract =
  fixes inv :: "'s \<Rightarrow> bool" and err :: "exn \<Rightarrow> bool" and rules :: "'s Rule set" and pre :: "'s Rule \<Rightarrow> 's \<Rightarrow> bool"
    and poll :: "pollfd list \<Rightarrow> int \<Rightarrow> 's \<Rightarrow> (int \<times> int \<times> pollfd list) \<times> 's"
  assumes interest_pre: "r \<in> rules \<Longrightarrow> inv s \<Longrightarrow> rule_interest r s \<Longrightarrow> pre r s"
    and callback_good: "r \<in> rules \<Longrightarrow> inv s \<Longrightarrow> pre r s \<Longrightarrow>
      good err (\<lambda>s'. inv s' \<and> (\<forall>r' \<in> rules - {r}. pre r' s \<longrightarrow> pre r' s')
        \<and> (Rule_service_count r s \<noteq> Rule_service_count r s' \<or> \<not> rule_interest r s')) (rule_callback r s)"
    and cancel_good: "r \<in> rules \<Longrightarrow> inv s \<Longrightarrow>
      good err (\<lambda>s'. inv s' \<and> (\<forall>r' \<in> rules - {r}. pre r' s \<longrightarrow> pre r' s')) (rule_cancel r s)"
    and poll_good: "inv s \<Longrightarrow> poll_ok poll \<and> inv (snd (poll ps t s)) \<and> (\<forall>r \<in> rules. pre r s \<longrightarrow> pre r (snd (poll ps t s)))"
    and polled_errors: "err (RuntimeError ''EventLoop: error on polled file descriptor'')"
begin

definition set_up :: "'s Rule list \<Rightarrow> 's \<Rightarrow> 's Rule list \<times> pollfd list \<times> bool \<times> 's \<Rightarrow> bool" where
  "set_up rs s = (\<lambda>(rs', ps, b, s'). subseq rs' rs \<and> inv s'
     \<and> list_all2 (\<lambda>r p. pfd_events p \<noteq> 0 \<longrightarrow> pre r s') rs' ps \<and> (\<forall>r \<in> rules - set rs. pre r s \<longrightarrow> pre r s'))"

lemma setup_good:
  assumes "set rs \<subseteq> rules" and "distinct rs" and "inv s"
  shows "good err (set_up rs s) (poll_setup rs s)"
  using assms
proof (induction rs arbitrary: s)
  case (Cons r rs)
  then have r: "r \<in> rules" and out: "r \<notin> set rs" by auto
  have rest: "good err (set_up rs s') (poll_setup rs s')" if "inv s'" for s'
    using Cons.IH [OF _ _ that] Cons.prems by simp
  have "good err (set_up (r # rs) s) (bindE (rule_cancel r s) (poll_setup rs))"
  proof (rule good_bindE [OF cancel_good [OF r Cons.prems(3)]])
    fix s' assume s': "inv s' \<and> (\<forall>r' \<in> rules - {r}. pre r' s \<longrightarrow> pre r' s')"
    show "good err (set_up (r # rs) s) (poll_setup rs s')"
      by (rule good_mono [OF rest]) (use s' in \<open>auto simp: set_up_def\<close>)
  qed
  moreover have "good err (set_up (r # rs) s) (bindE (poll_setup rs s) (\<lambda>(rules, pollfds, b, s). Inr (r # rules, p # pollfds, c \<or> b, s)))"
    if "pfd_events p \<noteq> 0 \<longrightarrow> rule_interest r s" for p c
    by (rule good_bindE [OF rest [OF Cons.prems(3)]])
      (use that r out interest_pre [OF r Cons.prems(3)] in \<open>auto simp: set_up_def\<close>)
  ultimately show ?case by (simp add: Let_def)
qed (simp add: set_up_def)

lemma serve_one_good:
  assumes "r \<in> rules" and "inv s" and "poll_ready p \<longrightarrow> pre r s"
  shows "good err (\<lambda>s'. inv s' \<and> (\<forall>r' \<in> rules - {r}. pre r' s \<longrightarrow> pre r' s')) (if poll_ready p then
      let count_before = Rule_service_count r s
      in bindE (rule_callback r s) (\<lambda>s.
        if count_before = Rule_service_count r s \<and> rule_interest r s then Inl (RuntimeError m) else Inr s)
      else Inr s)"
  using assms callback_good [OF assms(1,2)]
  by (cases "rule_callback r s") (auto simp: Let_def)

lemma service_good:
  assumes "set rs \<subseteq> rules" and "distinct rs" and "inv s" and "length ps = idx + length rs"
    and "list_all2 (\<lambda>r p. pfd_events p \<noteq> 0 \<longrightarrow> pre r s) rs (drop idx ps)"
  shows "good err (\<lambda>(rs', s'). subseq rs' rs \<and> inv s') (service_loop rs ps idx s)"
  using assms
proof (induction rs arbitrary: idx s)
  case (Cons r rs)
  then have r: "r \<in> rules" and idx: "\<not> length ps \<le> idx" and out: "r \<notin> set rs" by auto
  then have split: "drop idx ps = ps ! idx # drop (idx + 1) ps" by (simp add: Cons_nth_drop_Suc)
  have pre: "pfd_events (ps ! idx) \<noteq> 0 \<longrightarrow> pre r s"
    and pres: "list_all2 (\<lambda>r p. pfd_events p \<noteq> 0 \<longrightarrow> pre r s) rs (drop (idx + 1) ps)"
    using Cons.prems(5) unfolding split by auto
  have rest: "good err (\<lambda>(rs', s'). subseq rs' rs \<and> inv s') (service_loop rs ps (idx + 1) s')"
    if s': "inv s' \<and> (\<forall>r' \<in> rules - {r}. pre r' s \<longrightarrow> pre r' s')" for s'
  proof -
    have "list_all2 (\<lambda>r p. pfd_events p \<noteq> 0 \<longrightarrow> pre r s') rs (drop (idx + 1) ps)"
      by (rule list.rel_mono_strong [OF pres]) (use s' Cons.prems(1) out in auto)
    then show ?thesis using Cons.IH [of s' "idx + 1"] Cons.prems s' by simp
  qed
  have keep: "good err (\<lambda>(rs', s'). subseq rs' (r # rs) \<and> inv s')
      (bindE (service_loop rs ps (idx + 1) s') (\<lambda>(rs, s). Inr (r # rs, s)))"
    if "inv s' \<and> (\<forall>r' \<in> rules - {r}. pre r' s \<longrightarrow> pre r' s')" for s'
    by (rule good_bindE [OF rest [OF that]]) auto
  have drop: "good err (\<lambda>(rs', s'). subseq rs' (r # rs) \<and> inv s') (bindE (rule_cancel r s) (service_loop rs ps (idx + 1)))"
    by (rule good_bindE [OF cancel_good [OF r Cons.prems(3)]]) (rule good_mono [OF rest], auto)
  have "poll_ready (ps ! idx) \<longrightarrow> pre r s" using pre by (auto simp: poll_ready_def)
  then show ?case
    using idx drop good_bindE [OF serve_one_good [OF r Cons.prems(3)] keep] polled_errors
    by (simp add: Let_def del: One_nat_def)
qed simp

lemma wait_next_event_good:
  assumes "set rs \<subseteq> rules" and "distinct rs" and "inv s"
  shows "good err (\<lambda>(res, rs', s'). subseq rs' rs \<and> inv s') (EventLoop_wait_next_event poll t rs s)"
  unfolding EventLoop_wait_next_event_def
proof (rule good_bindE [OF setup_good [OF assms]])
  fix x
  assume x: "set_up rs s x"
  obtain rs' ps b s1 where [simp]: "x = (rs', ps, b, s1)" by (metis prod_cases4)
  from x have rs': "subseq rs' rs" and s1: "inv s1" and pres: "list_all2 (\<lambda>r p. pfd_events p \<noteq> 0 \<longrightarrow> pre r s1) rs' ps"
    by (auto simp: set_up_def)
  have sub: "set rs' \<subseteq> rules" "distinct rs'" using assms(1,2) subseq_set [OF rs'] subseq_distinct [OF rs'] by auto
  obtain ret errno ps' s2 where call: "poll ps t s1 = ((ret, errno, ps'), s2)" by (metis prod.exhaust)
  have s2: "inv s2" "poll_ok poll" "\<forall>r \<in> rules. pre r s1 \<longrightarrow> pre r s2" using poll_good [OF s1, of ps t] call by simp_all
  then have events: "map pfd_events ps' = map pfd_events ps" using call unfolding poll_ok_def by blast
  have "list_all2 (\<lambda>r e. e \<noteq> 0 \<longrightarrow> pre r s1) rs' (map pfd_events ps)" using pres by (simp add: list_all2_map2)
  then have "list_all2 (\<lambda>r p. pfd_events p \<noteq> 0 \<longrightarrow> pre r s1) rs' ps'" unfolding events [symmetric] by (simp add: list_all2_map2)
  then have pres': "list_all2 (\<lambda>r p. pfd_events p \<noteq> 0 \<longrightarrow> pre r s2) rs' ps'"
    by (rule list.rel_mono_strong) (use s2(3) sub in auto)
  then have "good err (\<lambda>(rs'', s'). subseq rs'' rs' \<and> inv s') (service_loop rs' ps' 0 s2)"
    using sub s2(1) by (intro service_good) (auto dest: list_all2_lengthD)
  then have go_on: "good err (\<lambda>(res, rs'', s'). subseq rs'' rs \<and> inv s')
      (bindE (service_loop rs' ps' 0 s2) (\<lambda>(rules, s). Inr (Success, rules, s)))"
    by (rule good_bindE) (auto intro: subseq_order.trans [OF _ rs'])
  show "good err (\<lambda>(res, rs', s'). subseq rs' rs \<and> inv s')
      (case x of (rules, pollfds, something_to_poll, s) \<Rightarrow>
         if \<not> something_to_poll then Inr (Exit, rules, s)
         else
           let ((ret, errno, pollfds), s) = poll pollfds t s;
               go_on = bindE (service_loop rules pollfds 0 s) (\<lambda>(rules, s). Inr (Success, rules, s))
           in case SystemCall ''poll'' ret errno 0 of
                Inr n \<Rightarrow> if n = 0 then Inr (Timeout, rules, s) else go_on
              | Inl (UnixError _ code) \<Rightarrow> if code = EINTR then Inr (Exit, rules, s) else go_on
              | Inl e \<Rightarrow> Inl e)"
    using go_on rs' s1 s2(1) by (auto simp: call SystemCall_def Let_def)
qed

end

section \<open>Which rules a round serves\<close>

text \<open>
  \<open>hung_up\<close>: the rule was polled and its only news is a hangup. \<open>attended\<close>: the callback
  was called, and it read or wrote the descriptor or the rule lost its interest.
\<close>

definition hung_up :: "pollfd \<Rightarrow> bool" where
  "hung_up p \<longleftrightarrow> poll_hup p \<and> pfd_events p \<noteq> 0 \<and> \<not> poll_ready p"

definition attended :: "'s Rule \<Rightarrow> bool" where
  "attended r \<longleftrightarrow> (\<exists>u v. rule_callback r u = Inr v
     \<and> (Rule_service_count r u \<noteq> Rule_service_count r v \<or> \<not> rule_interest r v))"

lemma reported_bits:
  fixes x e a h v :: u16
  assumes "x AND NOT (e OR a OR h OR v) = 0" and "x \<noteq> 0"
  shows "x AND e \<noteq> 0 \<or> x AND (a OR v) \<noteq> 0 \<or> x AND h \<noteq> 0"
proof (rule ccontr)
  assume none: "\<not> ?thesis"
  have "\<not> bit x n" for n
  proof
    assume n: "bit x n"
    then have "n < 16" using bit_imp_le_length [of x n] by simp
    have "\<not> bit (x AND NOT (e OR a OR h OR v)) n" "\<not> bit (x AND e) n" "\<not> bit (x AND (a OR v)) n" "\<not> bit (x AND h) n"
      using assms(1) none by simp_all
    with n \<open>n < 16\<close> show False by (simp add: bit_simps)
  qed
  then have "x = 0" by (simp add: bit_eq_iff)
  with assms(2) show False by contradiction
qed

lemma service_loop_serves:
  assumes "service_loop rs ps idx s = Inr (rs', s')"
  shows "(\<forall>p \<in> set (take (length rs) (drop idx ps)). \<not> poll_error p)
    \<and> rs' = map fst (filter (\<lambda>(r, p). \<not> hung_up p) (zip rs (drop idx ps)))
    \<and> (\<forall>(r, p) \<in> set (zip rs (drop idx ps)). poll_ready p \<longrightarrow> attended r)"
  using assms
proof (induction rs arbitrary: idx s rs')
  case (Cons r rs)
  then have idx: "idx < length ps" by (simp split: if_splits)
  then have split: "drop idx ps = ps ! idx # drop (idx + 1) ps" by (simp add: Cons_nth_drop_Suc)
  let ?p = "ps ! idx"
  have no_err: "\<not> poll_error ?p" using Cons.prems idx by (auto simp: Let_def split: if_splits)
  show ?case
  proof (cases "hung_up ?p")
    case True
    with Cons.prems idx no_err obtain s1 where "service_loop rs ps (idx + 1) s1 = Inr (rs', s')"
      by (auto simp: Let_def hung_up_def bindE_Inr_iff)
    from Cons.IH [OF this] show ?thesis
      unfolding split using True no_err by (auto simp: hung_up_def)
  next
    case False
    with Cons.prems idx no_err obtain s1 rs1 where rest: "service_loop rs ps (idx + 1) s1 = Inr (rs1, s')"
      and rs': "rs' = r # rs1" and ready: "poll_ready ?p \<longrightarrow> attended r"
      by (auto simp: Let_def hung_up_def attended_def bindE_Inr_iff split: if_splits)
    from Cons.IH [OF rest] show ?thesis
      unfolding split using False no_err rs' ready by auto
  qed
qed simp

lemma setup_keeps:
  assumes "poll_setup rs s = Inr (rs', ps, b, s')"
  shows "subseq rs' rs \<and> length ps = length rs'
    \<and> list_all2 (\<lambda>r p. pfd_events p \<in> {0, Direction_events (rule_direction r)}) rs' ps
    \<and> (b \<longleftrightarrow> (\<exists>p \<in> set ps. pfd_events p \<noteq> 0))"
  using assms
proof (induction rs s arbitrary: rs' ps b s' rule: poll_setup.induct)
  case (2 r rs s)
  have "Direction_events (rule_direction r) \<noteq> 0"
    by (cases "rule_direction r") (simp_all add: Direction_events_def POLLIN_def POLLOUT_def)
  with 2 show ?case
    by (fastforce simp: Let_def bindE_Inr_iff split: if_splits)
qed simp


text \<open>A rule that reads its descriptor, and a system that reports what was asked for.\<close>

definition reading_rule :: "bool \<Rightarrow> FDWrapper Rule" where
  "reading_rule wanted = \<lparr>rule_fd = \<lambda>w. w, rule_direction = In,
     rule_callback = \<lambda>w. Inr (FileDescriptor_register_read w), rule_interest = \<lambda>w. wanted, rule_cancel = Inr\<rparr>"

definition open_descriptor :: FDWrapper where
  "open_descriptor = \<lparr>fd_num = 3, fd_eof = False, fd_closed = False, fd_read_count = 0, fd_write_count = 0\<rparr>"

definition all_ready :: "pollfd list \<Rightarrow> int \<Rightarrow> 's \<Rightarrow> (int \<times> int \<times> pollfd list) \<times> 's" where
  "all_ready ps t s = ((1, 0, map (\<lambda>p. p\<lparr>pfd_revents := pfd_events p\<rparr>) ps), s)"

lemma all_ready_ok: "poll_ok all_ready"
proof -
  have "(e :: u16) AND (NOT e AND a) = 0" for e a
    by (rule bit_eqI) (auto simp: bit_simps)
  then show ?thesis by (auto simp: poll_ok_def all_ready_def and.assoc)
qed


text \<open>
  The comment on \<^verbatim>\<open>wait_next_event\<close> says that an error during polling throws. A \<open>poll\<close> that
  fails with anything but \<open>EINTR\<close> is reported as \<open>Success\<close> although nothing was served.
\<close>

theorem poll_failure_is_success:
  assumes "errno \<noteq> EINTR" and "errno \<noteq> 0"
  shows "EventLoop_wait_next_event (\<lambda>ps t w. ((- 1, errno, ps), w)) 10 [reading_rule True] open_descriptor
    = Inr (Success, [reading_rule True], open_descriptor)"
  using assms
  by (simp add: EventLoop_wait_next_event_def reading_rule_def open_descriptor_def SystemCall_id poll_error_def
      poll_hup_def poll_ready_def)

text \<open>
  A hangup on the descriptor of a rule that is not interested ends the poll but serves and
  erases no rule: the round succeeds in the state it began in, and so does the next one.
\<close>

theorem hangup_without_interest_spins:
  "EventLoop_wait_next_event (\<lambda>ps t w. ((1, 0, [ps ! 0, (ps ! 1)\<lparr>pfd_revents := POLLHUP\<rparr>]), w)) 10
      [reading_rule True, reading_rule False] open_descriptor
    = Inr (Success, [reading_rule True, reading_rule False], open_descriptor)"
  by (simp add: EventLoop_wait_next_event_def reading_rule_def open_descriptor_def SystemCall_id poll_error_def
      poll_hup_def poll_ready_def Direction_events_def POLLERR_def POLLNVAL_def POLLHUP_def POLLIN_def Let_def)

end
