(* ===== verification/Sponge_Socket.thy ===== *)
theory Sponge_Socket
  imports Connection_Run Adapters Event_Loop
begin

text \<open>
  The TCP socket of \<^verbatim>\<open>src/libsponge/tcp_helpers/tcp_sponge_socket.hh\<close> and \<^verbatim>\<open>.cc\<close>: a
  \<open>TCPConnection\<close> behind the interface of a Unix socket. The owner writes to and reads from
  one end of a pair of local sockets; the thread of the connection serves the other end,
  \<open>_thread_data\<close>, and a datagram adapter with an event loop of four rules. The class is a
  template over the adapter, here the record of operations \<open>AdaptT\<close>. The rules of the event
  loop are closures over the object, so they are kept beside the state and not in it. The
  flag \<open>_abort\<close>, which the owner's thread sets, is read from the environment.
\<close>

section \<open>The socket\<close>

record ('a, 'k) TCPSpongeSocket =
  ss_owner :: FDWrapper
  ss_thread_data :: FDWrapper
  ss_adapter :: 'a
  ss_tcp :: "TCPConnection option"
  ss_inbound_shutdown :: bool
  ss_outbound_shutdown :: bool
  ss_fully_acked :: bool
  ss_kernel :: 'k

type_synonym ('a, 'k) socket_rule = "('a, 'k) TCPSpongeSocket Rule"

definition socket_pair_helper :: "'k Syscalls \<Rightarrow> int \<Rightarrow> 'k \<Rightarrow> (FDWrapper \<times> FDWrapper \<times> 'k) result" where
  "socket_pair_helper K type k =
     (let ((ret, errno, fd0, fd1), k) = sys_socketpair K type k
      in bindE (SystemCall ''socketpair'' ret errno 0) (\<lambda>_.
         bindE (FDWrapper_new fd0) (\<lambda>w0. bindE (FDWrapper_new fd1) (\<lambda>w1. Inr (w0, w1, k)))))"

definition TCPSpongeSocket_new :: "'k Syscalls \<Rightarrow> 'a \<Rightarrow> 'k \<Rightarrow> ('a, 'k) TCPSpongeSocket result" where
  "TCPSpongeSocket_new K datagram_interface k =
     bindE (socket_pair_helper K SOCK_STREAM k) (\<lambda>(w0, w1, k).
     bindE (LocalStreamSocket_of_fd K w0 k) (\<lambda>(owner, k).
     bindE (LocalStreamSocket_of_fd K w1 k) (\<lambda>(thread_data, k).
     bindE (FileDescriptor_set_blocking K False thread_data k) (\<lambda>k.
       Inr \<lparr>ss_owner = owner, ss_thread_data = thread_data, ss_adapter = datagram_interface, ss_tcp = None,
         ss_inbound_shutdown = False, ss_outbound_shutdown = False, ss_fully_acked = False, ss_kernel = k\<rparr>))))"

text \<open>Access to the connection: \<open>*_tcp\<close> of an empty optional is undefined.\<close>

definition tcp_of :: "('a, 'k) TCPSpongeSocket \<Rightarrow> TCPConnection result" where
  "tcp_of s = (case ss_tcp s of None \<Rightarrow> Inl (Undefined ''*_tcp'') | Some tcp \<Rightarrow> Inr tcp)"

section \<open>The four rules\<close>

text \<open>
  The debugging output names the peer, which asks the resolver and can therefore throw; the
  text itself goes to the terminal and is not kept.
\<close>

definition name_peer :: "Resolver \<Rightarrow> ('a, 'k) AdaptT \<Rightarrow> ('a, 'k) TCPSpongeSocket \<Rightarrow> string result" where
  "name_peer R A s = Address_to_string R (fc_destination (ad_config A (ss_adapter s)))"

definition rule_datagram_in :: "Resolver \<Rightarrow> ('a, 'k) AdaptT \<Rightarrow> ('a, 'k) socket_rule" where
  "rule_datagram_in R A = \<lparr>rule_fd = \<lambda>s. ad_fd A (ss_adapter s), rule_direction = In,
     rule_callback = \<lambda>s.
       bindE (ad_read A (ss_adapter s) (ss_kernel s)) (\<lambda>(seg, a, k).
       bindE (tcp_of s) (\<lambda>tcp.
       bindE (case seg of None \<Rightarrow> Inr tcp | Some seg \<Rightarrow> TCPConnection_segment_received seg tcp) (\<lambda>tcp.
         let s = s\<lparr>ss_adapter := a, ss_kernel := k, ss_tcp := Some tcp\<rparr>
         in if fd_eof (ss_thread_data s) \<and> TCPConnection_bytes_in_flight tcp = 0 \<and> \<not> ss_fully_acked s
            then bindE (name_peer R A s) (\<lambda>_. Inr (s\<lparr>ss_fully_acked := True\<rparr>)) else Inr s))),
     rule_interest = \<lambda>s. case ss_tcp s of None \<Rightarrow> False | Some tcp \<Rightarrow> TCPConnection_active tcp,
     rule_cancel = Inr\<rparr>"

definition rule_owner_in :: "'k Syscalls \<Rightarrow> Resolver \<Rightarrow> ('a, 'k) AdaptT \<Rightarrow> ('a, 'k) socket_rule" where
  "rule_owner_in K R A = \<lparr>rule_fd = ss_thread_data, rule_direction = In,
     rule_callback = \<lambda>s.
       bindE (tcp_of s) (\<lambda>tcp.
       bindE (FileDescriptor_read K (TCPConnection_remaining_outbound_capacity tcp) (ss_thread_data s) (ss_kernel s)) (\<lambda>(data, w, k).
         let len = sz data;
             (amount_written, tcp) = TCPConnection_write data tcp
         in if amount_written \<noteq> len
            then Inl (RuntimeError ''TCPConnection::write() accepted less than advertised length'')
            else
              let s = s\<lparr>ss_thread_data := w, ss_kernel := k, ss_tcp := Some tcp\<rparr>
              in if fd_eof w then
                   let s = s\<lparr>ss_tcp := Some (TCPConnection_end_input_stream tcp), ss_outbound_shutdown := True\<rparr>
                   in bindE (name_peer R A s) (\<lambda>_. Inr s)
                 else Inr s)),
     rule_interest = \<lambda>s. case ss_tcp s of None \<Rightarrow> False | Some tcp \<Rightarrow>
       TCPConnection_active tcp \<and> \<not> ss_outbound_shutdown s \<and> 0 < TCPConnection_remaining_outbound_capacity tcp,
     rule_cancel = \<lambda>s.
       bindE (tcp_of s) (\<lambda>tcp.
         Inr (s\<lparr>ss_tcp := Some (TCPConnection_end_input_stream tcp), ss_outbound_shutdown := True\<rparr>))\<rparr>"

definition rule_owner_out :: "'k Syscalls \<Rightarrow> Resolver \<Rightarrow> ('a, 'k) AdaptT \<Rightarrow> ('a, 'k) socket_rule" where
  "rule_owner_out K R A = \<lparr>rule_fd = ss_thread_data, rule_direction = Out,
     rule_callback = \<lambda>s.
       bindE (tcp_of s) (\<lambda>tcp.
         let inbound = TCPConnection_inbound_stream tcp;
             amount_to_write = min 65536 (ByteStream_buffer_size inbound);
             buffer = ByteStream_peek_output amount_to_write inbound
         in bindE (FileDescriptor_write K [buffer] False (ss_thread_data s) (ss_kernel s)) (\<lambda>(bytes_written, w, k).
              let inbound = ByteStream_pop_output bytes_written inbound;
                  s = s\<lparr>ss_thread_data := w, ss_kernel := k, ss_tcp := Some (set_inbound inbound tcp)\<rparr>
              in if ByteStream_eof inbound \<or> ByteStream_error inbound then
                   bindE (Socket_shutdown K SHUT_WR (ss_thread_data s) (ss_kernel s)) (\<lambda>(w, k).
                     let s = s\<lparr>ss_thread_data := w, ss_kernel := k, ss_inbound_shutdown := True\<rparr>
                     in bindE (name_peer R A s) (\<lambda>_. Inr s))
                 else Inr s)),
     rule_interest = \<lambda>s. case ss_tcp s of None \<Rightarrow> False | Some tcp \<Rightarrow>
       let inbound = TCPConnection_inbound_stream tcp
       in \<not> ByteStream_buffer_empty inbound
          \<or> ((ByteStream_eof inbound \<or> ByteStream_error inbound) \<and> \<not> ss_inbound_shutdown s),
     rule_cancel = Inr\<rparr>"

text \<open>The loop that hands every queued segment to the adapter and removes it.\<close>

fun send_segments :: "('a, 'k) AdaptT \<Rightarrow> TCPSegment list \<Rightarrow> 'a \<Rightarrow> 'k \<Rightarrow> ('a \<times> 'k) result" where
  "send_segments A [] a k = Inr (a, k)"
| "send_segments A (seg # segs) a k = bindE (ad_write A seg a k) (\<lambda>(_, a, k). send_segments A segs a k)"

definition rule_datagram_out :: "('a, 'k) AdaptT \<Rightarrow> ('a, 'k) socket_rule" where
  "rule_datagram_out A = \<lparr>rule_fd = \<lambda>s. ad_fd A (ss_adapter s), rule_direction = Out,
     rule_callback = \<lambda>s.
       bindE (tcp_of s) (\<lambda>tcp.
       bindE (send_segments A (cn_segments_out tcp) (ss_adapter s) (ss_kernel s)) (\<lambda>(a, k).
         Inr (s\<lparr>ss_adapter := a, ss_kernel := k, ss_tcp := Some (tcp\<lparr>cn_segments_out := []\<rparr>)\<rparr>))),
     rule_interest = \<lambda>s. case ss_tcp s of None \<Rightarrow> False | Some tcp \<Rightarrow> cn_segments_out tcp \<noteq> [],
     rule_cancel = Inr\<rparr>"

definition TCPSpongeSocket_initialize_TCP ::
  "'k Syscalls \<Rightarrow> Resolver \<Rightarrow> ('a, 'k) AdaptT \<Rightarrow> u32 \<Rightarrow> TCPConfig \<Rightarrow> ('a, 'k) TCPSpongeSocket
    \<Rightarrow> ('a, 'k) socket_rule list \<times> ('a, 'k) TCPSpongeSocket" where
  "TCPSpongeSocket_initialize_TCP K R A random config s =
     (let s = s\<lparr>ss_tcp := Some (TCPConnection_new config random)\<rparr>;
          rules = EventLoop_add_rule (rule_datagram_in R A) [];
          rules = EventLoop_add_rule (rule_owner_in K R A) rules;
          rules = EventLoop_add_rule (rule_owner_out K R A) rules;
          rules = EventLoop_add_rule (rule_datagram_out A) rules
      in (rules, s))"

section \<open>The loop of the connection's thread\<close>

definition TCP_TICK_MS :: int where "TCP_TICK_MS = 10"

definition socket_poll ::
  "'k Syscalls \<Rightarrow> pollfd list \<Rightarrow> int \<Rightarrow> ('a, 'k) TCPSpongeSocket \<Rightarrow> (int \<times> int \<times> pollfd list) \<times> ('a, 'k) TCPSpongeSocket" where
  "socket_poll K ps t s = (let (r, k) = sys_poll K ps t (ss_kernel s) in (r, s\<lparr>ss_kernel := k\<rparr>))"

text \<open>What follows a round: the connection and the adapter are told how much time has passed.\<close>

definition tcp_loop_tick ::
  "'k Syscalls \<Rightarrow> ('a, 'k) AdaptT \<Rightarrow> u64 \<Rightarrow> ('a, 'k) TCPSpongeSocket \<Rightarrow> (u64 \<times> ('a, 'k) TCPSpongeSocket) result" where
  "tcp_loop_tick K A base_time s =
     (case ss_tcp s of
        None \<Rightarrow> Inl (RuntimeError ''bad optional access'')
      | Some tcp \<Rightarrow>
          if TCPConnection_active tcp then
            let (next_time, k) = sys_clock K (ss_kernel s)
            in bindE (TCPConnection_tick (next_time - base_time) tcp) (\<lambda>tcp.
               bindE (ad_tick A (next_time - base_time) (ss_adapter s) k) (\<lambda>(a, k).
                 Inr (next_time, s\<lparr>ss_tcp := Some tcp, ss_adapter := a, ss_kernel := k\<rparr>)))
          else Inr (base_time, s))"

partial_function (option) tcp_loop ::
  "'k Syscalls \<Rightarrow> ('a, 'k) AdaptT \<Rightarrow> ('k \<Rightarrow> bool) \<Rightarrow> (('a, 'k) TCPSpongeSocket \<Rightarrow> bool) \<Rightarrow> u64
    \<Rightarrow> ('a, 'k) socket_rule list \<Rightarrow> ('a, 'k) TCPSpongeSocket
    \<Rightarrow> (('a, 'k) socket_rule list \<times> ('a, 'k) TCPSpongeSocket) result option" where
  "tcp_loop K A abort condition base_time rules s =
     (if condition s then
        (case EventLoop_wait_next_event (socket_poll K) TCP_TICK_MS rules s of
           Inl e \<Rightarrow> Some (Inl e)
         | Inr (ret, rules, s) \<Rightarrow>
             if ret = Exit \<or> abort (ss_kernel s) then Some (Inr (rules, s))
             else (case tcp_loop_tick K A base_time s of
                 Inl e \<Rightarrow> Some (Inl e)
               | Inr (base_time, s) \<Rightarrow> tcp_loop K A abort condition base_time rules s))
      else Some (Inr (rules, s)))"

definition TCPSpongeSocket_tcp_loop ::
  "'k Syscalls \<Rightarrow> ('a, 'k) AdaptT \<Rightarrow> ('k \<Rightarrow> bool) \<Rightarrow> (('a, 'k) TCPSpongeSocket \<Rightarrow> bool)
    \<Rightarrow> ('a, 'k) socket_rule list \<Rightarrow> ('a, 'k) TCPSpongeSocket
    \<Rightarrow> (('a, 'k) socket_rule list \<times> ('a, 'k) TCPSpongeSocket) result option" where
  "TCPSpongeSocket_tcp_loop K A abort condition rules s =
     (let (base_time, k) = sys_clock K (ss_kernel s)
      in tcp_loop K A abort condition base_time rules (s\<lparr>ss_kernel := k\<rparr>))"

section \<open>Connecting, accepting and closing\<close>

definition in_state :: "State \<Rightarrow> ('a, 'k) TCPSpongeSocket \<Rightarrow> bool" where
  "in_state st s = (case ss_tcp s of None \<Rightarrow> False
     | Some tcp \<Rightarrow> TCPState_eq (TCPConnection_state tcp) (TCPState_of_State st))"

definition TCPSpongeSocket_connect ::
  "'k Syscalls \<Rightarrow> Resolver \<Rightarrow> ('a, 'k) AdaptT \<Rightarrow> ('k \<Rightarrow> bool) \<Rightarrow> u32 \<Rightarrow> TCPConfig \<Rightarrow> FdAdapterConfig \<Rightarrow> ('a, 'k) TCPSpongeSocket
    \<Rightarrow> (('a, 'k) socket_rule list \<times> ('a, 'k) TCPSpongeSocket) result option" where
  "TCPSpongeSocket_connect K R A abort random c_tcp c_ad s =
     (if ss_tcp s \<noteq> None then Some (Inl (RuntimeError ''connect() with TCPConnection already initialized''))
      else
        let (rules, s) = TCPSpongeSocket_initialize_TCP K R A random c_tcp s;
            s = s\<lparr>ss_adapter := ad_set_config A c_ad (ss_adapter s),
                  ss_tcp := map_option TCPConnection_connect (ss_tcp s)\<rparr>
        in case bindE (Address_to_string R (fc_destination c_ad)) (\<lambda>_. tcp_of s) of
             Inl e \<Rightarrow> Some (Inl e)
           | Inr tcp \<Rightarrow>
               if \<not> in_state SYN_SENT s
               then Some (Inl (RuntimeError (''After TCPConnection::connect(), state was '' @ TCPState_name (TCPConnection_state tcp)
                      @ '' but expected '' @ TCPState_name (TCPState_of_State SYN_SENT))))
               else TCPSpongeSocket_tcp_loop K A abort (in_state SYN_SENT) rules s)"

definition TCPSpongeSocket_listen_and_accept ::
  "'k Syscalls \<Rightarrow> Resolver \<Rightarrow> ('a, 'k) AdaptT \<Rightarrow> ('k \<Rightarrow> bool) \<Rightarrow> u32 \<Rightarrow> TCPConfig \<Rightarrow> FdAdapterConfig \<Rightarrow> ('a, 'k) TCPSpongeSocket
    \<Rightarrow> (('a, 'k) socket_rule list \<times> ('a, 'k) TCPSpongeSocket) result option" where
  "TCPSpongeSocket_listen_and_accept K R A abort random c_tcp c_ad s =
     (if ss_tcp s \<noteq> None then Some (Inl (RuntimeError ''listen_and_accept() with TCPConnection already initialized''))
      else
        let (rules, s) = TCPSpongeSocket_initialize_TCP K R A random c_tcp s;
            s = s\<lparr>ss_adapter := ad_set_listening A True (ad_set_config A c_ad (ss_adapter s))\<rparr>
        in TCPSpongeSocket_tcp_loop K A abort (\<lambda>s. in_state LISTEN s \<or> in_state SYN_RCVD s \<or> in_state SYN_SENT s) rules s)"

text \<open>
  The body of the thread: when the loop ends, the owner's end of the pair is shut down and
  the connection destroyed; what its destructor queues is never sent.
\<close>

definition TCPSpongeSocket_tcp_main ::
  "'k Syscalls \<Rightarrow> ('a, 'k) AdaptT \<Rightarrow> ('k \<Rightarrow> bool) \<Rightarrow> ('a, 'k) socket_rule list \<Rightarrow> ('a, 'k) TCPSpongeSocket
    \<Rightarrow> ('a, 'k) TCPSpongeSocket result option" where
  "TCPSpongeSocket_tcp_main K A abort rules s =
     (if ss_tcp s = None then Some (Inl (RuntimeError ''no TCP''))
      else
        (case TCPSpongeSocket_tcp_loop K A abort (\<lambda>s. True) rules s of
           None \<Rightarrow> None
         | Some (Inl e) \<Rightarrow> Some (Inl e)
         | Some (Inr (rules, s)) \<Rightarrow> Some
             (bindE (Socket_shutdown K SHUT_RDWR (ss_owner s) (ss_kernel s)) (\<lambda>(w, k).
                Inr (s\<lparr>ss_owner := w, ss_kernel := k, ss_tcp := None\<rparr>)))))"

text \<open>What the owner's thread does before it waits for the thread of the connection.\<close>

definition TCPSpongeSocket_wait_until_closed ::
  "'k Syscalls \<Rightarrow> ('a, 'k) TCPSpongeSocket \<Rightarrow> ('a, 'k) TCPSpongeSocket result" where
  "TCPSpongeSocket_wait_until_closed K s =
     bindE (Socket_shutdown K SHUT_RDWR (ss_owner s) (ss_kernel s)) (\<lambda>(w, k). Inr (s\<lparr>ss_owner := w, ss_kernel := k\<rparr>))"

section \<open>Sockets over IP and over Ethernet\<close>

definition random_private_ethernet_address :: "(nat \<Rightarrow> u32) \<Rightarrow> EthernetAddress" where
  "random_private_ethernet_address random =
     (let addr = map (\<lambda>i. ucast (random i)) [0..<6]
      in addr[0 := ((addr ! 0) OR 0x02) AND 0xfe])"

definition fast_config :: TCPConfig where
  "fast_config = TCPConfig_default\<lparr>cfg_rt_timeout := 100\<rparr>"

definition multiplexer_config :: "Resolver \<Rightarrow> string \<Rightarrow> u32 \<Rightarrow> Address \<Rightarrow> FdAdapterConfig result" where
  "multiplexer_config R local_ip random_port address =
     bindE (FdAdapterConfig_new R) (\<lambda>c.
     bindE (Address_of_host R local_ip (dec (unat (ucast random_port :: u16)))) (\<lambda>source.
       Inr (c\<lparr>fc_source := source, fc_destination := address\<rparr>)))"

definition CS144TCPSocket_connect ::
  "'k Syscalls \<Rightarrow> Resolver \<Rightarrow> ('k \<Rightarrow> bool) \<Rightarrow> u32 \<Rightarrow> u32 \<Rightarrow> Address \<Rightarrow> (TCPOverIPv4OverTunFdAdapter, 'k) TCPSpongeSocket
    \<Rightarrow> ((TCPOverIPv4OverTunFdAdapter, 'k) socket_rule list \<times> (TCPOverIPv4OverTunFdAdapter, 'k) TCPSpongeSocket) result option" where
  "CS144TCPSocket_connect K R abort random_port random address s =
     (case multiplexer_config R ''169.254.144.9'' random_port address of
        Inl e \<Rightarrow> Some (Inl e)
      | Inr c_ad \<Rightarrow> TCPSpongeSocket_connect K R (tun_adapter K R) abort random fast_config c_ad s)"

definition LOCAL_TAP_IP_ADDRESS :: string where "LOCAL_TAP_IP_ADDRESS = ''169.254.10.9''"

definition LOCAL_TAP_NEXT_HOP_ADDRESS :: string where "LOCAL_TAP_NEXT_HOP_ADDRESS = ''169.254.10.1''"

definition FullStackSocket_new ::
  "'k Syscalls \<Rightarrow> Resolver \<Rightarrow> (nat \<Rightarrow> u32) \<Rightarrow> FDWrapper \<Rightarrow> 'k \<Rightarrow> (TCPOverIPv4OverEthernetAdapter, 'k) TCPSpongeSocket result" where
  "FullStackSocket_new K R random tap k =
     bindE (Address_of_host R LOCAL_TAP_IP_ADDRESS ''0'') (\<lambda>ip_address.
     bindE (Address_of_host R LOCAL_TAP_NEXT_HOP_ADDRESS ''0'') (\<lambda>hop.
     bindE (TCPOverIPv4OverEthernetAdapter_new K R tap (random_private_ethernet_address random) ip_address hop k) (\<lambda>(a, k).
       TCPSpongeSocket_new K a k)))"

definition FullStackSocket_connect ::
  "'k Syscalls \<Rightarrow> Resolver \<Rightarrow> u64 \<Rightarrow> ('k \<Rightarrow> bool) \<Rightarrow> u32 \<Rightarrow> u32 \<Rightarrow> Address \<Rightarrow> (TCPOverIPv4OverEthernetAdapter, 'k) TCPSpongeSocket
    \<Rightarrow> ((TCPOverIPv4OverEthernetAdapter, 'k) socket_rule list \<times> (TCPOverIPv4OverEthernetAdapter, 'k) TCPSpongeSocket) result option" where
  "FullStackSocket_connect K R past_end abort random_port random address s =
     (case multiplexer_config R LOCAL_TAP_IP_ADDRESS random_port address of
        Inl e \<Rightarrow> Some (Inl e)
      | Inr c_ad \<Rightarrow> TCPSpongeSocket_connect K R (ethernet_adapter K R past_end) abort random fast_config c_ad s)"

section \<open>Exceptions\<close>

text \<open>
  The exceptions that would show a fault of the socket itself: bytes of the owner that the
  connection did not take, a rule that is ready for ever, and the use of a connection that
  does not exist. Everything else comes from the system, the resolver, a segment the
  reassembler or a serializer refuses, and is external.
\<close>

definition internal_error :: "exn \<Rightarrow> bool" where
  "internal_error e \<longleftrightarrow> e = RuntimeError ''TCPConnection::write() accepted less than advertised length''
     \<or> e = RuntimeError ''EventLoop: busy wait detected: callback did not read/write fd and is still interested''
     \<or> e = RuntimeError ''bad optional access'' \<or> e = Undefined ''*_tcp''"

abbreviation external :: "exn \<Rightarrow> bool" where
  "external e \<equiv> \<not> internal_error e"

lemma system_error_external: "system_error e \<Longrightarrow> external e"
  by (auto simp: system_error_def internal_error_def)

lemma good_external: "good system_error P m \<Longrightarrow> good external P m"
  by (cases m) (auto dest: system_error_external)

lemma external_simps [simp]:
  "external (OutOfRange m)" "external (InvalidArgument m)" "external (UnixError a n)"
  by (simp_all add: internal_error_def)

lemma external_runtime [simp]:
  "external (RuntimeError ''bad_optional_access'')" "external (RuntimeError ''TCP header too short'')"
  "m \<noteq> [] \<Longrightarrow> hd m \<notin> {CHR ''T'', CHR ''E'', CHR ''b''} \<Longrightarrow> external (RuntimeError m)"
  by (auto simp: internal_error_def)

lemma external_undefined [simp]: "external (Undefined m) \<longleftrightarrow> m \<noteq> ''*_tcp''"
  by (simp add: internal_error_def)

text \<open>Rules that take a program apart when only its exceptions matter.\<close>

abbreviation raises :: "'a result \<Rightarrow> bool" where
  "raises m \<equiv> good external (\<lambda>_. True) m"

lemma good_raises: "raises m \<Longrightarrow> (\<And>x. m = Inr x \<Longrightarrow> P x) \<Longrightarrow> good external P m"
  by (cases m) auto

lemma raises_Inr [intro]: "raises (Inr x)"
  by simp

lemma raises_bindE [intro]: "raises m \<Longrightarrow> (\<And>x. raises (f x)) \<Longrightarrow> raises (bindE m f)"
  by (rule good_bindE)

lemma raises_if [intro]: "raises m \<Longrightarrow> raises n \<Longrightarrow> raises (if b then m else n)"
  by simp

lemma raises_prod [intro]: "(\<And>x y. raises (f x y)) \<Longrightarrow> raises (case p of (x, y) \<Rightarrow> f x y)"
  by (simp split: prod.split)

lemma raises_option [intro]: "raises m \<Longrightarrow> (\<And>x. raises (f x)) \<Longrightarrow> raises (case p of None \<Rightarrow> m | Some x \<Rightarrow> f x)"
  by (simp split: option.split)

lemma raises_substr [intro]: "raises (substr d i n)" "raises (substr_from d i)"
  by (simp_all add: substr_def substr_from_def)

lemmas raises_rules = raises_Inr raises_bindE raises_if raises_prod raises_option raises_substr

lemma raises_insert: "raises (insert_loop l p ub)"
proof (induction l p ub rule: insert_loop.induct)
  case (2 temp rest b e d ub)
  have "raises (merge_overlap temp (b, e, d))"
    by (auto simp: merge_overlap_def)
  with 2 show ?case by (cases "merge_overlap temp (b, e, d)") auto
qed simp

lemma raises_push [intro]: "raises (StreamReassembler_push_substring d i eof r)"
  unfolding StreamReassembler_push_substring_def Let_def insert_pending_def trim_front_def trim_back_def deliver_def take_front_def
  by (intro raises_rules raises_insert) (simp split: prod.split)

lemma raises_receive [intro]: "raises (TCPReceiver_segment_received seg r)"
  unfolding TCPReceiver_segment_received_def Let_def
  by (intro raises_rules raises_push) simp

lemma raises_segment [intro]: "raises (TCPConnection_segment_received seg c)"
  unfolding TCPConnection_segment_received_def Let_def by (intro raises_rules raises_receive)

lemma raises_tick [intro]: "raises (TCPConnection_tick ms c)"
  unfolding TCPConnection_tick_def TCPSender_tick_def Let_def
  by (intro raises_rules) (simp split: list.split)

lemma raises_address [intro]:
  "raises (Address_port R a)" "raises (Address_ipv4_numeric a)" "raises (Address_to_string R a)" "raises (Address_of_ip R ip port)"
proof -
  have ip_port: "raises (Address_ip_port R a)" for a
    unfolding Address_ip_port_def Let_def stoi_def by (intro raises_rules) simp_all
  then show "raises (Address_port R a)" "raises (Address_to_string R a)"
    unfolding Address_port_def Address_to_string_def by (intro raises_rules; assumption?)+
  show "raises (Address_ipv4_numeric a)"
    unfolding Address_ipv4_numeric_def by simp
  show "raises (Address_of_ip R ip port)"
    unfolding Address_of_ip_def Address_resolve_def Address_of_sockaddr_def Let_def
    by (intro raises_rules) simp_all
qed

lemma raises_name_peer [intro]: "raises (name_peer R A s)"
  unfolding name_peer_def by auto

section \<open>What the socket relies on of an adapter\<close>

text \<open>
  The descriptor \<open>td\<close> of the socket pair is not touched: nothing is read from it and nothing
  written to it.
\<close>

definition kept :: "(int \<Rightarrow> 'k \<Rightarrow> bytes) \<Rightarrow> (int \<Rightarrow> 'k \<Rightarrow> bytes) \<Rightarrow> int \<Rightarrow> 'k \<Rightarrow> 'k \<Rightarrow> bool" where
  "kept rd wr td k k' \<longleftrightarrow> rd td k' = rd td k \<and> wr td k' = wr td k"

lemma kept_quiet: "quiet rd wr k k' \<Longrightarrow> kept rd wr td k k'"
  by (simp add: quiet_def kept_def)

lemma kept_trans: "kept rd wr td k k' \<Longrightarrow> kept rd wr td k' k'' \<Longrightarrow> kept rd wr td k k''"
  by (simp add: kept_def)

text \<open>
  The contract: a read counts as a read of the descriptor that the event loop watches, no
  operation touches \<open>td\<close>, and only external exceptions are raised.
\<close>

locale datagram_adapter =
  fixes A :: "('a, 'k) AdaptT" and ok :: "'a \<Rightarrow> bool" and rd wr :: "int \<Rightarrow> 'k \<Rightarrow> bytes" and td :: int
  assumes adapter_read: "ok a \<Longrightarrow> good external (\<lambda>(seg, a', k'). ok a' \<and> kept rd wr td k k'
      \<and> fd_read_count (ad_fd A a') \<noteq> fd_read_count (ad_fd A a)) (ad_read A a k)"
    and adapter_write: "ok a \<Longrightarrow> good external (\<lambda>(seg', a', k'). ok a' \<and> kept rd wr td k k') (ad_write A seg a k)"
    and adapter_tick: "ok a \<Longrightarrow> good external (\<lambda>(a', k'). ok a' \<and> kept rd wr td k k') (ad_tick A ms a k)"
    and adapter_config: "ok a \<Longrightarrow> ok (ad_set_config A c a)"
    and adapter_listening: "ok a \<Longrightarrow> ok (ad_set_listening A l a)"
begin

lemma send_segments_good: "ok a \<Longrightarrow> good external (\<lambda>(a', k'). ok a' \<and> kept rd wr td k k') (send_segments A segs a k)"
proof (induction segs arbitrary: a k)
  case (Cons seg segs)
  show ?case
    unfolding send_segments.simps
    by (rule good_bindE [OF adapter_write [OF Cons.prems]])
      (use Cons.IH in \<open>auto intro: good_mono kept_trans\<close>)
qed (simp add: kept_def)

end

section \<open>The socket is a faithful owner of its connection\<close>

text \<open>
  The connection is in a run in which its owner wrote exactly what was read from the socket
  pair, ended the input exactly when the flag says so, and read exactly what was written to
  the socket pair.
\<close>

definition sock_inv :: "'k Syscalls \<Rightarrow> ('a \<Rightarrow> bool) \<Rightarrow> (int \<Rightarrow> 'k \<Rightarrow> bytes) \<Rightarrow> (int \<Rightarrow> 'k \<Rightarrow> bytes) \<Rightarrow> int
    \<Rightarrow> ('a, 'k) TCPSpongeSocket \<Rightarrow> bool" where
  "sock_inv K ok rd wr td s \<longleftrightarrow> system_ok K rd wr \<and> poll_ok (sys_poll K) \<and> ok (ss_adapter s) \<and> fd_num (ss_thread_data s) = td
     \<and> (\<exists>tcp. ss_tcp s = Some tcp \<and> cn_run tcp (rd td (ss_kernel s)) (ss_outbound_shutdown s) (wr td (ss_kernel s)))"

definition socket_rules :: "'k Syscalls \<Rightarrow> Resolver \<Rightarrow> ('a, 'k) AdaptT \<Rightarrow> ('a, 'k) socket_rule list" where
  "socket_rules K R A = [rule_datagram_in R A, rule_owner_in K R A, rule_owner_out K R A, rule_datagram_out A]"

definition may_read :: "'k Syscalls \<Rightarrow> Resolver \<Rightarrow> ('a, 'k) AdaptT \<Rightarrow> ('a, 'k) socket_rule \<Rightarrow> ('a, 'k) TCPSpongeSocket \<Rightarrow> bool" where
  "may_read K R A r s \<longleftrightarrow> (r = rule_owner_in K R A \<longrightarrow> \<not> ss_outbound_shutdown s)"

lemma initialize_rules: "fst (TCPSpongeSocket_initialize_TCP K R A random config s) = socket_rules K R A"
  by (simp add: TCPSpongeSocket_initialize_TCP_def EventLoop_add_rule_def socket_rules_def Let_def)

lemma cn_run_pop_all: "cn_run c inp e out \<Longrightarrow> cn_run (c\<lparr>cn_segments_out := []\<rparr>) inp e out"
  using cn_run.pop [of c inp e out "length (cn_segments_out c)"] by simp

text \<open>Reading as much from the inbound stream as was written to the owner.\<close>

lemma cn_run_handed_out:
  assumes "cn_run c inp e out" and "unat n \<le> length (ByteStream_peek_output m (TCPConnection_inbound_stream c))"
  shows "cn_run (set_inbound (ByteStream_pop_output n (TCPConnection_inbound_stream c)) c) inp e
    (out @ take (unat n) (ByteStream_peek_output m (TCPConnection_inbound_stream c)))"
proof -
  let ?s = "TCPConnection_inbound_stream c"
  have le: "n \<le> ByteStream_buffer_size ?s" and len: "unat n \<le> unat (if ByteStream_buffer_size ?s \<ge> m then m else ByteStream_buffer_size ?s)"
    using assms(2) by (auto simp: ByteStream_peek_output_def Let_def word_le_nat_alt split: if_splits)
  then have "ByteStream_read n ?s = (take (unat n) (ByteStream_peek_output m ?s), ByteStream_pop_output n ?s)"
    by (simp add: ByteStream_read_def ByteStream_peek_output_def Let_def min_absorb1)
  from cn_run.take_out [OF assms(1) this] show ?thesis .
qed

lemma set_inbound_fields [simp]:
  "TCPConnection_inbound_stream (set_inbound i c) = i" "set_inbound (TCPConnection_inbound_stream c) c = c"
  by (simp_all add: set_inbound_def TCPConnection_inbound_stream_def TCPReceiver_stream_out_def)

locale sponge_socket = datagram_adapter A ok rd wr td
  for A :: "('a, 'k) AdaptT" and ok rd wr td +
  fixes K :: "'k Syscalls" and R :: Resolver
begin

lemma datagram_in_good:
  assumes "sock_inv K ok rd wr td s"
  shows "good external (\<lambda>s'. sock_inv K ok rd wr td s' \<and> ss_outbound_shutdown s' = ss_outbound_shutdown s
      \<and> fd_read_count (ad_fd A (ss_adapter s')) \<noteq> fd_read_count (ad_fd A (ss_adapter s))) (rule_callback (rule_datagram_in R A) s)"
proof -
  from assms obtain tcp where ok: "ok (ss_adapter s)" and tcp: "ss_tcp s = Some tcp"
    and run: "cn_run tcp (rd td (ss_kernel s)) (ss_outbound_shutdown s) (wr td (ss_kernel s))"
    by (auto simp: sock_inv_def)
  have seg: "good external (\<lambda>tcp'. cn_run tcp' (rd td (ss_kernel s)) (ss_outbound_shutdown s) (wr td (ss_kernel s)))
      (case seg of None \<Rightarrow> Inr tcp | Some seg \<Rightarrow> TCPConnection_segment_received seg tcp)" for seg
    using run by (cases seg) (auto intro: good_raises [OF raises_segment] cn_run.segment)
  have "sock_inv K ok rd wr td (s\<lparr>ss_adapter := a, ss_kernel := k, ss_tcp := Some tcp', ss_fully_acked := b\<rparr>)"
    if "ok a" "kept rd wr td (ss_kernel s) k" "cn_run tcp' (rd td (ss_kernel s)) (ss_outbound_shutdown s) (wr td (ss_kernel s))" for a k tcp' b
    using assms that by (simp add: sock_inv_def kept_def)
  note inv = this this [where b = "ss_fully_acked s", simplified]
  have name: "good external (\<lambda>_. True) (name_peer R A s')" for s' by (rule raises_name_peer)
  show ?thesis
    unfolding rule_datagram_in_def Rule.simps
    apply (rule good_bindE [OF adapter_read [OF ok]])
    apply (clarsimp simp: tcp_of_def tcp)
    apply (rule good_bindE [OF seg])
    apply (auto simp: Let_def inv intro!: good_bindE [OF name])
    done
qed

lemma owner_in_good:
  assumes "sock_inv K ok rd wr td s" and "\<not> ss_outbound_shutdown s"
  shows "good external (\<lambda>s'. sock_inv K ok rd wr td s'
      \<and> fd_read_count (ss_thread_data s') \<noteq> fd_read_count (ss_thread_data s)) (rule_callback (rule_owner_in K R A) s)"
proof -
  from assms obtain tcp where sys: "system_ok K rd wr" and tcp: "ss_tcp s = Some tcp"
    and run: "cn_run tcp (rd td (ss_kernel s)) False (wr td (ss_kernel s))" and td: "fd_num (ss_thread_data s) = td"
    by (auto simp: sock_inv_def)
  note read = good_external [OF read_good [OF sys, where w = "ss_thread_data s" and k = "ss_kernel s"]]
  have name: "good external (\<lambda>_. True) (name_peer R A s')" for s' by (rule raises_name_peer)
  have step: "fst (TCPConnection_write data tcp) = sz data
      \<and> cn_run (snd (TCPConnection_write data tcp)) (rd td (ss_kernel s) @ data) False (wr td (ss_kernel s))
      \<and> cn_run (TCPConnection_end_input_stream (snd (TCPConnection_write data tcp))) (rd td (ss_kernel s) @ data) True (wr td (ss_kernel s))"
    if "length data \<le> unat (TCPConnection_remaining_outbound_capacity tcp)" for data
    using cn_run_accepts [OF run that] cn_run.put [OF run that] cn_run.end_input by blast
  show ?thesis
    unfolding rule_owner_in_def Rule.simps
    apply (simp add: tcp_of_def tcp)
    apply (rule good_bindE [OF read])
    apply (use assms step step [of "[]"] in \<open>auto simp: Let_def case_prod_beta td sock_inv_def intro!: good_bindE [OF name]\<close>)
    done
qed

lemma owner_out_good:
  assumes "sock_inv K ok rd wr td s"
  shows "good external (\<lambda>s'. sock_inv K ok rd wr td s' \<and> ss_outbound_shutdown s' = ss_outbound_shutdown s
      \<and> fd_write_count (ss_thread_data s') \<noteq> fd_write_count (ss_thread_data s))
    (rule_callback (rule_owner_out K R A) s)"
proof -
  from assms obtain tcp where sys: "system_ok K rd wr" and tcp: "ss_tcp s = Some tcp"
    and run: "cn_run tcp (rd td (ss_kernel s)) (ss_outbound_shutdown s) (wr td (ss_kernel s))" and td: "fd_num (ss_thread_data s) = td"
    by (auto simp: sock_inv_def)
  define inbound where "inbound = TCPConnection_inbound_stream tcp"
  define buffer where "buffer = ByteStream_peek_output (min 65536 (ByteStream_buffer_size inbound)) inbound"
  have "length buffer \<le> 65536"
    by (auto simp: buffer_def ByteStream_peek_output_def Let_def word_le_nat_alt min_def)
  then have wrote: "good external (\<lambda>(n, w', k'). unat n \<le> length buffer
      \<and> (\<forall>f. wr f k' = (if f = td then wr f (ss_kernel s) @ take (unat n) buffer else wr f (ss_kernel s)) \<and> rd f k' = rd f (ss_kernel s))
      \<and> w' = (ss_thread_data s)\<lparr>fd_write_count := fd_write_count (ss_thread_data s) + 1\<rparr>)
    (FileDescriptor_write K [buffer] False (ss_thread_data s) (ss_kernel s))"
    using good_external [OF write_once_good [OF sys, of buffer "ss_thread_data s" "ss_kernel s"]] td
    by (auto intro: good_mono)
  have step: "cn_run (set_inbound (ByteStream_pop_output n inbound) tcp) (rd td (ss_kernel s)) (ss_outbound_shutdown s)
      (wr td (ss_kernel s) @ take (unat n) buffer)" if "unat n \<le> length buffer" for n
    using cn_run_handed_out [OF run] that by (simp add: inbound_def buffer_def)
  note shut = good_external [OF shutdown_good [OF sys, where how = SHUT_WR]]
  have name: "good external (\<lambda>_. True) (name_peer R A s')" for s' by (rule raises_name_peer)
  show ?thesis
    unfolding rule_owner_out_def Rule.simps
    unfolding tcp_of_def tcp option.case bindE_simps Let_def inbound_def [symmetric] buffer_def [symmetric]
    apply (rule good_bindE [OF wrote])
    apply clarify
    subgoal for n w k
      using assms step [of n] td
      by (auto intro!: good_bindE [OF shut] good_bindE [OF name] simp: quiet_def sock_inv_def)
    done
qed

end

context sponge_socket
begin

lemma datagram_out_good:
  assumes "sock_inv K ok rd wr td s"
  shows "good external (\<lambda>s'. sock_inv K ok rd wr td s' \<and> ss_outbound_shutdown s' = ss_outbound_shutdown s
      \<and> \<not> rule_interest (rule_datagram_out A) s') (rule_callback (rule_datagram_out A) s)"
proof -
  from assms obtain tcp where ok: "ok (ss_adapter s)" and tcp: "ss_tcp s = Some tcp"
    and run: "cn_run tcp (rd td (ss_kernel s)) (ss_outbound_shutdown s) (wr td (ss_kernel s))"
    by (auto simp: sock_inv_def)
  show ?thesis
    unfolding rule_datagram_out_def Rule.simps tcp_of_def tcp option.case bindE_simps
    by (rule good_bindE [OF send_segments_good [OF ok]])
      (use assms cn_run_pop_all [OF run] in \<open>auto simp: sock_inv_def kept_def\<close>)
qed

lemma owner_in_cancel_good:
  assumes "sock_inv K ok rd wr td s"
  shows "good external (sock_inv K ok rd wr td) (rule_cancel (rule_owner_in K R A) s)"
  using assms cn_run.end_input by (fastforce simp: rule_owner_in_def tcp_of_def sock_inv_def)

lemma socket_poll_good:
  assumes "sock_inv K ok rd wr td s"
  shows "poll_ok (socket_poll K :: _ \<Rightarrow> _ \<Rightarrow> ('a, 'k) TCPSpongeSocket \<Rightarrow> _)" and "sock_inv K ok rd wr td (snd (socket_poll K ps t s))"
    and "ss_outbound_shutdown (snd (socket_poll K ps t s)) = ss_outbound_shutdown s"
proof -
  have poll: "poll_ok (sys_poll K)" and sys: "system_ok K rd wr" using assms by (simp_all add: sock_inv_def)
  then show "poll_ok (socket_poll K :: _ \<Rightarrow> _ \<Rightarrow> ('a, 'k) TCPSpongeSocket \<Rightarrow> _)"
    unfolding poll_ok_def socket_poll_def by (auto split: prod.splits)
  obtain x k where call: "sys_poll K ps t (ss_kernel s) = (x, k)" by (metis prod.exhaust)
  then have "quiet rd wr (ss_kernel s) k" using sys unfolding system_ok_def control_ok_def by metis
  with assms call show "sock_inv K ok rd wr td (snd (socket_poll K ps t s))"
    by (simp add: socket_poll_def sock_inv_def quiet_def)
  show "ss_outbound_shutdown (snd (socket_poll K ps t s)) = ss_outbound_shutdown s"
    by (simp add: socket_poll_def call)
qed

lemma socket_callback_good:
  assumes "r \<in> set (socket_rules K R A)" and "sock_inv K ok rd wr td s" and "may_read K R A r s"
  shows "good external (\<lambda>s'. sock_inv K ok rd wr td s' \<and> (r \<noteq> rule_owner_in K R A \<longrightarrow> ss_outbound_shutdown s' = ss_outbound_shutdown s)
      \<and> (Rule_service_count r s \<noteq> Rule_service_count r s' \<or> \<not> rule_interest r s')) (rule_callback r s)"
proof -
  consider "r = rule_datagram_in R A" | "r = rule_owner_in K R A" | "r = rule_owner_out K R A" | "r = rule_datagram_out A"
    using assms(1) by (auto simp: socket_rules_def)
  then show ?thesis
  proof cases
    case 1
    show ?thesis unfolding 1
      by (rule good_mono [OF datagram_in_good [OF assms(2)]]) (auto simp: Rule_service_count_def rule_datagram_in_def)
  next
    case 2
    show ?thesis unfolding 2
      by (rule good_mono [OF owner_in_good [OF assms(2)]])
        (use assms(3) 2 in \<open>auto simp: may_read_def Rule_service_count_def rule_owner_in_def\<close>)
  next
    case 3
    show ?thesis unfolding 3
      by (rule good_mono [OF owner_out_good [OF assms(2)]]) (auto simp: Rule_service_count_def rule_owner_out_def)
  next
    case 4
    show ?thesis unfolding 4
      by (rule good_mono [OF datagram_out_good [OF assms(2)]]) auto
  qed
qed

lemma socket_cancel_good:
  assumes "r \<in> set (socket_rules K R A)" and "sock_inv K ok rd wr td s"
  shows "good external (\<lambda>s'. sock_inv K ok rd wr td s' \<and> (r \<noteq> rule_owner_in K R A \<longrightarrow> ss_outbound_shutdown s' = ss_outbound_shutdown s))
    (rule_cancel r s)"
proof (cases "r = rule_owner_in K R A")
  case True
  then show ?thesis using owner_in_cancel_good [OF assms(2)] by (auto intro: good_mono)
next
  case False
  then have "rule_cancel r = Inr"
    using assms(1) by (auto simp: socket_rules_def rule_datagram_in_def rule_owner_out_def rule_datagram_out_def)
  with assms(2) show ?thesis by simp
qed

end

text \<open>The rules of the socket keep the contract of the event loop.\<close>

sublocale sponge_socket \<subseteq> loop: rule_contract "sock_inv K ok rd wr td" external "set (socket_rules K R A)" "may_read K R A" "socket_poll K"
proof
  fix r :: "('a, 'k) socket_rule" and s
  assume r: "r \<in> set (socket_rules K R A)" and s: "sock_inv K ok rd wr td s"
  show "may_read K R A r s" if "rule_interest r s"
    using that by (auto simp: may_read_def rule_owner_in_def split: option.splits)
  show "good external (\<lambda>s'. sock_inv K ok rd wr td s' \<and> (\<forall>r' \<in> set (socket_rules K R A) - {r}. may_read K R A r' s \<longrightarrow> may_read K R A r' s')
      \<and> (Rule_service_count r s \<noteq> Rule_service_count r s' \<or> \<not> rule_interest r s')) (rule_callback r s)" if "may_read K R A r s"
    by (rule good_mono [OF socket_callback_good [OF r s that]]) (auto simp: may_read_def)
  show "good external (\<lambda>s'. sock_inv K ok rd wr td s' \<and> (\<forall>r' \<in> set (socket_rules K R A) - {r}. may_read K R A r' s \<longrightarrow> may_read K R A r' s'))
      (rule_cancel r s)"
    by (rule good_mono [OF socket_cancel_good [OF r s]]) (auto simp: may_read_def)
next
  fix s ps t
  assume "sock_inv K ok rd wr td s"
  from socket_poll_good(1) [OF this] socket_poll_good(2,3) [OF this, of ps t]
  show "poll_ok (socket_poll K :: _ \<Rightarrow> _ \<Rightarrow> ('a, 'k) TCPSpongeSocket \<Rightarrow> _) \<and> sock_inv K ok rd wr td (snd (socket_poll K ps t s))
      \<and> (\<forall>r \<in> set (socket_rules K R A). may_read K R A r s \<longrightarrow> may_read K R A r (snd (socket_poll K ps t s)))"
    by (simp add: may_read_def)
qed (simp add: internal_error_def)

section \<open>Runs of a socket\<close>

text \<open>
  The states of a socket that started as \<open>s0\<close>: after the set up of \<open>connect()\<close> or of
  \<open>listen_and_accept()\<close>, and then after any number of rounds of the event loop, ticks and
  readings of the clock.
\<close>

inductive socket_run :: "'k Syscalls \<Rightarrow> Resolver \<Rightarrow> ('a, 'k) AdaptT \<Rightarrow> ('a, 'k) TCPSpongeSocket
    \<Rightarrow> ('a, 'k) socket_rule list \<Rightarrow> ('a, 'k) TCPSpongeSocket \<Rightarrow> bool" for K R A s0 where
  connecting: "TCPSpongeSocket_initialize_TCP K R A random c_tcp s0 = (rules, s) \<Longrightarrow>
    socket_run K R A s0 rules (s\<lparr>ss_adapter := ad_set_config A c_ad (ss_adapter s), ss_tcp := map_option TCPConnection_connect (ss_tcp s)\<rparr>)"
| listening: "TCPSpongeSocket_initialize_TCP K R A random c_tcp s0 = (rules, s) \<Longrightarrow>
    socket_run K R A s0 rules (s\<lparr>ss_adapter := ad_set_listening A True (ad_set_config A c_ad (ss_adapter s))\<rparr>)"
| clock: "socket_run K R A s0 rules s \<Longrightarrow> sys_clock K (ss_kernel s) = (t, k) \<Longrightarrow> socket_run K R A s0 rules (s\<lparr>ss_kernel := k\<rparr>)"
| round: "socket_run K R A s0 rules s \<Longrightarrow> EventLoop_wait_next_event (socket_poll K) TCP_TICK_MS rules s = Inr (ret, rules', s') \<Longrightarrow>
    socket_run K R A s0 rules' s'"
| tick: "socket_run K R A s0 rules s \<Longrightarrow> tcp_loop_tick K A base_time s = Inr (base_time', s') \<Longrightarrow> socket_run K R A s0 rules s'"

definition fresh_socket :: "'k Syscalls \<Rightarrow> ('a \<Rightarrow> bool) \<Rightarrow> (int \<Rightarrow> 'k \<Rightarrow> bytes) \<Rightarrow> (int \<Rightarrow> 'k \<Rightarrow> bytes) \<Rightarrow> int
    \<Rightarrow> ('a, 'k) TCPSpongeSocket \<Rightarrow> bool" where
  "fresh_socket K ok rd wr td s \<longleftrightarrow> system_ok K rd wr \<and> poll_ok (sys_poll K) \<and> ok (ss_adapter s) \<and> fd_num (ss_thread_data s) = td
     \<and> \<not> ss_outbound_shutdown s \<and> rd td (ss_kernel s) = [] \<and> wr td (ss_kernel s) = []"

lemma other_descriptor: "\<exists>w' :: FDWrapper. w' \<noteq> w"
  by (rule exI [of _ "w\<lparr>fd_eof := \<not> fd_eof w\<rparr>"]) (cases w, simp)

lemma socket_rules_distinct:
  fixes A :: "('a, 'k) AdaptT"
  shows "distinct (socket_rules K R A)"
proof -
  let ?s = "undefined :: ('a, 'k) TCPSpongeSocket"
  obtain w' where w': "w' \<noteq> ad_fd A (ss_adapter ?s)" using other_descriptor by blast
  have "(\<lambda>s :: ('a, 'k) TCPSpongeSocket. ad_fd A (ss_adapter s)) \<noteq> ss_thread_data"
  proof
    assume "(\<lambda>s :: ('a, 'k) TCPSpongeSocket. ad_fd A (ss_adapter s)) = ss_thread_data"
    then have "ad_fd A (ss_adapter (?s\<lparr>ss_thread_data := w'\<rparr>)) = ss_thread_data (?s\<lparr>ss_thread_data := w'\<rparr>)"
      by (rule fun_cong)
    with w' show False by simp
  qed
  then have "distinct (map (\<lambda>r. (rule_fd r, rule_direction r)) (socket_rules K R A))"
    by (auto simp: socket_rules_def rule_datagram_in_def rule_owner_in_def rule_owner_out_def rule_datagram_out_def)
  then show ?thesis by (simp add: distinct_map)
qed

context sponge_socket
begin

lemma loop_tick_good:
  assumes "sock_inv K ok rd wr td s"
  shows "good external (\<lambda>(base_time', s'). sock_inv K ok rd wr td s') (tcp_loop_tick K A base_time s)"
proof -
  from assms obtain tcp where sys: "system_ok K rd wr" and ok: "ok (ss_adapter s)" and tcp: "ss_tcp s = Some tcp"
    and run: "cn_run tcp (rd td (ss_kernel s)) (ss_outbound_shutdown s) (wr td (ss_kernel s))"
    by (auto simp: sock_inv_def)
  obtain t k where clock: "sys_clock K (ss_kernel s) = (t, k)" by (metis prod.exhaust)
  then have "quiet rd wr (ss_kernel s) k" using sys unfolding system_ok_def control_ok_def by metis
  then have k: "rd td k = rd td (ss_kernel s)" "wr td k = wr td (ss_kernel s)" by (simp_all add: quiet_def)
  have ticked: "good external (\<lambda>tcp'. cn_run tcp' (rd td k) (ss_outbound_shutdown s) (wr td k)) (TCPConnection_tick ms tcp)" for ms
    by (rule good_raises [OF raises_tick]) (use run k in \<open>auto intro: cn_run.tick\<close>)
  show ?thesis
    unfolding tcp_loop_tick_def tcp option.case clock Let_def prod.case
    using assms
    by (auto intro!: good_bindE [OF ticked] good_bindE [OF adapter_tick [OF ok]] simp: sock_inv_def kept_def k)
qed

lemma socket_run_inv:
  assumes "fresh_socket K ok rd wr td s0" and "socket_run K R A s0 rules s"
  shows "set rules \<subseteq> set (socket_rules K R A) \<and> distinct rules \<and> sock_inv K ok rd wr td s"
  using assms(2)
proof induction
  case (connecting random c_tcp rules s c_ad)
  then have "rules = socket_rules K R A" "s = s0\<lparr>ss_tcp := Some (TCPConnection_new c_tcp random)\<rparr>"
    by (auto simp: TCPSpongeSocket_initialize_TCP_def EventLoop_add_rule_def socket_rules_def Let_def)
  then show ?case
    using assms(1) cn_run.connect [OF cn_run.new] adapter_config
    by (auto simp: socket_rules_distinct fresh_socket_def sock_inv_def)
next
  case (listening random c_tcp rules s c_ad)
  then have "rules = socket_rules K R A" "s = s0\<lparr>ss_tcp := Some (TCPConnection_new c_tcp random)\<rparr>"
    by (auto simp: TCPSpongeSocket_initialize_TCP_def EventLoop_add_rule_def socket_rules_def Let_def)
  then show ?case
    using assms(1) cn_run.new adapter_config adapter_listening
    by (auto simp: socket_rules_distinct fresh_socket_def sock_inv_def)
next
  case (clock rules s t k)
  then have "quiet rd wr (ss_kernel s) k" unfolding sock_inv_def system_ok_def control_ok_def by metis
  with clock show ?case by (simp add: sock_inv_def quiet_def)
next
  case (round rules s ret rules' s')
  then have "good external (\<lambda>(res, rs', s'). subseq rs' rules \<and> sock_inv K ok rd wr td s')
      (EventLoop_wait_next_event (socket_poll K) TCP_TICK_MS rules s)"
    by (intro loop.wait_next_event_good) auto
  with round show ?case using subseq_set [of rules' rules] subseq_distinct [of rules' rules] by auto
next
  case (tick rules s base_time base_time' s')
  then show ?case using loop_tick_good [of s base_time] by auto
qed

lemma socket_run_safe:
  assumes "fresh_socket K ok rd wr td s0" and "socket_run K R A s0 rules s"
  shows "raises (EventLoop_wait_next_event (socket_poll K) TCP_TICK_MS rules s)" and "raises (tcp_loop_tick K A base_time s)"
proof -
  from socket_run_inv [OF assms] have inv: "set rules \<subseteq> set (socket_rules K R A)" "distinct rules" "sock_inv K ok rd wr td s" by auto
  show "raises (EventLoop_wait_next_event (socket_poll K) TCP_TICK_MS rules s)"
    by (rule good_mono [OF loop.wait_next_event_good [OF inv]]) simp
  show "raises (tcp_loop_tick K A base_time s)" by (rule good_mono [OF loop_tick_good [OF inv(3)]]) simp
qed

end

context sponge_socket
begin

text \<open>The loop of the thread only goes through states of a run.\<close>

lemma tcp_loop_run:
  assumes "tcp_loop K A abort condition base_time rules s = Some r"
    and "fresh_socket K ok rd wr td s0" and "socket_run K R A s0 rules s"
  shows "good external (\<lambda>(rules', s'). socket_run K R A s0 rules' s') r"
proof -
  have "\<lbrakk>tcp_loop K' A' abort condition base_time rules s = Some r; K' = K; A' = A; socket_run K R A s0 rules s\<rbrakk>
      \<Longrightarrow> good external (\<lambda>(rules', s'). socket_run K R A s0 rules' s') r" for K' A'
  proof (induction rule: tcp_loop.raw_induct [rotated, consumes 1, case_names step])
    case (step loop K' A' abort condition base_time rules s r)
    note hyp = step(1) and res = step(2) [unfolded step(3,4)] and run = step(5)
    have wait: "good external (\<lambda>(ret, rules', s'). socket_run K R A s0 rules' s')
        (EventLoop_wait_next_event (socket_poll K) TCP_TICK_MS rules s)"
      by (rule good_raises [OF socket_run_safe(1) [OF assms(2) run]]) (auto intro: socket_run.round [OF run])
    have ticked: "good external (\<lambda>(base_time', s'). socket_run K R A s0 rules s') (tcp_loop_tick K A base_time s)"
      if "socket_run K R A s0 rules s" for rules s
      by (rule good_raises [OF socket_run_safe(2) [OF assms(2) that]]) (auto intro: socket_run.tick [OF that])
    show ?case
    proof (cases "condition s \<and> (\<exists>x. EventLoop_wait_next_event (socket_poll K) TCP_TICK_MS rules s = Inr x)")
      case False
      then show ?thesis using res wait run by (auto split: if_splits sum.splits)
    next
      case True
      then obtain ret rules' s' where x: "EventLoop_wait_next_event (socket_poll K) TCP_TICK_MS rules s = Inr (ret, rules', s')"
        and run': "socket_run K R A s0 rules' s'" using wait by fastforce
      show ?thesis
        using res True x run' ticked [OF run'] hyp [of K A abort condition _ rules' _ r]
        by (auto split: if_splits sum.splits)
    qed
  qed
  with assms show ?thesis by blast
qed

end

context sponge_socket
begin

lemma loop_run:
  assumes "fresh_socket K ok rd wr td s0" and "socket_run K R A s0 rules s"
    and "TCPSpongeSocket_tcp_loop K A abort condition rules s = Some r"
  shows "good external (\<lambda>(rules', s'). socket_run K R A s0 rules' s') r"
  using assms(3) tcp_loop_run [OF _ assms(1)] socket_run.clock [OF assms(2)]
  by (auto simp: TCPSpongeSocket_tcp_loop_def split: prod.splits)

lemma connect_run:
  assumes fresh: "fresh_socket K ok rd wr td s0" and new: "ss_tcp s0 = None"
    and res: "TCPSpongeSocket_connect K R A abort random c_tcp c_ad s0 = Some r"
  shows "good external (\<lambda>(rules', s'). socket_run K R A s0 rules' s') r"
proof -
  obtain rules s1 where init: "TCPSpongeSocket_initialize_TCP K R A random c_tcp s0 = (rules, s1)" by (metis prod.exhaust)
  then obtain tcp where tcp: "ss_tcp s1 = Some tcp" by (auto simp: TCPSpongeSocket_initialize_TCP_def Let_def)
  let ?s = "s1\<lparr>ss_adapter := ad_set_config A c_ad (ss_adapter s1), ss_tcp := Some (TCPConnection_connect tcp)\<rparr>"
  have run: "socket_run K R A s0 rules ?s" using socket_run.connecting [OF init, of c_ad] tcp by simp
  show ?thesis
  proof (cases "Address_to_string R (fc_destination c_ad)")
    case (Inl e)
    then have "external e" using raises_address(3) [of R "fc_destination c_ad"] by simp
    with Inl new res show ?thesis by (auto simp: TCPSpongeSocket_connect_def init Let_def)
  next
    case (Inr name)
    show ?thesis
    proof (cases "in_state SYN_SENT ?s")
      case True
      with new res Inr tcp have "TCPSpongeSocket_tcp_loop K A abort (in_state SYN_SENT) rules ?s = Some r"
        by (simp add: TCPSpongeSocket_connect_def init Let_def tcp_of_def)
      from loop_run [OF fresh run this] show ?thesis .
    next
      case False
      with new res Inr tcp show ?thesis
        by (auto simp: TCPSpongeSocket_connect_def init Let_def tcp_of_def internal_error_def)
    qed
  qed
qed

lemma listen_run:
  assumes "fresh_socket K ok rd wr td s0" and "ss_tcp s0 = None"
    and "TCPSpongeSocket_listen_and_accept K R A abort random c_tcp c_ad s0 = Some r"
  shows "good external (\<lambda>(rules', s'). socket_run K R A s0 rules' s') r"
proof -
  obtain rules s1 where init: "TCPSpongeSocket_initialize_TCP K R A random c_tcp s0 = (rules, s1)" by (metis prod.exhaust)
  show ?thesis
    using assms loop_run [OF assms(1) socket_run.listening [OF init, of c_ad]]
    by (simp add: TCPSpongeSocket_listen_and_accept_def init Let_def)
qed

lemma main_run:
  assumes fresh: "fresh_socket K ok rd wr td s0" and run: "socket_run K R A s0 rules s"
    and res: "TCPSpongeSocket_tcp_main K A abort rules s = Some t"
  shows "good external (\<lambda>s'. ss_tcp s' = None \<and> (\<exists>rules'' s''. socket_run K R A s0 rules'' s''
      \<and> quiet rd wr (ss_kernel s'') (ss_kernel s'))) t"
proof -
  have sys: "system_ok K rd wr" using fresh by (simp add: fresh_socket_def)
  have some: "ss_tcp s \<noteq> None" using socket_run_inv [OF fresh run] by (auto simp: sock_inv_def)
  with res obtain x where x: "TCPSpongeSocket_tcp_loop K A abort (\<lambda>s. True) rules s = Some x"
    by (auto simp: TCPSpongeSocket_tcp_main_def split: option.splits)
  note good = loop_run [OF fresh run x]
  show ?thesis
  proof (cases x)
    case (Inl e)
    with good res x some show ?thesis by (auto simp: TCPSpongeSocket_tcp_main_def)
  next
    case (Inr y)
    obtain rules'' s'' where y: "y = (rules'', s'')" by (metis prod.exhaust)
    then have run'': "socket_run K R A s0 rules'' s''" using good Inr by simp
    have t: "t = bindE (Socket_shutdown K SHUT_RDWR (ss_owner s'') (ss_kernel s'')) (\<lambda>(w, k).
        Inr (s''\<lparr>ss_owner := w, ss_kernel := k, ss_tcp := None\<rparr>))"
      using res x Inr some y by (simp add: TCPSpongeSocket_tcp_main_def)
    show ?thesis unfolding t
      by (rule good_bindE [OF good_external [OF shutdown_good [OF sys]]]) (use run'' in \<open>auto intro!: exI\<close>)
  qed
qed

end

end
