(* ===== verification/Stream_Copy.thy ===== *)
theory Stream_Copy
  imports Byte_Stream Event_Loop Socket
begin

text \<open>
  Copying between the terminal and a socket: \<^verbatim>\<open>src/apps/bidirectional_stream_copy.cc\<close>. Two
  byte streams and an event loop with four rules: standard input into the outbound stream,
  the outbound stream into the socket, the socket into the inbound stream, and the inbound
  stream into standard output. The local variables that the closures capture are the record
  \<open>Copy\<close>.
\<close>

section \<open>The four rules\<close>

record 'k Copy =
  cp_input :: FDWrapper
  cp_output :: FDWrapper
  cp_socket :: FDWrapper
  cp_outbound :: ByteStream
  cp_inbound :: ByteStream
  cp_outbound_shutdown :: bool
  cp_inbound_shutdown :: bool
  cp_kernel :: 'k

definition max_copy_length :: size_t where "max_copy_length = 65536"

definition copy_buffer_size :: size_t where "copy_buffer_size = 1048576"

definition copy_stdin :: "'k Syscalls \<Rightarrow> 'k Copy Rule" where
  "copy_stdin K = \<lparr>rule_fd = cp_input, rule_direction = In,
     rule_callback = \<lambda>s.
       bindE (FileDescriptor_read K (ByteStream_remaining_capacity (cp_outbound s)) (cp_input s) (cp_kernel s)) (\<lambda>(str, w, k).
         let s = s\<lparr>cp_input := w, cp_kernel := k, cp_outbound := snd (ByteStream_write str (cp_outbound s))\<rparr>
         in Inr (if fd_eof (cp_input s) then s\<lparr>cp_outbound := ByteStream_end_input (cp_outbound s)\<rparr> else s)),
     rule_interest = \<lambda>s. \<not> ByteStream_error (cp_outbound s) \<and> 0 < ByteStream_remaining_capacity (cp_outbound s)
       \<and> \<not> ByteStream_error (cp_inbound s),
     rule_cancel = \<lambda>s. Inr (s\<lparr>cp_outbound := ByteStream_end_input (cp_outbound s)\<rparr>)\<rparr>"

definition copy_to_socket :: "'k Syscalls \<Rightarrow> 'k Copy Rule" where
  "copy_to_socket K = \<lparr>rule_fd = cp_socket, rule_direction = Out,
     rule_callback = \<lambda>s.
       let bytes_to_write = min max_copy_length (ByteStream_buffer_size (cp_outbound s))
       in bindE (FileDescriptor_write K [ByteStream_peek_output bytes_to_write (cp_outbound s)] False (cp_socket s) (cp_kernel s))
         (\<lambda>(bytes_written, w, k).
           let s = s\<lparr>cp_socket := w, cp_kernel := k, cp_outbound := ByteStream_pop_output bytes_written (cp_outbound s)\<rparr>
           in if ByteStream_eof (cp_outbound s) then
                bindE (Socket_shutdown K SHUT_WR (cp_socket s) (cp_kernel s)) (\<lambda>(w, k).
                  Inr (s\<lparr>cp_socket := w, cp_kernel := k, cp_outbound_shutdown := True\<rparr>))
              else Inr s),
     rule_interest = \<lambda>s. \<not> ByteStream_buffer_empty (cp_outbound s)
       \<or> (ByteStream_eof (cp_outbound s) \<and> \<not> cp_outbound_shutdown s),
     rule_cancel = \<lambda>s. Inr (s\<lparr>cp_outbound := ByteStream_end_input (cp_outbound s)\<rparr>)\<rparr>"

definition copy_from_socket :: "'k Syscalls \<Rightarrow> 'k Copy Rule" where
  "copy_from_socket K = \<lparr>rule_fd = cp_socket, rule_direction = In,
     rule_callback = \<lambda>s.
       bindE (FileDescriptor_read K (ByteStream_remaining_capacity (cp_inbound s)) (cp_socket s) (cp_kernel s)) (\<lambda>(str, w, k).
         let s = s\<lparr>cp_socket := w, cp_kernel := k, cp_inbound := snd (ByteStream_write str (cp_inbound s))\<rparr>
         in Inr (if fd_eof (cp_socket s) then s\<lparr>cp_inbound := ByteStream_end_input (cp_inbound s)\<rparr> else s)),
     rule_interest = \<lambda>s. \<not> ByteStream_error (cp_inbound s) \<and> 0 < ByteStream_remaining_capacity (cp_inbound s)
       \<and> \<not> ByteStream_error (cp_outbound s),
     rule_cancel = \<lambda>s. Inr (s\<lparr>cp_inbound := ByteStream_end_input (cp_inbound s)\<rparr>)\<rparr>"

definition copy_stdout :: "'k Syscalls \<Rightarrow> 'k Copy Rule" where
  "copy_stdout K = \<lparr>rule_fd = cp_output, rule_direction = Out,
     rule_callback = \<lambda>s.
       let bytes_to_write = min max_copy_length (ByteStream_buffer_size (cp_inbound s))
       in bindE (FileDescriptor_write K [ByteStream_peek_output bytes_to_write (cp_inbound s)] False (cp_output s) (cp_kernel s))
         (\<lambda>(bytes_written, w, k).
           let s = s\<lparr>cp_output := w, cp_kernel := k, cp_inbound := ByteStream_pop_output bytes_written (cp_inbound s)\<rparr>
           in if ByteStream_eof (cp_inbound s) then
                bindE (FDWrapper_close K (cp_output s) (cp_kernel s)) (\<lambda>(w, k).
                  Inr (s\<lparr>cp_output := w, cp_kernel := k, cp_inbound_shutdown := True\<rparr>))
              else Inr s),
     rule_interest = \<lambda>s. \<not> ByteStream_buffer_empty (cp_inbound s)
       \<or> (ByteStream_eof (cp_inbound s) \<and> \<not> cp_inbound_shutdown s),
     rule_cancel = \<lambda>s. Inr (s\<lparr>cp_inbound := ByteStream_end_input (cp_inbound s)\<rparr>)\<rparr>"

section \<open>The loop\<close>

definition copy_rules :: "'k Syscalls \<Rightarrow> 'k Copy Rule list" where
  "copy_rules K = EventLoop_add_rule (copy_stdout K) (EventLoop_add_rule (copy_from_socket K)
     (EventLoop_add_rule (copy_to_socket K) (EventLoop_add_rule (copy_stdin K) [])))"

definition copy_poll :: "'k Syscalls \<Rightarrow> pollfd list \<Rightarrow> int \<Rightarrow> 'k Copy \<Rightarrow> (int \<times> int \<times> pollfd list) \<times> 'k Copy" where
  "copy_poll K ps t s = (let (r, k) = sys_poll K ps t (cp_kernel s) in (r, s\<lparr>cp_kernel := k\<rparr>))"

definition copy_start :: "'k Syscalls \<Rightarrow> FDWrapper \<Rightarrow> 'k \<Rightarrow> 'k Copy result" where
  "copy_start K socket k =
     bindE (FDWrapper_new 0) (\<lambda>input.
     bindE (FDWrapper_new 1) (\<lambda>outp.
     bindE (FileDescriptor_set_blocking K False socket k) (\<lambda>k.
     bindE (FileDescriptor_set_blocking K False input k) (\<lambda>k.
     bindE (FileDescriptor_set_blocking K False outp k) (\<lambda>k.
       Inr \<lparr>cp_input = input, cp_output = outp, cp_socket = socket,
         cp_outbound = ByteStream_new copy_buffer_size, cp_inbound = ByteStream_new copy_buffer_size,
         cp_outbound_shutdown = False, cp_inbound_shutdown = False, cp_kernel = k\<rparr>)))))"

partial_function (option) copy_loop :: "'k Syscalls \<Rightarrow> 'k Copy Rule list \<Rightarrow> 'k Copy \<Rightarrow> 'k Copy result option" where
  "copy_loop K rules s =
     (case EventLoop_wait_next_event (copy_poll K) (- 1) rules s of
        Inl e \<Rightarrow> Some (Inl e)
      | Inr (res, rules, s) \<Rightarrow> if Exit = res then Some (Inr s) else copy_loop K rules s)"

definition bidirectional_stream_copy :: "'k Syscalls \<Rightarrow> FDWrapper \<Rightarrow> 'k \<Rightarrow> 'k Copy result option" where
  "bidirectional_stream_copy K socket k =
     (case copy_start K socket k of Inl e \<Rightarrow> Some (Inl e) | Inr s \<Rightarrow> copy_loop K (copy_rules K) s)"

section \<open>Every byte is copied once and in order\<close>

text \<open>
  What was read from standard input is what was written to the socket followed by the
  outbound buffer, and likewise from the socket to standard output. The write side of the
  socket is shut down, and standard output closed, only when the stream that feeds it has
  ended.
\<close>

definition copy_inv :: "'k Syscalls \<Rightarrow> (int \<Rightarrow> 'k \<Rightarrow> bytes) \<Rightarrow> (int \<Rightarrow> 'k \<Rightarrow> bytes) \<Rightarrow> int \<Rightarrow> 'k Copy \<Rightarrow> bool" where
  "copy_inv K rd wr fd s \<longleftrightarrow> system_ok K rd wr \<and> poll_ok (copy_poll K)
     \<and> fd_num (cp_input s) = 0 \<and> fd_num (cp_output s) = 1 \<and> fd_num (cp_socket s) = fd \<and> fd \<noteq> 0 \<and> fd \<noteq> 1
     \<and> bs_inv (cp_outbound s) \<and> bs_max (cp_outbound s) = copy_buffer_size
     \<and> bs_inv (cp_inbound s) \<and> bs_max (cp_inbound s) = copy_buffer_size
     \<and> rd 0 (cp_kernel s) = wr fd (cp_kernel s) @ bs_content (cp_outbound s)
     \<and> rd fd (cp_kernel s) = wr 1 (cp_kernel s) @ bs_content (cp_inbound s)
     \<and> (cp_outbound_shutdown s \<longrightarrow> bs_end (cp_outbound s))
     \<and> (cp_inbound_shutdown s \<longrightarrow> bs_end (cp_inbound s) \<and> fd_closed (cp_output s))"

lemma room_le: "bs_inv s \<Longrightarrow> bs_room s \<le> unat (bs_max s)"
  by (simp add: bs_room_def)

lemma write_all_fits:
  assumes "bs_inv s" and "length d \<le> bs_room s"
  shows "bs_content (snd (ByteStream_write d s)) = bs_content s @ d" "bs_inv (snd (ByteStream_write d s))"
proof -
  have "fits d" using fits_le_unat [of d "bs_max s"] room_le [OF assms(1)] assms(2) by simp
  with assms show "bs_content (snd (ByteStream_write d s)) = bs_content s @ d" "bs_inv (snd (ByteStream_write d s))"
    by (simp_all add: write_content)
qed

lemma copy_stdin_good:
  assumes "copy_inv K rd wr fd s"
  shows "good system_error (copy_inv K rd wr fd) (rule_callback (copy_stdin K) s)"
proof -
  have sys: "system_ok K rd wr" and out: "bs_inv (cp_outbound s)" using assms by (simp_all add: copy_inv_def)
  show ?thesis
    unfolding copy_stdin_def Rule.simps
    by (rule good_bindE [OF read_good [OF sys]])
      (use assms out write_all_fits [OF out] in \<open>auto simp: copy_inv_def Let_def\<close>)
qed

lemma copy_from_socket_good:
  assumes "copy_inv K rd wr fd s"
  shows "good system_error (copy_inv K rd wr fd) (rule_callback (copy_from_socket K) s)"
proof -
  have sys: "system_ok K rd wr" and inb: "bs_inv (cp_inbound s)" using assms by (simp_all add: copy_inv_def)
  show ?thesis
    unfolding copy_from_socket_def Rule.simps
    by (rule good_bindE [OF read_good [OF sys]])
      (use assms inb write_all_fits [OF inb] in \<open>auto simp: copy_inv_def Let_def\<close>)
qed

text \<open>What a callback writes is the beginning of the stream, and exactly that is popped.\<close>

lemma peek_small:
  assumes "bs_inv s" and "bs_max s = copy_buffer_size"
  shows "length (ByteStream_peek_output n s) < 2 ^ 63"
proof -
  have "length (bs_content s) \<le> 1048576" using bs_inv_length [OF assms(1)] assms(2) by (simp add: copy_buffer_size_def)
  then show ?thesis using assms(1) by (simp add: peek_eq)
qed

lemma pop_written:
  assumes "bs_inv s" and "unat n \<le> length (ByteStream_peek_output m s)"
  shows "take (unat n) (ByteStream_peek_output m s) @ bs_content (ByteStream_pop_output n s) = bs_content s"
proof -
  have "take (unat n) (take (unat m) (bs_content s)) = take (unat n) (bs_content s)"
    using assms by (simp add: peek_eq min_absorb1)
  with assms(1) show ?thesis by (simp add: peek_eq pop_content)
qed

lemma copy_to_socket_good:
  assumes "copy_inv K rd wr fd s"
  shows "good system_error (copy_inv K rd wr fd) (rule_callback (copy_to_socket K) s)"
proof -
  have sys: "system_ok K rd wr" and out: "bs_inv (cp_outbound s)" "bs_max (cp_outbound s) = copy_buffer_size"
    using assms by (simp_all add: copy_inv_def)
  show ?thesis
    unfolding copy_to_socket_def Rule.simps Let_def
  proof (rule good_bindE [OF write_once_good [OF sys peek_small [OF out]]], clarify)
    fix n w' k'
    let ?m = "min max_copy_length (ByteStream_buffer_size (cp_outbound s))"
    let ?s = "s\<lparr>cp_socket := (cp_socket s)\<lparr>fd_write_count := fd_write_count (cp_socket s) + 1\<rparr>, cp_kernel := k',
      cp_outbound := ByteStream_pop_output n (cp_outbound s)\<rparr>"
    assume n: "unat n \<le> length (ByteStream_peek_output ?m (cp_outbound s))"
      and obs: "\<forall>f. wr f k' = (if f = fd_num (cp_socket s) then wr f (cp_kernel s) @ take (unat n) (ByteStream_peek_output ?m (cp_outbound s))
          else wr f (cp_kernel s)) \<and> rd f k' = rd f (cp_kernel s)"
    have inv: "copy_inv K rd wr fd ?s"
      using assms obs pop_written [OF out(1) n] by (auto simp: copy_inv_def)
    have "good system_error (copy_inv K rd wr fd) (bindE (Socket_shutdown K SHUT_WR (cp_socket ?s) k')
        (\<lambda>(w, k). Inr (?s\<lparr>cp_socket := w, cp_kernel := k, cp_outbound_shutdown := True\<rparr>)))"
      if "ByteStream_eof (cp_outbound ?s)"
      by (rule good_bindE [OF shutdown_good [OF sys]])
        (use inv that in \<open>auto simp: copy_inv_def quiet_def ByteStream_eof_def\<close>)
    with inv show "good system_error (copy_inv K rd wr fd)
      (if ByteStream_eof (cp_outbound ?s)
       then bindE (Socket_shutdown K SHUT_WR (cp_socket ?s) (cp_kernel ?s))
         (\<lambda>(w, k). Inr (?s\<lparr>cp_socket := w, cp_kernel := k, cp_outbound_shutdown := True\<rparr>))
       else Inr ?s)" by simp
  qed
qed

lemma copy_stdout_good:
  assumes "copy_inv K rd wr fd s"
  shows "good system_error (copy_inv K rd wr fd) (rule_callback (copy_stdout K) s)"
proof -
  have sys: "system_ok K rd wr" and inb: "bs_inv (cp_inbound s)" "bs_max (cp_inbound s) = copy_buffer_size"
    using assms by (simp_all add: copy_inv_def)
  show ?thesis
    unfolding copy_stdout_def Rule.simps Let_def
  proof (rule good_bindE [OF write_once_good [OF sys peek_small [OF inb]]], clarify)
    fix n w' k'
    let ?m = "min max_copy_length (ByteStream_buffer_size (cp_inbound s))"
    let ?s = "s\<lparr>cp_output := (cp_output s)\<lparr>fd_write_count := fd_write_count (cp_output s) + 1\<rparr>, cp_kernel := k',
      cp_inbound := ByteStream_pop_output n (cp_inbound s)\<rparr>"
    assume n: "unat n \<le> length (ByteStream_peek_output ?m (cp_inbound s))"
      and obs: "\<forall>f. wr f k' = (if f = fd_num (cp_output s) then wr f (cp_kernel s) @ take (unat n) (ByteStream_peek_output ?m (cp_inbound s))
          else wr f (cp_kernel s)) \<and> rd f k' = rd f (cp_kernel s)"
    have inv: "copy_inv K rd wr fd ?s"
      using assms obs pop_written [OF inb(1) n] by (auto simp: copy_inv_def)
    have "good system_error (copy_inv K rd wr fd) (bindE (FDWrapper_close K (cp_output ?s) k')
        (\<lambda>(w, k). Inr (?s\<lparr>cp_output := w, cp_kernel := k, cp_inbound_shutdown := True\<rparr>)))"
      if "ByteStream_eof (cp_inbound ?s)"
      by (rule good_bindE [OF close_good [OF sys]])
        (use inv that in \<open>auto simp: copy_inv_def quiet_def ByteStream_eof_def\<close>)
    with inv show "good system_error (copy_inv K rd wr fd)
      (if ByteStream_eof (cp_inbound ?s)
       then bindE (FDWrapper_close K (cp_output ?s) (cp_kernel ?s))
         (\<lambda>(w, k). Inr (?s\<lparr>cp_output := w, cp_kernel := k, cp_inbound_shutdown := True\<rparr>))
       else Inr ?s)" by simp
  qed
qed

lemma good_Inr: "good err P m \<Longrightarrow> m = Inr x \<Longrightarrow> P x"
  by simp

lemma copy_reads_attend:
  assumes "system_ok K rd wr" and "r \<in> {copy_stdin K, copy_from_socket K}" and "rule_callback r s = Inr s'"
  shows "Rule_service_count r s \<noteq> Rule_service_count r s'"
proof -
  have count: "fd_read_count w' = fd_read_count w + 1"
    if "FileDescriptor_read K limit w k = Inr (d, w', k')" for limit w k d w' k'
    using good_Inr [OF read_good [OF assms(1)] that] by simp
  show ?thesis
    using assms(2,3)
    by (auto simp: copy_stdin_def copy_from_socket_def Rule_service_count_def bindE_Inr_iff Let_def split: if_splits dest!: count)
qed

lemma copy_writes_attend:
  assumes "copy_inv K rd wr fd s" and "r \<in> {copy_to_socket K, copy_stdout K}" and "rule_callback r s = Inr s'"
  shows "Rule_service_count r s \<noteq> Rule_service_count r s'"
proof -
  have sys: "system_ok K rd wr" using assms(1) by (simp add: copy_inv_def)
  have count: "fd_write_count w' = fd_write_count w + 1"
    if "FileDescriptor_write K [d] False w k = Inr (n, w', k')" "length d < 2 ^ 63" for d w k n w' k'
    using good_Inr [OF write_once_good [OF sys that(2)] that(1)] by simp
  have small: "length (ByteStream_peek_output n (cp_outbound s)) < 2 ^ 63" "length (ByteStream_peek_output n (cp_inbound s)) < 2 ^ 63" for n
    using assms(1) peek_small by (simp_all add: copy_inv_def)
  have shut: "fd_write_count w' = fd_write_count w + 1" if "Socket_shutdown K SHUT_WR w k = Inr (w', k')" for w k w' k'
    using good_Inr [OF shutdown_good [OF sys] that] by (simp add: SHUT_WR_def SHUT_RD_def)
  have close: "fd_write_count w' = fd_write_count w" if "FDWrapper_close K w k = Inr (w', k')" for w k w' k'
    using good_Inr [OF close_good [OF sys] that] by simp
  show ?thesis
    using assms(2,3) count small
    by (auto simp: copy_to_socket_def copy_stdout_def Rule_service_count_def bindE_Inr_iff Let_def add.assoc
        split: if_splits dest!: shut close)
qed

lemma copy_rules_distinct: "distinct (copy_rules (K :: 'k Syscalls))"
proof -
  fix w :: FDWrapper
  have "w\<lparr>fd_num := 0\<rparr> \<noteq> w\<lparr>fd_num := 1\<rparr>" by (metis FDWrapper.select_convs(1) FDWrapper.surjective FDWrapper.update_convs(1) zero_neq_one)
  then have "cp_input ((undefined :: 'k Copy)\<lparr>cp_input := w\<lparr>fd_num := 0\<rparr>, cp_socket := w\<lparr>fd_num := 1\<rparr>\<rparr>)
      \<noteq> cp_socket ((undefined :: 'k Copy)\<lparr>cp_input := w\<lparr>fd_num := 0\<rparr>, cp_socket := w\<lparr>fd_num := 1\<rparr>\<rparr>)"
    "cp_output ((undefined :: 'k Copy)\<lparr>cp_output := w\<lparr>fd_num := 0\<rparr>, cp_socket := w\<lparr>fd_num := 1\<rparr>\<rparr>)
      \<noteq> cp_socket ((undefined :: 'k Copy)\<lparr>cp_output := w\<lparr>fd_num := 0\<rparr>, cp_socket := w\<lparr>fd_num := 1\<rparr>\<rparr>)"
    by simp_all
  then have "(cp_input :: 'k Copy \<Rightarrow> FDWrapper) \<noteq> cp_socket" "(cp_output :: 'k Copy \<Rightarrow> FDWrapper) \<noteq> cp_socket" by metis+
  then have "distinct (map (\<lambda>r. (rule_fd r, rule_direction r)) (copy_rules K))"
    by (auto simp: copy_rules_def EventLoop_add_rule_def copy_stdin_def copy_from_socket_def copy_to_socket_def copy_stdout_def)
  then show ?thesis by (simp add: distinct_map)
qed

lemma copy_callback_good:
  assumes "r \<in> set (copy_rules K)" and s: "copy_inv K rd wr fd s"
  shows "good system_error (\<lambda>s'. copy_inv K rd wr fd s' \<and> Rule_service_count r s \<noteq> Rule_service_count r s') (rule_callback r s)"
proof -
  have r: "r \<in> {copy_stdin K, copy_from_socket K} \<or> r \<in> {copy_to_socket K, copy_stdout K}"
    using assms(1) by (auto simp: copy_rules_def EventLoop_add_rule_def)
  then have "good system_error (copy_inv K rd wr fd) (rule_callback r s)"
    using copy_stdin_good [OF s] copy_from_socket_good [OF s] copy_to_socket_good [OF s] copy_stdout_good [OF s] by auto
  moreover have "system_ok K rd wr" using s by (simp add: copy_inv_def)
  ultimately show ?thesis
    using r copy_reads_attend [of K rd wr r s] copy_writes_attend [OF s, of r] by (cases "rule_callback r s") auto
qed

interpretation copy: rule_contract "copy_inv K rd wr fd" system_error "set (copy_rules K)" "\<lambda>r s. True" "copy_poll K"
  for K :: "'k Syscalls" and rd wr fd
proof
  fix r :: "'k Copy Rule" and s
  assume r: "r \<in> set (copy_rules K)" and s: "copy_inv K rd wr fd s"
  show "good system_error (\<lambda>s'. copy_inv K rd wr fd s' \<and> (\<forall>r' \<in> set (copy_rules K) - {r}. True \<longrightarrow> True)
      \<and> (Rule_service_count r s \<noteq> Rule_service_count r s' \<or> \<not> rule_interest r s')) (rule_callback r s)"
    by (rule good_mono [OF copy_callback_good [OF r s]]) auto
  show "good system_error (\<lambda>s'. copy_inv K rd wr fd s' \<and> (\<forall>r' \<in> set (copy_rules K) - {r}. True \<longrightarrow> True)) (rule_cancel r s)"
    using r s by (auto simp: copy_rules_def EventLoop_add_rule_def copy_stdin_def copy_from_socket_def copy_to_socket_def
        copy_stdout_def copy_inv_def)
next
  fix s ps t
  assume s: "copy_inv K rd wr fd s"
  obtain x k where call: "sys_poll K ps t (cp_kernel s) = (x, k)" by (metis prod.exhaust)
  then have "quiet rd wr (cp_kernel s) k"
    using s unfolding copy_inv_def system_ok_def control_ok_def by metis
  with s call show "poll_ok (copy_poll K) \<and> copy_inv K rd wr fd (snd (copy_poll K ps t s)) \<and> (\<forall>r \<in> set (copy_rules K). True \<longrightarrow> True)"
    by (simp add: copy_inv_def copy_poll_def quiet_def)
qed simp_all

text \<open>The rounds of the loop, one by one; a round that exits is the last.\<close>

fun copy_rounds :: "'k Syscalls \<Rightarrow> nat \<Rightarrow> 'k Copy Rule list \<Rightarrow> 'k Copy \<Rightarrow> 'k Copy result" where
  "copy_rounds K 0 rules s = Inr s"
| "copy_rounds K (Suc n) rules s =
     bindE (EventLoop_wait_next_event (copy_poll K) (- 1) rules s) (\<lambda>(res, rules, s).
       if Exit = res then Inr s else copy_rounds K n rules s)"

lemma copy_rounds_good:
  assumes "set rules \<subseteq> set (copy_rules K)" and "distinct rules" and "copy_inv K rd wr fd s"
  shows "good system_error (copy_inv K rd wr fd) (copy_rounds K n rules s)"
  using assms
proof (induction n arbitrary: rules s)
  case (Suc n)
  show ?case
    unfolding copy_rounds.simps
    by (rule good_bindE [OF copy.wait_next_event_good [OF Suc.prems]])
      (use Suc.IH Suc.prems subseq_set subseq_distinct in \<open>fastforce split: if_splits\<close>)
qed simp

lemma copy_loop_rounds: "copy_loop K rules s = Some r \<Longrightarrow> \<exists>n. copy_rounds K n rules s = r"
proof (induction rule: copy_loop.raw_induct [rotated, consumes 1, case_names step])
  case (step loop K rules s r)
  show ?case
  proof (cases "EventLoop_wait_next_event (copy_poll K) (- 1) rules s")
    case (Inl e)
    then show ?thesis using step(2) by (intro exI [of _ 1]) auto
  next
    case (Inr x)
    obtain res rules' s' where x: "x = (res, rules', s')" by (metis prod_cases3)
    show ?thesis
    proof (cases "Exit = res")
      case True
      then show ?thesis using step(2) Inr x by (intro exI [of _ 1]) auto
    next
      case False
      then have "loop K rules' s' = Some r" using step(2) Inr x by simp
      from step(1) [OF this] obtain n where "copy_rounds K n rules' s' = r" ..
      then show ?thesis using Inr x False by (intro exI [of _ "Suc n"]) auto
    qed
  qed
qed

lemma copy_start_good:
  assumes "system_ok K rd wr" and "poll_ok (copy_poll K)" and "fd_num socket \<notin> {0, 1}"
    and "rd 0 k = []" and "wr 1 k = []" and "rd (fd_num socket) k = []" and "wr (fd_num socket) k = []"
  shows "good system_error (copy_inv K rd wr (fd_num socket)) (copy_start K socket k)"
  unfolding copy_start_def FDWrapper_new_def
  using assms
  by (auto intro!: good_bindE [OF set_blocking_good [OF assms(1)]] simp: copy_inv_def quiet_def ByteStream_new_def bs_inv_def)


text \<open>
  A system that keeps what was read and written per descriptor: a read yields one byte, a
  write takes at most two, and every descriptor is ready at once.
\<close>

definition echo_system :: "((int \<Rightarrow> bytes) \<times> (int \<Rightarrow> bytes)) Syscalls" where
  "echo_system = \<lparr>
     sys_read = \<lambda>fd n (r, w). if n = 0 then ((0, 0, []), (r, w)) else ((1, 0, [7]), (r(fd := r fd @ [7]), w)),
     sys_writev = \<lambda>fd iov (r, w). let d = take 2 (concat (map fst iov)) in ((int (length d), 0), (r, w(fd := w fd @ d))),
     sys_close = \<lambda>fd k. ((0, 0), k),
     sys_fcntl = \<lambda>fd cmd arg k. ((0, 0), k),
     sys_shutdown = \<lambda>fd how k. ((0, 0), k),
     sys_poll = all_ready,
     sys_recvfrom = \<lambda>fd n k. ((0, 0, [], [], 0), k),
     sys_sendmsg = \<lambda>fd to n iov k. ((0, 0), k),
     sys_clock = \<lambda>k. (0, k),
     sys_socket = \<lambda>domain type k. ((3, 0), k),
     sys_socketpair = \<lambda>type k. ((0, 0, 3, 4), k),
     sys_getsockopt = \<lambda>fd option k. ((0, 0, 0, 4), k),
     sys_setsockopt = \<lambda>fd level option v k. ((0, 0), k),
     sys_name = \<lambda>call fd k. ((0, 0, [], 0), k),
     sys_bind = \<lambda>fd a n k. ((0, 0), k),
     sys_connect = \<lambda>fd a n k. ((0, 0), k),
     sys_listen = \<lambda>fd backlog k. ((0, 0), k),
     sys_accept = \<lambda>fd k. ((3, 0), k)\<rparr>"

lemma echo_system_ok: "system_ok echo_system (\<lambda>fd k. fst k fd) (\<lambda>fd k. snd k fd)"
proof -
  have "read_ok echo_system (\<lambda>fd k. fst k fd) (\<lambda>fd k. snd k fd)"
    by (auto simp: read_ok_def echo_system_def answer_ok_def word_less_nat_alt unat_gt_0 Suc_le_eq split: if_splits prod.splits)
  moreover have "write_ok echo_system (\<lambda>fd k. fst k fd) (\<lambda>fd k. snd k fd)"
    by (auto simp: write_ok_def echo_system_def answer_ok_def Let_def min_def split: if_splits prod.splits)
  moreover have "control_ok echo_system (\<lambda>fd k. fst k fd) (\<lambda>fd k. snd k fd)"
    by (auto simp: control_ok_def echo_system_def answer_ok_def quiet_def all_ready_def)
  ultimately show ?thesis by (simp add: system_ok_def)
qed

lemma echo_poll_ok: "poll_ok (copy_poll echo_system)"
  using all_ready_ok unfolding poll_ok_def by (auto simp: copy_poll_def echo_system_def all_ready_def)


end
