(* ===== verification/Socket_Adapters.thy ===== *)
theory Socket_Adapters
  imports Sponge_Socket Stream_Copy
begin

text \<open>
  The adapters over a TUN device and over Ethernet keep the contract that the TCP socket of
  the theory \<open>Sponge_Socket\<close> relies on, and so does every such adapter with random loss
  added. The sockets built on them are therefore faithful owners of their connections.
\<close>

section \<open>Exceptions of the layers below\<close>

lemma raises_remove_prefix [intro]: "raises (BufferViewList_remove_prefix n l)"
  by (induction n l rule: BufferViewList_remove_prefix.induct) auto

lemma raises_tcp [intro]: "raises (TCPSegment_serialize seg n)"
  unfolding TCPSegment_serialize_def TCPHeader_serialize_def Let_def by (intro raises_rules) simp_all

lemma raises_ip [intro]: "raises (IPv4Datagram_serialize d)"
  unfolding IPv4Datagram_serialize_def IPv4Header_serialize_def Let_def by (intro raises_rules) simp_all

lemma raises_arp [intro]: "raises (ARPMessage_serialize m)"
  unfolding ARPMessage_serialize_def Let_def by (intro raises_rules) simp_all

lemma raises_unwrap [intro]: "raises (TCPOverIPv4Adapter_unwrap_tcp_in_ip R d a)"
  unfolding TCPOverIPv4Adapter_unwrap_tcp_in_ip_def accept_peer_def Let_def by (intro raises_rules raises_address)

lemma raises_wrap [intro]: "raises (TCPOverIPv4Adapter_wrap_tcp_in_ip R seg a)"
  unfolding TCPOverIPv4Adapter_wrap_tcp_in_ip_def Let_def by (intro raises_rules raises_address raises_tcp)

lemma raises_send_waiting: "raises (send_waiting src msg unsent)"
proof (induction unsent)
  case (Cons p unsent)
  obtain d ip where "p = (d, ip)" by (metis prod.exhaust)
  with Cons show ?case by (auto simp: Let_def intro!: raises_bindE)
qed simp

lemma raises_interface [intro]:
  "raises (NetworkInterface_send_datagram past_end d hop n)" "raises (NetworkInterface_recv_frame frame n)"
  unfolding NetworkInterface_send_datagram_def NetworkInterface_recv_frame_def recv_arp_def Let_def
  by (intro raises_rules raises_ip raises_arp raises_send_waiting)+

section \<open>Reading and writing another descriptor\<close>

text \<open>\<open>spared rd wr fd k k'\<close>: only the descriptor \<open>fd\<close> was read or written.\<close>

definition spared :: "(int \<Rightarrow> 'k \<Rightarrow> bytes) \<Rightarrow> (int \<Rightarrow> 'k \<Rightarrow> bytes) \<Rightarrow> int \<Rightarrow> 'k \<Rightarrow> 'k \<Rightarrow> bool" where
  "spared rd wr fd k k' \<longleftrightarrow> (\<forall>f. f \<noteq> fd \<longrightarrow> rd f k' = rd f k \<and> wr f k' = wr f k)"

lemma spared_kept: "spared rd wr fd k k' \<Longrightarrow> fd \<noteq> td \<Longrightarrow> kept rd wr td k k'"
  by (auto simp: spared_def kept_def)

lemma spared_trans: "spared rd wr fd k k' \<Longrightarrow> spared rd wr fd k' k'' \<Longrightarrow> spared rd wr fd k k''"
  by (simp add: spared_def)

lemma read_spares:
  assumes "system_ok K rd wr"
  shows "good external (\<lambda>(data, w', k'). spared rd wr (fd_num w) k k' \<and> fd_num w' = fd_num w
      \<and> fd_read_count w' = fd_read_count w + 1) (FileDescriptor_read K limit w k)"
  by (rule good_mono [OF good_external [OF read_good [OF assms]]]) (auto simp: spared_def)

lemma write_step_spares:
  assumes "system_ok K rd wr"
  shows "good external (\<lambda>(n, buffer', w', k'). spared rd wr (fd_num w) k k' \<and> fd_num w' = fd_num w
      \<and> fd_read_count w' = fd_read_count w) (write_step K buffer w k)"
proof -
  obtain ret errno k' where call: "sys_writev K (fd_num w) (BufferViewList_as_iovecs buffer) k = ((ret, errno), k')"
    by (metis prod.exhaust)
  then have "spared rd wr (fd_num w) k k'"
    using assms unfolding system_ok_def write_ok_def spared_def by metis
  moreover have "raises (SystemCall ''writev'' ret errno 0)" by (simp add: SystemCall_def Let_def)
  ultimately show ?thesis
    unfolding write_step_def call Let_def prod.case
    by (auto intro!: good_bindE [where P = "\<lambda>_. True"] raises_remove_prefix simp: FileDescriptor_register_write_def)
qed

lemma write_spares:
  assumes "system_ok K rd wr"
  shows "good external (\<lambda>(n, w', k'). spared rd wr (fd_num w) k k' \<and> fd_num w' = fd_num w
      \<and> fd_read_count w' = fd_read_count w) (FileDescriptor_write K buffer write_all w k)"
proof -
  have "good external (\<lambda>(n, w', k'). spared rd wr (fd_num w) k k' \<and> fd_num w' = fd_num w
      \<and> fd_read_count w' = fd_read_count w) (write_loop K buffer write_all written w k)" for written
    using assms
  proof (induction K buffer write_all written w k rule: write_loop.induct)
    case (1 K buffer write_all written w k)
    show ?case
    proof (cases "write_step K buffer w k")
      case (Inl e)
      then show ?thesis using write_step_spares [OF "1.prems", of w k buffer] by (subst write_loop.simps) simp
    next
      case (Inr x)
      obtain n buffer' w' k' where x: "x = (n, buffer', w', k')" by (metis prod_cases4)
      have step: "spared rd wr (fd_num w) k k'" "fd_num w' = fd_num w" "fd_read_count w' = fd_read_count w"
        using write_step_spares [OF "1.prems", of w k buffer] Inr x by simp_all
      show ?thesis
      proof (cases "write_all \<and> BufferViewList_size buffer' \<noteq> 0")
        case True
        from "1.IH" [OF Inr x [symmetric] refl refl True "1.prems"] True show ?thesis
          using Inr x step by (subst write_loop.simps) (auto simp: spared_def elim!: good_mono)
      next
        case False
        then show ?thesis using Inr x step by (subst write_loop.simps) auto
      qed
    qed
  qed
  then show ?thesis by (simp add: FileDescriptor_write_def)
qed

section \<open>The adapters keep the contract\<close>

definition tun_ok :: "'k Syscalls \<Rightarrow> (int \<Rightarrow> 'k \<Rightarrow> bytes) \<Rightarrow> (int \<Rightarrow> 'k \<Rightarrow> bytes) \<Rightarrow> int \<Rightarrow> TCPOverIPv4OverTunFdAdapter \<Rightarrow> bool" where
  "tun_ok K rd wr td a \<longleftrightarrow> system_ok K rd wr \<and> fd_num (tn_tun a) \<noteq> td"

interpretation tun: datagram_adapter "tun_adapter K R" "tun_ok K rd wr td" rd wr td for K R rd wr td
proof
  fix a k
  assume ok: "tun_ok K rd wr td a"
  then have sys: "system_ok K rd wr" and td: "fd_num (tn_tun a) \<noteq> td" by (simp_all add: tun_ok_def)
  show "good external (\<lambda>(seg, a', k'). tun_ok K rd wr td a' \<and> kept rd wr td k k'
      \<and> fd_read_count (ad_fd (tun_adapter K R) a') \<noteq> fd_read_count (ad_fd (tun_adapter K R) a)) (ad_read (tun_adapter K R) a k)"
    unfolding tun_adapter_def AdaptT.simps TCPOverIPv4OverTunFdAdapter_read_def
    by (rule good_bindE [OF read_spares [OF sys]])
      (use sys td in \<open>auto intro!: good_bindE [OF raises_unwrap] simp: tun_ok_def spared_kept Let_def split: prod.splits\<close>)
  show "good external (\<lambda>(seg', a', k'). tun_ok K rd wr td a' \<and> kept rd wr td k k') (ad_write (tun_adapter K R) seg a k)" for seg
    unfolding tun_adapter_def AdaptT.simps TCPOverIPv4OverTunFdAdapter_write_def
    using sys td by (auto intro!: good_bindE [OF raises_wrap] good_bindE [OF raises_ip] good_bindE [OF write_spares [OF sys]]
        simp: tun_ok_def spared_kept)
qed (simp_all add: tun_adapter_def tun_ok_def kept_def)

definition ethernet_ok :: "'k Syscalls \<Rightarrow> (int \<Rightarrow> 'k \<Rightarrow> bytes) \<Rightarrow> (int \<Rightarrow> 'k \<Rightarrow> bytes) \<Rightarrow> int \<Rightarrow> TCPOverIPv4OverEthernetAdapter \<Rightarrow> bool" where
  "ethernet_ok K rd wr td a \<longleftrightarrow> system_ok K rd wr \<and> fd_num (et_tap a) \<noteq> td"

lemma send_frames_spares:
  assumes "system_ok K rd wr"
  shows "good external (\<lambda>(w', k'). spared rd wr (fd_num w) k k' \<and> fd_num w' = fd_num w \<and> fd_read_count w' = fd_read_count w)
    (send_frames K frames w k)"
proof (induction frames arbitrary: w k)
  case (Cons f frames)
  show ?case
    unfolding send_frames.simps
    by (rule good_bindE [OF write_spares [OF assms]])
      (auto intro!: good_mono [OF Cons] simp: spared_def)
qed (simp add: spared_def)

lemma send_pending_spares:
  assumes "system_ok K rd wr"
  shows "good external (\<lambda>(a', k'). spared rd wr (fd_num (et_tap a)) k k' \<and> fd_num (et_tap a') = fd_num (et_tap a)
      \<and> fd_read_count (et_tap a') = fd_read_count (et_tap a)) (TCPOverIPv4OverEthernetAdapter_send_pending K a k)"
  unfolding TCPOverIPv4OverEthernetAdapter_send_pending_def
  by (rule good_bindE [OF send_frames_spares [OF assms]]) auto

interpretation ethernet: datagram_adapter "ethernet_adapter K R past_end" "ethernet_ok K rd wr td" rd wr td for K R past_end rd wr td
proof
  fix a k
  assume ok: "ethernet_ok K rd wr td a"
  then have sys: "system_ok K rd wr" and td: "fd_num (et_tap a) \<noteq> td" by (simp_all add: ethernet_ok_def)
  note pending = send_pending_spares [OF sys]
  show "good external (\<lambda>(seg, a', k'). ethernet_ok K rd wr td a' \<and> kept rd wr td k k'
      \<and> fd_read_count (ad_fd (ethernet_adapter K R past_end) a') \<noteq> fd_read_count (ad_fd (ethernet_adapter K R past_end) a))
      (ad_read (ethernet_adapter K R past_end) a k)"
    unfolding ethernet_adapter_def AdaptT.simps TCPOverIPv4OverEthernetAdapter_read_def
    by (rule good_bindE [OF read_spares [OF sys]])
      (use sys td in \<open>auto intro!: good_bindE [OF raises_interface(2)] good_bindE [OF pending] good_bindE [OF raises_unwrap]
         simp: ethernet_ok_def spared_def kept_def Let_def split: prod.splits option.splits\<close>)
  show "good external (\<lambda>(seg', a', k'). ethernet_ok K rd wr td a' \<and> kept rd wr td k k') (ad_write (ethernet_adapter K R past_end) seg a k)" for seg
    unfolding ethernet_adapter_def AdaptT.simps TCPOverIPv4OverEthernetAdapter_write_def
    using sys td by (auto intro!: good_bindE [OF raises_wrap] good_bindE [OF raises_address(2)] good_bindE [OF raises_interface(1)]
        good_bindE [OF pending] simp: ethernet_ok_def spared_kept)
  show "good external (\<lambda>(a', k'). ethernet_ok K rd wr td a' \<and> kept rd wr td k k') (ad_tick (ethernet_adapter K R past_end) ms a k)" for ms
    unfolding ethernet_adapter_def AdaptT.simps TCPOverIPv4OverEthernetAdapter_tick_def
    by (rule good_mono [OF pending]) (use sys td in \<open>auto simp: ethernet_ok_def spared_kept\<close>)
qed (simp_all add: ethernet_adapter_def ethernet_ok_def)

section \<open>Random loss keeps the contract\<close>

context datagram_adapter
begin

lemma should_drop_adapter: "lo_adapter (snd (LossyFdAdapter_should_drop rand A uplink l)) = lo_adapter l"
  by (simp add: LossyFdAdapter_should_drop_def Let_def split: prod.split)

lemma lossy_contract:
  fixes rand :: "'g \<Rightarrow> u32 \<times> 'g"
  shows "datagram_adapter (lossy_adapter rand A) (\<lambda>l. ok (lo_adapter l)) rd wr td"
proof
  fix l :: "('g, 'a) LossyFdAdapter" and k
  assume ok: "ok (lo_adapter l)"
  show "good external (\<lambda>(seg, l', k'). ok (lo_adapter l') \<and> kept rd wr td k k'
      \<and> fd_read_count (ad_fd (lossy_adapter rand A) l') \<noteq> fd_read_count (ad_fd (lossy_adapter rand A) l)) (ad_read (lossy_adapter rand A) l k)"
    unfolding lossy_adapter_def AdaptT.simps LossyFdAdapter_read_def
    by (rule good_bindE [OF adapter_read [OF ok]]) (auto simp: Let_def case_prod_beta should_drop_adapter)
  show "good external (\<lambda>(seg', l', k'). ok (lo_adapter l') \<and> kept rd wr td k k') (ad_write (lossy_adapter rand A) seg l k)" for seg
    unfolding lossy_adapter_def AdaptT.simps LossyFdAdapter_write_def Let_def case_prod_beta should_drop_adapter
    using ok by (auto intro!: good_bindE [OF adapter_write [OF ok]] simp: kept_def should_drop_adapter)
  show "good external (\<lambda>(l', k'). ok (lo_adapter l') \<and> kept rd wr td k k') (ad_tick (lossy_adapter rand A) ms l k)" for ms
    unfolding lossy_adapter_def AdaptT.simps by (rule good_bindE [OF adapter_tick [OF ok]]) auto
qed (simp_all add: lossy_adapter_def adapter_config adapter_listening)

end

interpretation lossy_tun: datagram_adapter "lossy_adapter rand (tun_adapter K R)" "\<lambda>l. tun_ok K rd wr td (lo_adapter l)" rd wr td
  for rand K R rd wr td
  by (rule tun.lossy_contract)

interpretation tun_socket: sponge_socket "tun_adapter K R" "tun_ok K rd wr td" rd wr td K R for K R rd wr td
  by unfold_locales

interpretation lossy_tun_socket: sponge_socket "lossy_adapter rand (tun_adapter K R)" "\<lambda>l. tun_ok K rd wr td (lo_adapter l)" rd wr td K R
  for rand K R rd wr td
  by unfold_locales

interpretation ethernet_socket: sponge_socket "ethernet_adapter K R past_end" "ethernet_ok K rd wr td" rd wr td K R
  for K R past_end rd wr td
  by unfold_locales

section \<open>The socket over a TUN device\<close>

text \<open>
  C37. The thread of a TCP socket over a TUN device is a faithful owner of its connection. In
  every state it reaches, the connection is in a run in which exactly the bytes read from the
  application were written to it, its input was ended exactly if the flag says so, and
  exactly the bytes written to the application were read from it; every segment that waits
  to be sent is empty or a piece of what the application wrote. Neither the next round nor
  the next tick fails with bytes not taken, a busy wait or a missing connection.
\<close>

theorem socket_faithful:
  assumes "fresh_socket K (tun_ok K rd wr td) rd wr td s0" and "socket_run K R (tun_adapter K R) s0 rules s"
    and "length (rd td (ss_kernel s)) + 2 < 2 ^ 64"
  shows "(\<exists>tcp. ss_tcp s = Some tcp \<and> cn_run tcp (rd td (ss_kernel s)) (ss_outbound_shutdown s) (wr td (ss_kernel s))
      \<and> (\<forall>seg \<in> set (cn_segments_out tcp). piece ((!) (rd td (ss_kernel s))) (length (rd td (ss_kernel s))) (cn_sender tcp) seg))
    \<and> (case EventLoop_wait_next_event (socket_poll K) TCP_TICK_MS rules s of Inl e \<Rightarrow> \<not> internal_error e | Inr x \<Rightarrow> True)
    \<and> (case tcp_loop_tick K (tun_adapter K R) base_time s of Inl e \<Rightarrow> \<not> internal_error e | Inr x \<Rightarrow> True)"
proof -
  from tun_socket.socket_run_inv [OF assms(1,2)] obtain tcp where "ss_tcp s = Some tcp"
    and run: "cn_run tcp (rd td (ss_kernel s)) (ss_outbound_shutdown s) (wr td (ss_kernel s))"
    by (auto simp: sock_inv_def)
  with cn_run_pieces [OF run assms(3)] tun_socket.socket_run_safe [OF assms(1,2)]
  show ?thesis by (simp add: good_def)
qed

text \<open>A fresh socket on the example system, between descriptor 3 and a TUN device on 7.\<close>

definition example_socket :: "(TCPOverIPv4OverTunFdAdapter, (int \<Rightarrow> bytes) \<times> (int \<Rightarrow> bytes)) TCPSpongeSocket" where
  "example_socket = \<lparr>ss_owner = open_descriptor\<lparr>fd_num := 4\<rparr>, ss_thread_data = open_descriptor,
     ss_adapter = \<lparr>tn_base = example_adapter 0x0a000001 1000 0x0a000002 80, tn_tun = open_descriptor\<lparr>fd_num := 7\<rparr>\<rparr>,
     ss_tcp = None, ss_inbound_shutdown = False, ss_outbound_shutdown = False, ss_fully_acked = False,
     ss_kernel = (\<lambda>_. [], \<lambda>_. [])\<rparr>"

lemma example_socket_fresh:
  "fresh_socket echo_system (tun_ok echo_system (\<lambda>fd k. fst k fd) (\<lambda>fd k. snd k fd) 3) (\<lambda>fd k. fst k fd) (\<lambda>fd k. snd k fd) 3 example_socket"
proof -
  have "poll_ok (sys_poll echo_system)" using all_ready_ok by (simp add: echo_system_def)
  then show ?thesis
    by (simp add: fresh_socket_def tun_ok_def echo_system_ok example_socket_def open_descriptor_def)
qed

theorem socket_faithful_witness:
  "\<exists>rules s tcp. socket_run echo_system decimal_resolver (tun_adapter echo_system decimal_resolver) example_socket rules s
    \<and> length rules = 4 \<and> ss_tcp s = Some tcp \<and> cn_run tcp [] False []
    \<and> (\<forall>seg \<in> set (cn_segments_out tcp). piece ((!) []) 0 (cn_sender tcp) seg)"
proof -
  let ?A = "tun_adapter echo_system decimal_resolver" and ?rd = "\<lambda>fd k. fst k fd" and ?wr = "\<lambda>fd k. snd k fd"
  obtain rules s where init: "TCPSpongeSocket_initialize_TCP echo_system decimal_resolver ?A 5 TCPConfig_default example_socket = (rules, s)"
    by (metis prod.exhaust)
  then have s: "rules = socket_rules echo_system decimal_resolver ?A" "ss_kernel s = (\<lambda>_. [], \<lambda>_. [])" "\<not> ss_outbound_shutdown s"
    by (auto simp: TCPSpongeSocket_initialize_TCP_def EventLoop_add_rule_def socket_rules_def example_socket_def Let_def)
  from socket_run.connecting [OF init, of "fa_cfg (example_adapter 0x0a000001 1000 0x0a000002 80)"]
  have run: "socket_run echo_system decimal_resolver ?A example_socket rules
    (s\<lparr>ss_adapter := ad_set_config ?A (fa_cfg (example_adapter 0x0a000001 1000 0x0a000002 80)) (ss_adapter s),
       ss_tcp := map_option TCPConnection_connect (ss_tcp s)\<rparr>)" (is "socket_run _ _ _ _ _ ?s") .
  from socket_faithful [OF example_socket_fresh run] s have "\<exists>tcp. ss_tcp ?s = Some tcp \<and> cn_run tcp [] False []
    \<and> (\<forall>seg \<in> set (cn_segments_out tcp). piece ((!) []) 0 (cn_sender tcp) seg)" by simp
  moreover have "length rules = 4" using s by (simp add: socket_rules_def)
  ultimately show ?thesis using run by blast
qed


lemma aborted_loop_returns: "\<exists>r. TCPSpongeSocket_tcp_loop K A (\<lambda>_. True) condition rules s = Some r"
  by (auto simp: TCPSpongeSocket_tcp_loop_def tcp_loop.simps split: prod.splits sum.splits)


section \<open>Divergences\<close>

text \<open>
  When the loop ends because the owner gave the socket up while the connection is active, the
  thread shuts the socket pair down and drops the connection, with the reset segment that its
  destructor queues: no byte is written to any descriptor after the loop.
\<close>

theorem destruction_sends_no_reset:
  assumes "system_ok K rd wr" and "TCPSpongeSocket_tcp_loop K A abort (\<lambda>s. True) rules s = Some (Inr (rules', s'))"
    and "ss_tcp s' = Some tcp" and "TCPConnection_active tcp" and "ss_tcp s \<noteq> None"
    and "TCPSpongeSocket_tcp_main K A abort rules s = Some (Inr s'')"
  shows "cn_segments_out (TCPConnection_delete tcp) \<noteq> [] \<and> ss_tcp s'' = None \<and> wr f (ss_kernel s'') = wr f (ss_kernel s')"
proof -
  have "bindE (Socket_shutdown K SHUT_RDWR (ss_owner s') (ss_kernel s')) (\<lambda>(w, k).
      Inr (s'\<lparr>ss_owner := w, ss_kernel := k, ss_tcp := None\<rparr>)) = Inr s''"
    using assms(2,5,6) unfolding TCPSpongeSocket_tcp_main_def by auto
  moreover have "good system_error (\<lambda>(w', k'). quiet rd wr (ss_kernel s') k') (Socket_shutdown K SHUT_RDWR (ss_owner s') (ss_kernel s'))"
    by (rule good_mono [OF shutdown_good [OF assms(1)]]) auto
  ultimately show ?thesis
    using assms(4) by (auto simp: bindE_Inr_iff quiet_def TCPConnection_delete_def TCPConnection_rst_segment_def Let_def)
qed

text \<open>
  A connection that was reset while connecting ends the loop of \<open>connect()\<close> like one that was
  established: the call returns, and reports success.
\<close>

theorem connect_succeeds_when_reset:
  assumes "ss_tcp s = Some tcp" and "cn_rst tcp"
  shows "TCPSpongeSocket_tcp_loop K A abort (in_state SYN_SENT) rules s
    = Some (Inr (rules, s\<lparr>ss_kernel := snd (sys_clock K (ss_kernel s))\<rparr>))"
proof -
  have "\<not> TCPConnection_active tcp" using assms(2) by (simp add: TCPConnection_active_def)
  then have "\<not> in_state SYN_SENT (s\<lparr>ss_kernel := k\<rparr>)" for k
    using assms(1) by (simp add: in_state_def TCPConnection_state_def TCPState_new_def TCPState_eq_def)
  then show ?thesis by (simp add: TCPSpongeSocket_tcp_loop_def tcp_loop.simps split: prod.splits)
qed

end
