(* ===== verification/Spec2Isabelle.thy ===== *)
theory Spec2Isabelle
  imports Reliable_Delivery Network_Simulator Buffers Socket_Adapters
begin

text \<open>A verification of the user-space TCP stack under \<^verbatim>\<open>src/libsponge\<close>.\<close>

end
